(* ===== verification/Prelude.thy ===== *)
theory Prelude
  imports Main "HOL-Library.Word"
begin

text \<open>
  Shared vocabulary of the development: the C integer types as machine words, results that
  carry an error (a panic, a sleep, a null dereference) as values of a sum type with a bind
  that propagates them, little-endian loads and stores on byte memory, the page arithmetic
  macros of \<^verbatim>\<open>kernel/riscv.h\<close>, and the generic lemmas the component theories rely on.
\<close>

unbundle bit_operations_syntax

section \<open>Types\<close>

type_synonym u8 = "8 word"
type_synonym u16 = "16 word"
type_synonym u32 = "32 word"
type_synonym u64 = "64 word"

text \<open>Byte-addressed storage: kernel memory, a disk block, or the bytes behind a \<^verbatim>\<open>char*\<close>.\<close>

type_synonym bytes = "nat \<Rightarrow> u8"

text \<open>Fact collections: results and binds, page arithmetic on words, bytes and layouts.\<close>

named_theorems res_simps
named_theorems page_simps
named_theorems byte_simps

section \<open>Results with errors\<close>

definition bindE :: "'e + 'a \<Rightarrow> ('a \<Rightarrow> 'e + 'b) \<Rightarrow> 'e + 'b" where
  "bindE m f = (case m of Inl e \<Rightarrow> Inl e | Inr x \<Rightarrow> f x)"

lemma bindE_Inl [simp]: "bindE (Inl e) f = Inl e"
  by (simp add: bindE_def)

lemma bindE_Inr [simp]: "bindE (Inr x) f = f x"
  by (simp add: bindE_def)

lemma bindE_eq_Inr [res_simps]: "bindE m f = Inr y \<longleftrightarrow> (\<exists>x. m = Inr x \<and> f x = Inr y)"
  by (cases m) auto

lemma bindE_eq_Inl [res_simps]:
  "bindE m f = Inl e \<longleftrightarrow> m = Inl e \<or> (\<exists>x. m = Inr x \<and> f x = Inl e)"
  by (cases m) auto

lemma bindE_cong [fundef_cong]:
  "m = m' \<Longrightarrow> (\<And>x. m' = Inr x \<Longrightarrow> f x = f' x) \<Longrightarrow> bindE m f = bindE m' f'"
  by (cases m') auto

lemma bindE_assoc: "bindE (bindE m f) g = bindE m (\<lambda>x. bindE (f x) g)"
  by (cases m) auto

text \<open>A loop over a list whose body may fail, threading a state.\<close>

fun foldE :: "('a \<Rightarrow> 's \<Rightarrow> 'e + 's) \<Rightarrow> 'a list \<Rightarrow> 's \<Rightarrow> 'e + 's" where
  "foldE f [] s = Inr s"
| "foldE f (x # xs) s = bindE (f x s) (foldE f xs)"

lemma foldE_append: "foldE f (xs @ ys) s = bindE (foldE f xs s) (foldE f ys)"
  proof (induction xs arbitrary: s)
  case Nil
  then show ?case by simp
next
  case (Cons x xs)
  have "foldE f (xs @ ys) = (\<lambda>s. bindE (foldE f xs s) (foldE f ys))" using Cons by (rule ext)
  then show ?case by (simp add: bindE_assoc)
qed

lemma foldE_invariant:
  assumes "foldE f xs s = Inr t" and "P s"
    and "\<And>x s s'. x \<in> set xs \<Longrightarrow> P s \<Longrightarrow> f x s = Inr s' \<Longrightarrow> P s'"
  shows "P t"
  using assms
proof (induction xs arbitrary: s)
  case Nil
  then show ?case by simp
next
  case (Cons x xs)
  then obtain s1 where "f x s = Inr s1" "foldE f xs s1 = Inr t" by (auto simp: res_simps)
  moreover from this Cons.prems have "P s1" by (meson list.set_intros(1))
  ultimately show ?case using Cons.IH Cons.prems(3) by (meson list.set_intros(2))
qed

section \<open>Little-endian loads and stores\<close>

fun loadn :: "nat \<Rightarrow> bytes \<Rightarrow> nat \<Rightarrow> nat" where
  "loadn 0 m a = 0"
| "loadn (Suc n) m a = unat (m a) + 256 * loadn n m (Suc a)"

definition storen :: "nat \<Rightarrow> bytes \<Rightarrow> nat \<Rightarrow> nat \<Rightarrow> bytes" where
  "storen n m a v = (\<lambda>x. if a \<le> x \<and> x < a + n then of_nat (v div 256 ^ (x - a)) else m x)"

definition load16 :: "bytes \<Rightarrow> nat \<Rightarrow> u16" where "load16 m a = of_nat (loadn 2 m a)"
definition load32 :: "bytes \<Rightarrow> nat \<Rightarrow> u32" where "load32 m a = of_nat (loadn 4 m a)"
definition load64 :: "bytes \<Rightarrow> nat \<Rightarrow> u64" where "load64 m a = of_nat (loadn 8 m a)"
definition store16 :: "bytes \<Rightarrow> nat \<Rightarrow> u16 \<Rightarrow> bytes" where "store16 m a w = storen 2 m a (unat w)"
definition store32 :: "bytes \<Rightarrow> nat \<Rightarrow> u32 \<Rightarrow> bytes" where "store32 m a w = storen 4 m a (unat w)"
definition store64 :: "bytes \<Rightarrow> nat \<Rightarrow> u64 \<Rightarrow> bytes" where "store64 m a w = storen 8 m a (unat w)"

lemma loadn_cong: "(\<And>i. i < n \<Longrightarrow> m (a + i) = m' (b + i)) \<Longrightarrow> loadn n m a = loadn n m' b"
proof (induction n arbitrary: a b)
  case 0
  then show ?case by simp
next
  case (Suc n)
  have "m a = m' b" using Suc.prems[of 0] by simp
  moreover have "loadn n m (Suc a) = loadn n m' (Suc b)"
    using Suc.prems[of "Suc i" for i] by (intro Suc.IH) simp
  ultimately show ?case by simp
qed

lemma loadn_bound: "loadn n m a < 256 ^ n"
proof (induction n arbitrary: a)
  case 0
  then show ?case by simp
next
  case (Suc n)
  have "unat (m a) < 256" using unsigned_less[of "m a"] by simp
  moreover have "loadn n m (Suc a) + 1 \<le> 256 ^ n" using Suc[of "Suc a"] by simp
  ultimately show ?case by (simp add: algebra_simps)
qed

lemma loadn_digits: "(\<And>i. i < n \<Longrightarrow> m (a + i) = of_nat (v div 256 ^ i)) \<Longrightarrow> loadn n m a = v mod 256 ^ n"
proof (induction n arbitrary: a v)
  case 0
  then show ?case by simp
next
  case (Suc n)
  have hd: "m a = of_nat v" using Suc.prems[of 0] by simp
  have "loadn n m (Suc a) = (v div 256) mod 256 ^ n"
  proof (rule Suc.IH)
    fix i assume "i < n"
    then show "m (Suc a + i) = of_nat (v div 256 div 256 ^ i)"
      using Suc.prems[of "Suc i"] by (simp add: div_mult2_eq)
  qed
  with hd show ?case
    by (simp add: unat_of_nat mod_mult2_eq)
qed

lemma loadn_storen_same [byte_simps]: "loadn n (storen n m a v) a = v mod 256 ^ n"
  by (rule loadn_digits) (simp add: storen_def)

lemma loadn_storen_disjoint [byte_simps]:
  "b + k \<le> a \<or> a + n \<le> b \<Longrightarrow> loadn k (storen n m a v) b = loadn k m b"
  by (rule loadn_cong) (auto simp: storen_def)

lemma storen_other [byte_simps]: "x < a \<or> a + n \<le> x \<Longrightarrow> storen n m a v x = m x"
  by (auto simp: storen_def)

lemma load64_store64 [simp]: "load64 (store64 m a w) a = w"
  by (simp add: load64_def store64_def loadn_storen_same unsigned_less[of w, simplified] mod_less)

lemma load32_store32 [simp]: "load32 (store32 m a w) a = w"
  by (simp add: load32_def store32_def loadn_storen_same unsigned_less[of w, simplified] mod_less)

lemma load16_store16 [simp]: "load16 (store16 m a w) a = w"
  by (simp add: load16_def store16_def loadn_storen_same unsigned_less[of w, simplified] mod_less)

lemma load64_store64_disjoint [byte_simps]:
  "b + 8 \<le> a \<or> a + 8 \<le> b \<Longrightarrow> load64 (store64 m a w) b = load64 m b"
  by (simp add: load64_def store64_def byte_simps)

lemma load32_store32_disjoint [byte_simps]:
  "b + 4 \<le> a \<or> a + 4 \<le> b \<Longrightarrow> load32 (store32 m a w) b = load32 m b"
  by (simp add: load32_def store32_def byte_simps)

lemma load64_cong: "(\<And>i. i < 8 \<Longrightarrow> m (a + i) = m' (a + i)) \<Longrightarrow> load64 m a = load64 m' a"
  by (simp add: load64_def loadn_cong[of 8 m a m' a])

lemma load32_cong: "(\<And>i. i < 4 \<Longrightarrow> m (a + i) = m' (a + i)) \<Longrightarrow> load32 m a = load32 m' a"
  by (simp add: load32_def loadn_cong[of 4 m a m' a])

lemma store64_other [byte_simps]: "x < a \<or> a + 8 \<le> x \<Longrightarrow> store64 m a w x = m x"
  by (simp add: store64_def byte_simps)

lemma store32_other [byte_simps]: "x < a \<or> a + 4 \<le> x \<Longrightarrow> store32 m a w x = m x"
  by (simp add: store32_def byte_simps)

lemma store16_other [byte_simps]: "x < a \<or> a + 2 \<le> x \<Longrightarrow> store16 m a w x = m x"
  by (simp add: store16_def byte_simps)

lemma loadn_zero: "(\<And>i. i < n \<Longrightarrow> m (a + i) = 0) \<Longrightarrow> loadn n m a = 0"
  using loadn_digits[of n m a 0] by simp

lemma load64_zero: "(\<And>i. i < 8 \<Longrightarrow> m (a + i) = 0) \<Longrightarrow> load64 m a = 0"
  by (simp add: load64_def loadn_zero)

lemma load32_zero: "(\<And>i. i < 4 \<Longrightarrow> m (a + i) = 0) \<Longrightarrow> load32 m a = 0"
  by (simp add: load32_def loadn_zero)

section \<open>Word bounds\<close>

lemma unat_less_64: "unat (a::u64) < 2 ^ 64"
  using unsigned_less[of a] by simp

lemma unat_less_32: "unat (a::u32) < 2 ^ 32"
  using unsigned_less[of a] by simp

end
