(* ===== verification/Riscv.thy ===== *)
theory Riscv
  imports Prelude
begin

text \<open>
  The page and page-table-entry macros of \<^verbatim>\<open>kernel/riscv.h\<close> and the address constants of
  \<^verbatim>\<open>kernel/memlayout.h\<close>, on 64-bit words, with the arithmetic facts (over \<open>unat\<close>) that the
  allocator and the page-table code need.
\<close>

unbundle bit_operations_syntax

section \<open>Constants and macros\<close>

definition PGSIZE :: nat where "PGSIZE = 4096"

definition PGROUNDUP :: "u64 \<Rightarrow> u64" where
  "PGROUNDUP sz = (sz + 4096 - 1) AND NOT 4095"

definition PGROUNDDOWN :: "u64 \<Rightarrow> u64" where
  "PGROUNDDOWN a = a AND NOT 4095"

definition PTE_V :: u64 where "PTE_V = 1"
definition PTE_R :: u64 where "PTE_R = 2"
definition PTE_W :: u64 where "PTE_W = 4"
definition PTE_X :: u64 where "PTE_X = 8"
definition PTE_U :: u64 where "PTE_U = 16"

definition PA2PTE :: "u64 \<Rightarrow> u64" where "PA2PTE pa = push_bit 10 (drop_bit 12 pa)"
definition PTE2PA :: "u64 \<Rightarrow> u64" where "PTE2PA pte = push_bit 12 (drop_bit 10 pte)"
definition PTE_FLAGS :: "u64 \<Rightarrow> u64" where "PTE_FLAGS pte = pte AND 0x3FF"
definition PX :: "nat \<Rightarrow> u64 \<Rightarrow> u64" where "PX level va = drop_bit (12 + 9 * level) va AND 0x1FF"
definition MAXVA :: u64 where "MAXVA = push_bit (9 + 9 + 9 + 12 - 1) 1"

definition UART0 :: u64 where "UART0 = 0x10000000"
definition VIRTIO0 :: u64 where "VIRTIO0 = 0x10001000"
definition CLINT :: u64 where "CLINT = 0x2000000"
definition PLIC :: u64 where "PLIC = 0x0c000000"
definition KERNBASE :: u64 where "KERNBASE = 0x80000000"
definition PHYSTOP :: u64 where "PHYSTOP = KERNBASE + 128*1024*1024"
definition TRAMPOLINE :: u64 where "TRAMPOLINE = MAXVA - 4096"
definition TRAPFRAME :: u64 where "TRAPFRAME = TRAMPOLINE - 4096"
definition KSTACK :: "nat \<Rightarrow> u64" where "KSTACK p = TRAMPOLINE - (of_nat p + 1) * 2 * 4096"

section \<open>Page arithmetic\<close>

definition page_aligned :: "u64 \<Rightarrow> bool" where
  "page_aligned a \<longleftrightarrow> unat a mod 4096 = 0"

lemma not_mask12: "a AND NOT 4095 = push_bit 12 (drop_bit 12 (a::u64))"
proof -
  have "(4095::u64) = mask 12" by (simp add: mask_eq_exp_minus_1)
  then show ?thesis
    by (auto simp: bit_eq_iff bit_simps)
qed

lemma unat_push_drop: 
  assumes "n \<le> LENGTH('a)"
  shows "unat (push_bit n (drop_bit n (a::'a::len word))) = unat a div 2 ^ n * 2 ^ n"
proof -
  have lt: "unat a div 2 ^ n * 2 ^ n < 2 ^ LENGTH('a)"
    using unsigned_less[of a] by (meson div_times_less_eq_dividend le_less_trans)
  have "unat (push_bit n (drop_bit n a)) = take_bit LENGTH('a) (push_bit n (drop_bit n (unat a)))"
    by (simp add: unsigned_push_bit_eq unsigned_drop_bit_eq take_bit_nat_eq_self)
  also have "\<dots> = take_bit LENGTH('a) (unat a div 2 ^ n * 2 ^ n)"
    by (simp add: push_bit_eq_mult drop_bit_eq_div)
  also have "\<dots> = unat a div 2 ^ n * 2 ^ n"
    using lt by (simp add: take_bit_eq_mod)
  finally show ?thesis .
qed

lemma PGROUNDDOWN_alt: "PGROUNDDOWN a = push_bit 12 (drop_bit 12 a)"
  unfolding PGROUNDDOWN_def by (rule not_mask12)

lemma PGROUNDUP_alt: "PGROUNDUP sz = PGROUNDDOWN (sz + 4095)"
  unfolding PGROUNDUP_def PGROUNDDOWN_def by (simp add: add.commute)

lemma unat_PGROUNDDOWN [page_simps]: "unat (PGROUNDDOWN a) = unat a div 4096 * 4096"
  using unat_push_drop[of 12 a] by (simp add: PGROUNDDOWN_alt)

lemma unat_PGROUNDUP [page_simps]:
  assumes "unat sz + 4095 < 2 ^ 64"
  shows "unat (PGROUNDUP sz) = (unat sz + 4095) div 4096 * 4096"
proof -
  have "unat (sz + 4095) = unat sz + 4095"
    using assms by (simp add: unat_word_ariths)
  then show ?thesis by (simp add: PGROUNDUP_alt unat_PGROUNDDOWN)
qed

lemma PGROUNDDOWN_aligned: "page_aligned a \<Longrightarrow> PGROUNDDOWN a = a"
proof -
  assume "page_aligned a"
  then have "unat a mod 4096 = 0" by (simp add: page_aligned_def)
  then have "unat (PGROUNDDOWN a) = unat a"
    unfolding unat_PGROUNDDOWN by (simp add: minus_mod_eq_div_mult[symmetric])
  then show ?thesis by (simp add: word_unat_eq_iff)
qed

lemma PGROUNDUP_aligned:
  assumes "page_aligned a" "unat a + 4095 < 2 ^ 64"
  shows "PGROUNDUP a = a"
proof -
  obtain k where k: "unat a = 4096 * k" using assms(1)
    by (auto simp: page_aligned_def mod_eq_0_iff_dvd dvd_def)
  have "(4096 * k + 4095) div 4096 = k" by simp
  with k have "(unat a + 4095) div 4096 * 4096 = unat a" by simp
  then have "unat (PGROUNDUP a) = unat a" using unat_PGROUNDUP[OF assms(2)] by simp
  then show ?thesis by (simp add: word_unat_eq_iff)
qed

lemma page_aligned_PGROUNDUP [simp]: "page_aligned (PGROUNDUP sz)"
  by (simp add: page_aligned_def PGROUNDUP_alt unat_PGROUNDDOWN)

lemma page_aligned_PGROUNDDOWN [simp]: "page_aligned (PGROUNDDOWN a)"
  by (simp add: page_aligned_def unat_PGROUNDDOWN)

lemma word_mod_4096 [page_simps]: "(a::u64) mod 4096 = 0 \<longleftrightarrow> page_aligned a"
  by (simp add: page_aligned_def word_unat_eq_iff unat_mod)

lemma page_aligned_disjoint:
  assumes "page_aligned x" "page_aligned y" "x \<noteq> y"
  shows "unat x + 4096 \<le> unat y \<or> unat y + 4096 \<le> unat x"
proof -
  obtain j k where "unat x = 4096 * j" "unat y = 4096 * k"
    using assms(1,2) by (auto simp: page_aligned_def mod_eq_0_iff_dvd dvd_def)
  moreover have "unat x \<noteq> unat y" using assms(3) by (simp add: word_unat_eq_iff)
  ultimately show ?thesis by (cases "j < k") (auto simp: not_less)
qed

lemma page_aligned_less:
  assumes "page_aligned x" "unat x < 2 ^ 64"
  shows "unat x + 4096 \<le> 2 ^ 64"
proof -
  obtain j where "unat x = 4096 * j" using assms(1) by (auto simp: page_aligned_def mod_eq_0_iff_dvd dvd_def)
  with assms(2) show ?thesis by simp
qed

lemma page_aligned_add:
  assumes "page_aligned x" "unat x + 4096 < 2 ^ 64"
  shows "page_aligned (x + 4096)" "unat (x + 4096) = unat x + 4096"
proof -
  show u: "unat (x + 4096) = unat x + 4096" using assms(2) by (simp add: unat_word_ariths)
  show "page_aligned (x + 4096)" using assms(1) u by (simp add: page_aligned_def)
qed

section \<open>Page-table entries\<close>

lemma unat_PX [page_simps]: "unat (PX l va) = unat va div 2 ^ (12 + 9 * l) mod 512"
proof -
  have m: "(0x1FF::u64) = mask 9" by (simp add: mask_eq_exp_minus_1)
  have "PX l va = take_bit 9 (drop_bit (12 + 9 * l) va)"
    unfolding PX_def m by (simp add: take_bit_eq_mask)
  then have "unat (PX l va) = take_bit 9 (drop_bit (12 + 9 * l) (unat va))"
    using unat_less_64[of va]
    by (simp add: unsigned_take_bit_eq unsigned_drop_bit_eq take_bit_nat_eq_self)
  then show ?thesis by (simp add: take_bit_eq_mod drop_bit_eq_div)
qed

lemma PX_less [simp]: "unat (PX l va) < 512"
  by (simp add: unat_PX)

lemma bit_less_1024:
  assumes "unat (f::u64) < 1024" "10 \<le> n"
  shows "\<not> bit f n"
proof
  assume "bit f n"
  then have "bit (unat f) n" by (simp add: bit_simps)
  then have "2 ^ n \<le> unat f"
    by (metis bit_iff_odd div_less even_zero not_le)
  moreover have "(2::nat) ^ 10 \<le> 2 ^ n" using assms(2) by (rule power_increasing) simp
  ultimately show False using assms(1) by simp
qed

lemma PTE2PA_PA2PTE:
  assumes "page_aligned pa" "unat f < 1024"
  shows "PTE2PA (PA2PTE pa OR f) = pa"
proof -
  have "PTE2PA (PA2PTE pa OR f) = push_bit 12 (drop_bit 12 pa)"
    unfolding PTE2PA_def PA2PTE_def using bit_less_1024[OF assms(2)]
    by (auto simp: bit_eq_iff bit_simps)
  also have "\<dots> = PGROUNDDOWN pa" by (simp add: PGROUNDDOWN_alt)
  finally show ?thesis using PGROUNDDOWN_aligned[OF assms(1)] by simp
qed

lemma PTE_FLAGS_PA2PTE:
  assumes "unat f < 1024"
  shows "PTE_FLAGS (PA2PTE pa OR f) = f"
proof -
  have m: "(0x3FF::u64) = mask 10" by (simp add: mask_eq_exp_minus_1)
  show ?thesis unfolding PTE_FLAGS_def PA2PTE_def m
    using bit_less_1024[OF assms] by (auto simp: bit_eq_iff bit_simps not_less[symmetric])
qed

lemma PTE_flag_PA2PTE:
  assumes "unat b < 1024"
  shows "(PA2PTE pa OR f) AND b = f AND b"
  unfolding PA2PTE_def using bit_less_1024[OF assms] by (auto simp: bit_eq_iff bit_simps not_le)

lemma page_aligned_PTE2PA [simp]: "page_aligned (PTE2PA pte)"
proof -
  have "PTE2PA pte = push_bit 12 (drop_bit 12 (PTE2PA pte))"
    unfolding PTE2PA_def by (auto simp: bit_eq_iff bit_simps)
  then obtain k where "unat (PTE2PA pte) = k * 4096"
    using unat_push_drop[of 12 "PTE2PA pte"] by auto
  then show ?thesis by (simp add: page_aligned_def)
qed

lemma PTE_flags_small [simp]:
  "unat PTE_V < 1024" "unat PTE_R < 1024" "unat PTE_W < 1024" "unat PTE_X < 1024" "unat PTE_U < 1024"
  by (simp_all add: PTE_V_def PTE_R_def PTE_W_def PTE_X_def PTE_U_def)

lemma or_less_1024:
  assumes "unat (a::u64) < 1024" "unat (b::u64) < 1024"
  shows "unat (a OR b) < 1024"
proof -
  have "take_bit 10 (a OR b) = a OR b"
    using bit_less_1024[OF assms(1)] bit_less_1024[OF assms(2)]
    by (auto simp: bit_eq_iff bit_simps not_less[symmetric])
  then have "take_bit 10 (unat (a OR b)) = unat (a OR b)"
    by (metis unsigned_take_bit_eq)
  moreover have "take_bit 10 (unat (a OR b)) < 2 ^ 10" by (rule take_bit_nat_less_exp)
  ultimately show ?thesis by simp
qed

lemma MAXVA_val: "MAXVA = 274877906944"
  by (simp add: MAXVA_def push_bit_eq_mult)

lemma layout_vals [page_simps]:
  "unat PHYSTOP = 2281701376" "unat KERNBASE = 2147483648" "unat MAXVA = 274877906944"
  "unat TRAMPOLINE = 274877902848" "unat TRAPFRAME = 274877898752"
  by (simp_all add: PHYSTOP_def KERNBASE_def MAXVA_val TRAMPOLINE_def TRAPFRAME_def)

end
