(* ===== verification/Cstring.thy ===== *)
theory Cstring
  imports Prelude
begin

text \<open>
  The memory and string routines of \<^verbatim>\<open>kernel/string.c\<close>. The routines that write
  (\<open>memset\<close>, \<open>memmove\<close>) work on one byte memory, so that overlapping arguments alias as they
  do in C; the read-only ones take each \<^verbatim>\<open>char*\<close> as the function from offsets to bytes that
  it denotes. Each loop of the source is one recursive function, in the source's order, and is
  shown equal to its closed form.
\<close>

section \<open>memset, memmove, memcpy\<close>

primrec memset :: "bytes \<Rightarrow> nat \<Rightarrow> int \<Rightarrow> nat \<Rightarrow> bytes" where
  "memset m dst c 0 = m"
| "memset m dst c (Suc i) = (memset m dst c i)(dst + i := of_int c)"

primrec copy_up :: "bytes \<Rightarrow> nat \<Rightarrow> nat \<Rightarrow> nat \<Rightarrow> bytes" where
  "copy_up m d s 0 = m"
| "copy_up m d s (Suc n) = copy_up (m(d := m s)) (Suc d) (Suc s) n"

primrec copy_down :: "bytes \<Rightarrow> nat \<Rightarrow> nat \<Rightarrow> nat \<Rightarrow> bytes" where
  "copy_down m d s 0 = m"
| "copy_down m d s (Suc n) = copy_down (m(d + n := m (s + n))) d s n"

definition memmove :: "bytes \<Rightarrow> nat \<Rightarrow> nat \<Rightarrow> nat \<Rightarrow> bytes" where
  "memmove m dst src n =
     (if src < dst \<and> src + n > dst then copy_down m dst src n else copy_up m dst src n)"

definition memcpy :: "bytes \<Rightarrow> nat \<Rightarrow> nat \<Rightarrow> nat \<Rightarrow> bytes" where
  "memcpy m dst src n = memmove m dst src n"

lemma memset_eq:
  "memset m dst c n = (\<lambda>a. if dst \<le> a \<and> a < dst + n then of_int c else m a)"
  by (induction n) (auto simp: fun_eq_iff)

lemma copy_up_eq:
  assumes "d \<le> s \<or> s + n \<le> d"
  shows "copy_up m d s n = (\<lambda>a. if d \<le> a \<and> a < d + n then m (s + (a - d)) else m a)"
  using assms
proof (induction n arbitrary: m d s)
  case 0
  then show ?case by (auto simp: fun_eq_iff)
next
  case (Suc n)
  have "copy_up (m(d := m s)) (Suc d) (Suc s) n =
      (\<lambda>a. if Suc d \<le> a \<and> a < Suc d + n then (m(d := m s)) (Suc s + (a - Suc d)) else (m(d := m s)) a)"
    using Suc.prems by (intro Suc.IH) auto
  then show ?case using Suc.prems by (auto simp: fun_eq_iff not_le less_Suc_eq_le Suc_diff_Suc)
qed

lemma copy_down_eq:
  assumes "s < d"
  shows "copy_down m d s n = (\<lambda>a. if d \<le> a \<and> a < d + n then m (s + (a - d)) else m a)"
proof (induction n arbitrary: m)
  case 0
  then show ?case by (auto simp: fun_eq_iff)
next
  case (Suc n)
  show ?case using assms by (auto simp: Suc fun_eq_iff)
qed

lemma memmove_eq:
  "memmove m dst src n = (\<lambda>a. if dst \<le> a \<and> a < dst + n then m (src + (a - dst)) else m a)"
proof (cases "src < dst \<and> src + n > dst")
  case True
  then show ?thesis by (simp add: memmove_def copy_down_eq)
next
  case False
  then have "dst \<le> src \<or> src + n \<le> dst" by auto
  then show ?thesis using False by (simp only: memmove_def copy_up_eq if_False)
qed

text \<open>
  \<open>blit d i s j n\<close> is the destination \<open>d\<close> after \<open>n\<close> bytes of \<open>s\<close> from \<open>j\<close> on have been moved to
  offset \<open>i\<close>: \<open>memmove\<close> between two objects that do not overlap, such as two disk buffers.
\<close>

definition blit :: "bytes \<Rightarrow> nat \<Rightarrow> bytes \<Rightarrow> nat \<Rightarrow> nat \<Rightarrow> bytes" where
  "blit d i s j n = (\<lambda>a. if i \<le> a \<and> a < i + n then s (j + (a - i)) else d a)"

lemma memmove_blit: "memmove m dst src n = blit m dst m src n"
  by (simp add: memmove_eq blit_def)

lemma blit_in [byte_simps]: "i \<le> a \<Longrightarrow> a < i + n \<Longrightarrow> blit d i s j n a = s (j + (a - i))"
  by (simp add: blit_def)

lemma blit_out [byte_simps]: "a < i \<or> i + n \<le> a \<Longrightarrow> blit d i s j n a = d a"
  by (auto simp: blit_def)

section \<open>memcmp, strncmp, strlen\<close>

primrec memcmp :: "bytes \<Rightarrow> bytes \<Rightarrow> nat \<Rightarrow> int" where
  "memcmp s1 s2 0 = 0"
| "memcmp s1 s2 (Suc n) =
     (if s1 0 \<noteq> s2 0 then uint (s1 0) - uint (s2 0)
      else memcmp (\<lambda>i. s1 (Suc i)) (\<lambda>i. s2 (Suc i)) n)"

primrec strncmp :: "bytes \<Rightarrow> bytes \<Rightarrow> nat \<Rightarrow> int" where
  "strncmp p q 0 = 0"
| "strncmp p q (Suc n) =
     (if p 0 \<noteq> 0 \<and> p 0 = q 0 then strncmp (\<lambda>i. p (Suc i)) (\<lambda>i. q (Suc i)) n
      else uint (p 0) - uint (q 0))"

text \<open>\<open>strlen\<close> runs for ever on bytes with no NUL: not returning is \<open>None\<close>.\<close>

partial_function (option) strlen_from :: "bytes \<Rightarrow> nat \<Rightarrow> nat option" where
  "strlen_from s n = (if s n = 0 then Some n else strlen_from s (Suc n))"

definition strlen :: "bytes \<Rightarrow> nat option" where
  "strlen s = strlen_from s 0"

text \<open>What a C string compares: \<open>p\<close> and \<open>q\<close> agree up to a NUL or the bound.\<close>

definition strn_eq :: "bytes \<Rightarrow> bytes \<Rightarrow> nat \<Rightarrow> bool" where
  "strn_eq p q n \<longleftrightarrow> (\<forall>i<n. (\<forall>j<i. p j \<noteq> 0) \<longrightarrow> p i = q i)"

lemma All_less_Suc_shift: "(\<forall>i<Suc n. P i) \<longleftrightarrow> P 0 \<and> (\<forall>i<n. P (Suc i))"
  by (auto simp: less_Suc_eq_0_disj)

lemma memcmp_eq_0: "memcmp s1 s2 n = 0 \<longleftrightarrow> (\<forall>i<n. s1 i = s2 i)"
  by (induction n arbitrary: s1 s2) (auto simp: All_less_Suc_shift word_uint_eq_iff)

lemma strncmp_eq_0: "strncmp p q n = 0 \<longleftrightarrow> strn_eq p q n"
proof (induction n arbitrary: p q)
  case 0
  then show ?case by (simp add: strn_eq_def)
next
  case (Suc n)
  then show ?case by (auto simp: strn_eq_def All_less_Suc_shift word_uint_eq_iff)
qed

lemma strlen_from_eq:
  assumes "s (n + k) = 0" "\<And>i. i < k \<Longrightarrow> s (n + i) \<noteq> 0"
  shows "strlen_from s n = Some (n + k)"
  using assms
proof (induction k arbitrary: n)
  case 0
  then show ?case by (simp add: strlen_from.simps)
next
  case (Suc k)
  have "s n \<noteq> 0" using Suc.prems(2)[of 0] by simp
  moreover have "strlen_from s (Suc n) = Some (Suc n + k)"
    using Suc.prems(1) Suc.prems(2)[of "Suc i" for i] by (intro Suc.IH) auto
  ultimately show ?case by (simp add: strlen_from.simps[of s n])
qed

lemma strlen_eq: "s k = 0 \<Longrightarrow> (\<And>i. i < k \<Longrightarrow> s i \<noteq> 0) \<Longrightarrow> strlen s = Some k"
  using strlen_from_eq[of s 0 k] by (simp add: strlen_def)

lemma strlen_total: "s k = 0 \<Longrightarrow> \<exists>n\<le>k. strlen s = Some n \<and> s n = 0 \<and> (\<forall>i<n. s i \<noteq> 0)"
proof -
  assume "s k = 0"
  define n where "n = (LEAST i. s i = 0)"
  have "s n = 0" "n \<le> k" "\<And>i. i < n \<Longrightarrow> s i \<noteq> 0"
    using \<open>s k = 0\<close> not_less_Least unfolding n_def by (auto intro: LeastI Least_le)
  then show ?thesis using strlen_eq[of s n] by auto
qed

section \<open>strncpy, safestrcpy\<close>

text \<open>
  \<^verbatim>\<open>while(n-- > 0 && (*s++ = *t++) != 0);\<close> copies at offset \<open>i\<close> with \<open>n\<close> bytes left and
  returns the buffer, the offset and the count at exit; the second loop pads with NULs.
\<close>

fun strncpy_copy :: "bytes \<Rightarrow> bytes \<Rightarrow> nat \<Rightarrow> nat \<Rightarrow> bytes \<times> nat \<times> nat" where
  "strncpy_copy s t i 0 = (s, i, 0)"
| "strncpy_copy s t i (Suc n) =
     (if t i \<noteq> 0 then strncpy_copy (s(i := t i)) t (Suc i) n else (s(i := t i), Suc i, n))"

primrec strncpy_pad :: "bytes \<Rightarrow> nat \<Rightarrow> nat \<Rightarrow> bytes" where
  "strncpy_pad s i 0 = s"
| "strncpy_pad s i (Suc n) = strncpy_pad (s(i := 0)) (Suc i) n"

definition strncpy :: "bytes \<Rightarrow> bytes \<Rightarrow> int \<Rightarrow> bytes" where
  "strncpy s t n = (let (s', i, n') = strncpy_copy s t 0 (nat n) in strncpy_pad s' i n')"

fun safestrcpy_copy :: "bytes \<Rightarrow> bytes \<Rightarrow> nat \<Rightarrow> nat \<Rightarrow> bytes \<times> nat" where
  "safestrcpy_copy s t i 0 = (s, i)"
| "safestrcpy_copy s t i (Suc n) =
     (if t i \<noteq> 0 then safestrcpy_copy (s(i := t i)) t (Suc i) n else (s(i := t i), Suc i))"

definition safestrcpy :: "bytes \<Rightarrow> bytes \<Rightarrow> int \<Rightarrow> bytes" where
  "safestrcpy s t n =
     (if n \<le> 0 then s
      else let (s', i) = safestrcpy_copy s t 0 (nat (n - 1)) in s'(i := 0))"

text \<open>The string \<open>t\<close> cut at its first NUL, as \<open>strncpy\<close> leaves it in a NUL-padded field.\<close>

definition cut_nul :: "bytes \<Rightarrow> bytes" where
  "cut_nul t = (\<lambda>i. if \<forall>j\<le>i. t j \<noteq> 0 then t i else 0)"

lemma strncpy_pad_eq: "strncpy_pad s i n = (\<lambda>a. if i \<le> a \<and> a < i + n then 0 else s a)"
  by (induction n arbitrary: s i) (auto simp: fun_eq_iff)

lemma strncpy_copy_pad:
  assumes "\<forall>j<i. t j \<noteq> 0"
  shows "(let (s', i', n') = strncpy_copy s t i n in strncpy_pad s' i' n') =
      (\<lambda>a. if i \<le> a \<and> a < i + n then cut_nul t a else s a)"
  using assms
proof (induction s t i n rule: strncpy_copy.induct)
  case (1 s t i)
  then show ?case by (auto simp: fun_eq_iff)
next
  case (2 s t i n)
  show ?case
  proof (cases "t i \<noteq> 0")
    case True
    then have "\<forall>j<Suc i. t j \<noteq> 0" using 2(2) by (auto simp: less_Suc_eq)
    note IH = 2(1)[OF True this]
    have cut: "cut_nul t i = t i"
      using True 2(2) by (auto simp: cut_nul_def le_less)
    have "(let (s', i', n') = strncpy_copy s t i (Suc n) in strncpy_pad s' i' n') =
        (let (s', i', n') = strncpy_copy (s(i := t i)) t (Suc i) n in strncpy_pad s' i' n')"
      using True by simp
    also have "\<dots> = (\<lambda>a. if i \<le> a \<and> a < i + Suc n then cut_nul t a else s a)"
      unfolding IH using cut by (intro ext) (auto simp: le_less Suc_le_eq)
    finally show ?thesis .
  next
    case False
    then have "\<And>a. i \<le> a \<Longrightarrow> cut_nul t a = 0" by (auto simp: cut_nul_def)
    with False show ?thesis by (auto simp: strncpy_pad_eq fun_eq_iff)
  qed
qed

lemma strncpy_eq: "strncpy s t n = (\<lambda>a. if int a < n then cut_nul t a else s a)"
  using strncpy_copy_pad[of 0 t s "nat n"] by (auto simp: strncpy_def fun_eq_iff)

lemma safestrcpy_copy_spec:
  assumes "safestrcpy_copy s t i n = (s', i')"
  shows "i \<le> i' \<and> i' \<le> i + n \<and> (\<forall>a. (i \<le> a \<and> a < i' \<longrightarrow> s' a = t a) \<and> (a < i \<or> i' \<le> a \<longrightarrow> s' a = s a))
    \<and> (\<forall>a. i \<le> a \<and> Suc a < i' \<longrightarrow> t a \<noteq> 0) \<and> (i' < i + n \<longrightarrow> i < i' \<and> t (i' - 1) = 0)"
  using assms
proof (induction s t i n rule: safestrcpy_copy.induct)
  case (1 s t i)
  then show ?case by auto
next
  case (2 s t i n)
  show ?case
  proof (cases "t i \<noteq> 0")
    case True
    note IH = 2(1)[OF True]
    have eq: "safestrcpy_copy (s(i := t i)) t (Suc i) n = (s', i')" using 2(2) True by simp
    note h = IH[OF eq]
    then have "Suc i \<le> i'" "i' \<le> Suc i + n" by auto
    moreover have "\<forall>a. i \<le> a \<and> a < i' \<longrightarrow> s' a = t a"
    proof (intro allI impI)
      fix a assume "i \<le> a \<and> a < i'"
      then show "s' a = t a" using h by (cases "a = i") auto
    qed
    moreover have "\<forall>a. i \<le> a \<and> Suc a < i' \<longrightarrow> t a \<noteq> 0"
    proof (intro allI impI)
      fix a assume "i \<le> a \<and> Suc a < i'"
      then show "t a \<noteq> 0" using h True by (cases "a = i") auto
    qed
    ultimately show ?thesis using h by auto
  next
    case False
    then have "s' = s(i := t i)" "i' = Suc i" using 2(2) by auto
    with False show ?thesis by (auto simp: less_Suc_eq_le)
  qed
qed

lemma safestrcpy_nul:
  assumes "0 < n"
  shows "\<exists>k<nat n. safestrcpy s t n k = 0 \<and> (\<forall>i<k. safestrcpy s t n i = t i)"
proof -
  obtain s' i where eq: "safestrcpy_copy s t 0 (nat (n - 1)) = (s', i)" by fastforce
  note h = safestrcpy_copy_spec[OF eq]
  have "i < nat n" using h assms by auto
  moreover have "safestrcpy s t n = s'(i := 0)" using assms eq by (simp add: safestrcpy_def)
  ultimately show ?thesis using h by auto
qed

lemma safestrcpy_frame: "nat n \<le> a \<Longrightarrow> safestrcpy s t n a = s a"
proof (cases "n \<le> 0")
  case True
  then show ?thesis by (simp add: safestrcpy_def)
next
  case False
  assume "nat n \<le> a"
  obtain s' i where eq: "safestrcpy_copy s t 0 (nat (n - 1)) = (s', i)" by fastforce
  note h = safestrcpy_copy_spec[OF eq]
  have "i < nat n" using h False by auto
  then show ?thesis using h eq False \<open>nat n \<le> a\<close> by (auto simp: safestrcpy_def)
qed

end
