(* ===== verification/Kernel_State.thy ===== *)
theory Kernel_State
  imports Riscv Cstring
begin

text \<open>
  The kernel's global state: the structs of \<^verbatim>\<open>proc.h\<close>, \<^verbatim>\<open>buf.h\<close>, \<^verbatim>\<open>file.h\<close>, \<^verbatim>\<open>fs.h\<close>,
  \<^verbatim>\<open>sleeplock.h\<close>, \<^verbatim>\<open>log.c\<close>, \<^verbatim>\<open>pipe.c\<close>, \<^verbatim>\<open>console.c\<close> and \<^verbatim>\<open>uart.c\<close> as records, and one
  record \<open>kernel\<close> with the C globals. A pointer into a static table (\<^verbatim>\<open>proc[]\<close>, \<^verbatim>\<open>bcache.buf[]\<close>,
  \<^verbatim>\<open>icache.inode[]\<close>, \<^verbatim>\<open>ftable.file[]\<close>) is the index of the entry; a pointer into memory handed
  out by \<open>kalloc\<close> is its address. \<open>mem\<close> is byte memory by kernel virtual address, which is the
  physical address for RAM.

  The state is the view of one kernel thread: \<open>held\<close> are the spinlocks this thread holds and
  \<open>curproc\<close> is \<^verbatim>\<open>mycpu()->proc\<close>. A call that has to wait for another thread is the error value
  \<open>Sleep\<close>, a panic is \<open>Panic\<close>, a null or out-of-range access is \<open>Fault\<close>.
\<close>

section \<open>Limits (param.h, fs.h, pipe.c, console.c, uart.c)\<close>

named_theorems param_defs

definition NPROC :: nat where [param_defs]: "NPROC = 64"
definition NOFILE :: nat where [param_defs]: "NOFILE = 16"
definition NFILE :: nat where [param_defs]: "NFILE = 100"
definition NINODE :: nat where [param_defs]: "NINODE = 50"
definition NDEV :: nat where [param_defs]: "NDEV = 10"
definition ROOTDEV :: u32 where [param_defs]: "ROOTDEV = 1"
definition MAXARG :: nat where [param_defs]: "MAXARG = 32"
definition MAXOPBLOCKS :: nat where [param_defs]: "MAXOPBLOCKS = 10"
definition LOGSIZE :: nat where [param_defs]: "LOGSIZE = MAXOPBLOCKS * 3"
definition NBUF :: nat where [param_defs]: "NBUF = MAXOPBLOCKS * 3"
definition FSSIZE :: nat where [param_defs]: "FSSIZE = 1000"
definition MAXPATH :: nat where [param_defs]: "MAXPATH = 128"
definition ROOTINO :: u32 where [param_defs]: "ROOTINO = 1"
definition BSIZE :: nat where [param_defs]: "BSIZE = 1024"
definition FSMAGIC :: u32 where [param_defs]: "FSMAGIC = 0x10203040"
definition NDIRECT :: nat where [param_defs]: "NDIRECT = 12"
definition NINDIRECT :: nat where [param_defs]: "NINDIRECT = BSIZE div 4"
definition MAXFILE :: nat where [param_defs]: "MAXFILE = NDIRECT + NINDIRECT"
definition IPB :: nat where [param_defs]: "IPB = BSIZE div 64"
definition BPB :: nat where [param_defs]: "BPB = BSIZE * 8"
definition DIRSIZ :: nat where [param_defs]: "DIRSIZ = 14"
definition T_DIR :: u16 where [param_defs]: "T_DIR = 1"
definition T_FILE :: u16 where [param_defs]: "T_FILE = 2"
definition T_DEVICE :: u16 where [param_defs]: "T_DEVICE = 3"
definition CONSOLE :: nat where [param_defs]: "CONSOLE = 1"
definition PIPESIZE :: nat where [param_defs]: "PIPESIZE = 512"
definition INPUT_BUF :: nat where [param_defs]: "INPUT_BUF = 128"
definition UART_TX_BUF_SIZE :: nat where [param_defs]: "UART_TX_BUF_SIZE = 32"

section \<open>Locks, channels, errors\<close>

text \<open>The sleep-locks (\<^verbatim>\<open>b->lock\<close>, \<^verbatim>\<open>ip->lock\<close>) and the spinlocks of the kernel.\<close>

datatype slid = SlBuf nat | SlInode nat

datatype lockid =
    KmemLk | PidLk | ProcLk nat | BcacheLk | LogLk | IcacheLk | FtableLk | TicksLk
  | ConsLk | UartLk | PrLk | VdiskLk | PipeLk u64 | SleepLk slid

text \<open>Sleep channels: the address passed to \<^verbatim>\<open>sleep\<close> and \<^verbatim>\<open>wakeup\<close>.\<close>

datatype chan =
    ChProc nat | ChSleep slid | ChLog | ChTicks | ChPipeRead u64 | ChPipeWrite u64
  | ChCons | ChUart | ChDiskFree | ChBuf nat

datatype exn = Panic string | Sleep chan | Spin | Fault

section \<open>Structs\<close>

datatype procstate = UNUSED | SLEEPING | RUNNABLE | RUNNING | ZOMBIE

record kcontext =
  ctx_ra :: u64
  ctx_sp :: u64
  ctx_s :: "u64 list"

record proc =
  p_state :: procstate
  p_parent :: "nat option"
  p_chan :: "chan option"
  p_killed :: bool
  p_xstate :: int
  p_pid :: int
  p_kstack :: u64
  p_sz :: u64
  p_pagetable :: u64
  p_trapframe :: u64
  p_context :: kcontext
  p_ofile :: "nat option list"
  p_cwd :: "nat option"
  p_name :: bytes

record sleeplock =
  sl_locked :: bool
  sl_pid :: int

record buf =
  b_valid :: bool
  b_disk :: bool
  b_dev :: u32
  b_blockno :: u32
  b_lock :: sleeplock
  b_refcnt :: u32
  b_prev :: nat
  b_next :: nat
  b_data :: bytes

record logst =
  l_start :: int
  l_size :: int
  l_outstanding :: int
  l_committing :: bool
  l_dev :: u32
  l_n :: int
  l_block :: "u32 list"

record superblock =
  sb_magic :: u32
  sb_size :: u32
  sb_nblocks :: u32
  sb_ninodes :: u32
  sb_nlog :: u32
  sb_logstart :: u32
  sb_inodestart :: u32
  sb_bmapstart :: u32

record inode =
  i_dev :: u32
  i_inum :: u32
  i_ref :: int
  i_lock :: sleeplock
  i_valid :: bool
  i_type :: u16
  i_major :: u16
  i_minor :: u16
  i_nlink :: u16
  i_size :: u32
  i_addrs :: "u32 list"

datatype ftype = FD_NONE | FD_PIPE | FD_INODE | FD_DEVICE

record kfile =
  f_type :: ftype
  f_ref :: int
  f_readable :: bool
  f_writable :: bool
  f_pipe :: u64
  f_ip :: nat
  f_off :: u32
  f_major :: u16

record pipe =
  pi_data :: bytes
  pi_nread :: u32
  pi_nwrite :: u32
  pi_readopen :: bool
  pi_writeopen :: bool

record cons =
  c_buf :: bytes
  c_r :: u32
  c_w :: u32
  c_e :: u32

text \<open>
  The UART driver's transmit ring, and the 16550 device behind it: the bytes written to THR,
  how many more it accepts before LSR reports it busy, and the received bytes waiting in RHR.
\<close>

record uart =
  u_tx_buf :: bytes
  u_tx_w :: nat
  u_tx_r :: nat
  u_room :: nat
  u_out :: "u8 list"
  u_rx :: "u8 list"

text \<open>
  The addresses of code the kernel stores in registers and trapframes, and the supervisor
  control registers of the hart the thread runs on.
\<close>

record ksyms =
  sym_forkret :: u64
  sym_usertrap :: u64
  sym_kernelvec :: u64
  sym_uservec :: u64
  sym_userret :: u64

record csrs =
  sstatus :: u64
  sepc :: u64
  scause :: u64
  stval :: u64
  stvec :: u64
  satp :: u64
  sip :: u64
  tp :: u64

text \<open>
  \<open>k_end\<close>, \<open>k_etext\<close> and \<open>k_trampoline\<close> are the linker symbols \<^verbatim>\<open>end\<close>, \<^verbatim>\<open>etext\<close> and
  \<^verbatim>\<open>trampoline\<close> of \<^verbatim>\<open>kernel.ld\<close>; \<open>wtrace\<close> records the disk writes in the order the device
  performed them; \<open>pr_locking\<close> is \<^verbatim>\<open>pr.locking\<close> of \<^verbatim>\<open>printf.c\<close> and \<open>fork_first\<close> the static
  \<^verbatim>\<open>first\<close> of \<^verbatim>\<open>forkret\<close>.
\<close>

record kernel =
  k_end :: u64
  k_etext :: u64
  k_trampoline :: u64
  k_syms :: ksyms
  csr :: csrs
  mem :: bytes
  freelist :: u64
  held :: "lockid set"
  curproc :: "nat option"
  procs :: "proc list"
  initproc :: "nat option"
  nextpid :: int
  ticks :: u32
  disk :: "u32 \<Rightarrow> bytes"
  wtrace :: "(u32 \<times> bytes) list"
  bufs :: "buf list"
  klog :: logst
  sblk :: superblock
  icache :: "inode list"
  ftable :: "kfile list"
  pipes :: "u64 \<Rightarrow> pipe"
  kcons :: cons
  kuart :: uart
  kernel_pagetable :: u64
  panicked :: bool
  pr_locking :: bool
  fork_first :: bool

type_synonym 'a kres = "exn + 'a \<times> kernel"
type_synonym kstep = "exn + kernel"

section \<open>Zero-initialised globals\<close>

definition context0 :: kcontext where
  "context0 = \<lparr>ctx_ra = 0, ctx_sp = 0, ctx_s = replicate 12 0\<rparr>"

definition proc0 :: proc where
  "proc0 = \<lparr>p_state = UNUSED, p_parent = None, p_chan = None, p_killed = False, p_xstate = 0,
     p_pid = 0, p_kstack = 0, p_sz = 0, p_pagetable = 0, p_trapframe = 0, p_context = context0,
     p_ofile = replicate NOFILE None, p_cwd = None, p_name = (\<lambda>_. 0)\<rparr>"

definition sleeplock0 :: sleeplock where
  "sleeplock0 = \<lparr>sl_locked = False, sl_pid = 0\<rparr>"

definition buf0 :: buf where
  "buf0 = \<lparr>b_valid = False, b_disk = False, b_dev = 0, b_blockno = 0, b_lock = sleeplock0,
     b_refcnt = 0, b_prev = 0, b_next = 0, b_data = (\<lambda>_. 0)\<rparr>"

definition log0 :: logst where
  "log0 = \<lparr>l_start = 0, l_size = 0, l_outstanding = 0, l_committing = False, l_dev = 0,
     l_n = 0, l_block = replicate LOGSIZE 0\<rparr>"

definition superblock0 :: superblock where
  "superblock0 = \<lparr>sb_magic = 0, sb_size = 0, sb_nblocks = 0, sb_ninodes = 0, sb_nlog = 0,
     sb_logstart = 0, sb_inodestart = 0, sb_bmapstart = 0\<rparr>"

definition inode0 :: inode where
  "inode0 = \<lparr>i_dev = 0, i_inum = 0, i_ref = 0, i_lock = sleeplock0, i_valid = False, i_type = 0,
     i_major = 0, i_minor = 0, i_nlink = 0, i_size = 0, i_addrs = replicate (NDIRECT + 1) 0\<rparr>"

definition file0 :: kfile where
  "file0 = \<lparr>f_type = FD_NONE, f_ref = 0, f_readable = False, f_writable = False, f_pipe = 0,
     f_ip = 0, f_off = 0, f_major = 0\<rparr>"

definition pipe0 :: pipe where
  "pipe0 = \<lparr>pi_data = (\<lambda>_. 0), pi_nread = 0, pi_nwrite = 0, pi_readopen = False, pi_writeopen = False\<rparr>"

definition cons0 :: cons where
  "cons0 = \<lparr>c_buf = (\<lambda>_. 0), c_r = 0, c_w = 0, c_e = 0\<rparr>"

definition uart0 :: uart where
  "uart0 = \<lparr>u_tx_buf = (\<lambda>_. 0), u_tx_w = 0, u_tx_r = 0, u_room = 1, u_out = [], u_rx = []\<rparr>"

text \<open>
  The state at boot, over the linker symbols, the code addresses and the initial contents \<open>m\<close> of memory and \<open>d\<close> of
  the disk.
\<close>

definition csrs0 :: csrs where
  "csrs0 = \<lparr>sstatus = 0, sepc = 0, scause = 0, stval = 0, stvec = 0, satp = 0, sip = 0, tp = 0\<rparr>"

definition kernel0 :: "u64 \<Rightarrow> u64 \<Rightarrow> u64 \<Rightarrow> ksyms \<Rightarrow> bytes \<Rightarrow> (u32 \<Rightarrow> bytes) \<Rightarrow> kernel" where
  "kernel0 en et tr sy m d = \<lparr>k_end = en, k_etext = et, k_trampoline = tr, k_syms = sy, csr = csrs0,
     mem = m, freelist = 0, held = {}, curproc = None, procs = replicate NPROC proc0,
     initproc = None, nextpid = 1, ticks = 0, disk = d, wtrace = [],
     bufs = replicate (NBUF + 1) buf0, klog = log0, sblk = superblock0,
     icache = replicate NINODE inode0, ftable = replicate NFILE file0, pipes = (\<lambda>_. pipe0),
     kcons = cons0, kuart = uart0, kernel_pagetable = 0, panicked = False, pr_locking = False,
     fork_first = True\<rparr>"

section \<open>Taking and releasing spinlocks\<close>

text \<open>
  \<^verbatim>\<open>acquire\<close> and \<^verbatim>\<open>release\<close> as the thread that calls them sees them: a panic on a lock it
  already holds or does not hold. The theory \<^verbatim>\<open>Spinlock\<close> models the routines of
  \<^verbatim>\<open>spinlock.c\<close> in full and shows that they implement this view.
\<close>

definition acquire :: "lockid \<Rightarrow> kernel \<Rightarrow> kstep" where
  "acquire lk s = (if lk \<in> held s then Inl (Panic ''acquire'')
     else Inr (s\<lparr>held := insert lk (held s)\<rparr>))"

definition release :: "lockid \<Rightarrow> kernel \<Rightarrow> kstep" where
  "release lk s = (if lk \<in> held s then Inr (s\<lparr>held := held s - {lk}\<rparr>)
     else Inl (Panic ''release''))"

lemma acquire_free [simp]: "lk \<notin> held s \<Longrightarrow> acquire lk s = Inr (s\<lparr>held := insert lk (held s)\<rparr>)"
  by (simp add: acquire_def)

lemma release_held [simp]: "lk \<in> held s \<Longrightarrow> release lk s = Inr (s\<lparr>held := held s - {lk}\<rparr>)"
  by (simp add: release_def)

lemma acquire_eq_Inr [res_simps]:
  "acquire lk s = Inr t \<longleftrightarrow> lk \<notin> held s \<and> t = s\<lparr>held := insert lk (held s)\<rparr>"
  by (auto simp: acquire_def)

lemma release_eq_Inr [res_simps]:
  "release lk s = Inr t \<longleftrightarrow> lk \<in> held s \<and> t = s\<lparr>held := held s - {lk}\<rparr>"
  by (auto simp: release_def)

text \<open>Updating one entry of a table.\<close>

definition upd_proc :: "nat \<Rightarrow> (proc \<Rightarrow> proc) \<Rightarrow> kernel \<Rightarrow> kernel" where
  "upd_proc i f s = s\<lparr>procs := (procs s)[i := f (procs s ! i)]\<rparr>"

definition upd_buf :: "nat \<Rightarrow> (buf \<Rightarrow> buf) \<Rightarrow> kernel \<Rightarrow> kernel" where
  "upd_buf i f s = s\<lparr>bufs := (bufs s)[i := f (bufs s ! i)]\<rparr>"

definition upd_inode :: "nat \<Rightarrow> (inode \<Rightarrow> inode) \<Rightarrow> kernel \<Rightarrow> kernel" where
  "upd_inode i f s = s\<lparr>icache := (icache s)[i := f (icache s ! i)]\<rparr>"

definition upd_file :: "nat \<Rightarrow> (kfile \<Rightarrow> kfile) \<Rightarrow> kernel \<Rightarrow> kernel" where
  "upd_file i f s = s\<lparr>ftable := (ftable s)[i := f (ftable s ! i)]\<rparr>"

end
