(* ===== verification/Sleeplock.thy ===== *)
theory Sleeplock
  imports Kernel_State
begin

text \<open>
  \<^verbatim>\<open>wakeup\<close> of \<^verbatim>\<open>kernel/proc.c\<close> and the sleep-locks of \<^verbatim>\<open>kernel/sleeplock.c\<close> that buffers
  and inodes carry. The inner spinlock of a sleep-lock is \<open>SleepLk\<close>; where \<^verbatim>\<open>acquiresleep\<close> has
  to wait, the result is \<open>Sleep\<close> on the lock's channel.
\<close>

section \<open>The current process and wakeup\<close>

definition myproc :: "kernel \<Rightarrow> exn + nat" where
  "myproc s = (case curproc s of None \<Rightarrow> Inl Fault | Some p \<Rightarrow> Inr p)"

text \<open>One iteration of the loop of \<^verbatim>\<open>wakeup\<close>, then the loop.\<close>

definition wakeup_at :: "chan \<Rightarrow> nat \<Rightarrow> kernel \<Rightarrow> kstep" where
  "wakeup_at ch i s =
     bindE (acquire (ProcLk i) s) (\<lambda>s.
       let s = (if p_state (procs s ! i) = SLEEPING \<and> p_chan (procs s ! i) = Some ch
                then upd_proc i (\<lambda>p. p\<lparr>p_state := RUNNABLE\<rparr>) s else s)
       in release (ProcLk i) s)"

definition wakeup :: "chan \<Rightarrow> kernel \<Rightarrow> kstep" where
  "wakeup ch s = foldE (wakeup_at ch) [0..<NPROC] s"

section \<open>Giving up the processor\<close>

text \<open>
  The checks of \<^verbatim>\<open>sched\<close> before it switches to the scheduler. Every spinlock the thread
  holds counts one in \<^verbatim>\<open>mycpu()->noff\<close>, and holding one means interrupts are off.
\<close>

definition sched :: "kernel \<Rightarrow> kstep" where
  "sched s =
     bindE (myproc s) (\<lambda>p.
       if ProcLk p \<notin> held s then Inl (Panic ''sched p->lock'')
       else if card (held s) \<noteq> 1 then Inl (Panic ''sched locks'')
       else if p_state (procs s ! p) = RUNNING then Inl (Panic ''sched running'')
       else Inr s)"

text \<open>
  \<^verbatim>\<open>sleep\<close> up to the switch, and from the return of \<^verbatim>\<open>sched\<close> on. Inside a larger operation,
  \<open>sleep\<close> gives the error value \<open>Sleep\<close>: the thread waits for a wakeup on the channel.
\<close>

definition sleep_enter :: "chan \<Rightarrow> lockid \<Rightarrow> kernel \<Rightarrow> kstep" where
  "sleep_enter ch lk s =
     bindE (myproc s) (\<lambda>p.
     bindE (if lk \<noteq> ProcLk p then bindE (acquire (ProcLk p) s) (release lk) else Inr s) (\<lambda>s.
       sched (upd_proc p (\<lambda>x. x\<lparr>p_chan := Some ch, p_state := SLEEPING\<rparr>) s)))"

definition sleep_return :: "lockid \<Rightarrow> kernel \<Rightarrow> kstep" where
  "sleep_return lk s =
     bindE (myproc s) (\<lambda>p.
       let s = upd_proc p (\<lambda>x. x\<lparr>p_chan := None\<rparr>) s in
       if lk \<noteq> ProcLk p then bindE (release (ProcLk p) s) (acquire lk) else Inr s)"

definition sleep :: "chan \<Rightarrow> lockid \<Rightarrow> kernel \<Rightarrow> exn + 'a" where
  "sleep ch lk s = bindE (sleep_enter ch lk s) (\<lambda>_. Inl (Sleep ch))"

lemma sleep_not_Inr [simp]: "sleep ch lk s \<noteq> Inr r"
  by (simp add: sleep_def bindE_eq_Inr)

section \<open>Sleep-locks\<close>

definition get_sl :: "slid \<Rightarrow> kernel \<Rightarrow> sleeplock" where
  "get_sl l s = (case l of SlBuf i \<Rightarrow> b_lock (bufs s ! i) | SlInode i \<Rightarrow> i_lock (icache s ! i))"

definition set_sl :: "slid \<Rightarrow> sleeplock \<Rightarrow> kernel \<Rightarrow> kernel" where
  "set_sl l v s = (case l of
       SlBuf i \<Rightarrow> upd_buf i (\<lambda>b. b\<lparr>b_lock := v\<rparr>) s
     | SlInode i \<Rightarrow> upd_inode i (\<lambda>ip. ip\<lparr>i_lock := v\<rparr>) s)"

definition initsleeplock :: "slid \<Rightarrow> kernel \<Rightarrow> kernel" where
  "initsleeplock l s = set_sl l \<lparr>sl_locked = False, sl_pid = 0\<rparr> s"

definition acquiresleep :: "slid \<Rightarrow> kernel \<Rightarrow> kstep" where
  "acquiresleep l s =
     bindE (acquire (SleepLk l) s) (\<lambda>s.
       if sl_locked (get_sl l s) then sleep (ChSleep l) (SleepLk l) s
       else bindE (myproc s) (\<lambda>p.
         let s = set_sl l \<lparr>sl_locked = True, sl_pid = p_pid (procs s ! p)\<rparr> s
         in release (SleepLk l) s))"

definition releasesleep :: "slid \<Rightarrow> kernel \<Rightarrow> kstep" where
  "releasesleep l s =
     bindE (acquire (SleepLk l) s) (\<lambda>s.
       let s = set_sl l \<lparr>sl_locked = False, sl_pid = 0\<rparr> s in
       bindE (wakeup (ChSleep l) s) (release (SleepLk l)))"

definition holdingsleep :: "slid \<Rightarrow> kernel \<Rightarrow> bool kres" where
  "holdingsleep l s =
     bindE (acquire (SleepLk l) s) (\<lambda>s.
       bindE (myproc s) (\<lambda>p.
         let r = (sl_locked (get_sl l s) \<and> sl_pid (get_sl l s) = p_pid (procs s ! p))
         in bindE (release (SleepLk l) s) (\<lambda>s. Inr (r, s))))"

section \<open>What wakeup does\<close>

definition wake1 :: "chan \<Rightarrow> proc \<Rightarrow> proc" where
  "wake1 ch p = (if p_state p = SLEEPING \<and> p_chan p = Some ch then p\<lparr>p_state := RUNNABLE\<rparr> else p)"

definition no_proc_lock :: "kernel \<Rightarrow> bool" where
  "no_proc_lock s \<longleftrightarrow> (\<forall>i. ProcLk i \<notin> held s)"

definition procs_ok :: "kernel \<Rightarrow> bool" where
  "procs_ok s \<longleftrightarrow> length (procs s) = NPROC \<and> (\<forall>p. curproc s = Some p \<longrightarrow> p < NPROC)"

lemma wakeup_at_eq:
  assumes "ProcLk i \<notin> held s"
  shows "wakeup_at ch i s = Inr (s\<lparr>procs := (procs s)[i := wake1 ch (procs s ! i)]\<rparr>)"
  using assms by (auto simp: wakeup_at_def upd_proc_def wake1_def)

lemma wakeup_prefix:
  assumes "no_proc_lock s" "n \<le> length (procs s)"
  shows "foldE (wakeup_at ch) [0..<n] s
    = Inr (s\<lparr>procs := map (wake1 ch) (take n (procs s)) @ drop n (procs s)\<rparr>)"
  using assms(2)
proof (induction n)
  case 0
  then show ?case by simp
next
  case (Suc n)
  let ?s = "s\<lparr>procs := map (wake1 ch) (take n (procs s)) @ drop n (procs s)\<rparr>"
  have n: "n < length (procs s)" using Suc.prems by simp
  have nth: "procs ?s ! n = procs s ! n" using n by (simp add: nth_append)
  have upd: "(procs ?s)[n := wake1 ch (procs s ! n)] =
      map (wake1 ch) (take (Suc n) (procs s)) @ drop (Suc n) (procs s)"
    using n by (simp add: take_Suc_conv_app_nth list_update_append Cons_nth_drop_Suc[symmetric])
  have "wakeup_at ch n ?s = Inr (?s\<lparr>procs := (procs ?s)[n := wake1 ch (procs ?s ! n)]\<rparr>)"
    using assms(1) by (intro wakeup_at_eq) (simp add: no_proc_lock_def)
  also note nth
  also note upd
  finally show ?case using Suc by (simp add: foldE_append)
qed

lemma wakeup_eq:
  assumes "no_proc_lock s" "procs_ok s"
  shows "wakeup ch s = Inr (s\<lparr>procs := map (wake1 ch) (procs s)\<rparr>)"
  using wakeup_prefix[OF assms(1), of NPROC ch] assms(2)
  by (simp add: wakeup_def procs_ok_def)

text \<open>
  How the process table may change across kernel code that only wakes sleepers: some sleeping
  processes have become runnable, nothing else.
\<close>

definition woken1 :: "proc \<Rightarrow> proc \<Rightarrow> bool" where
  "woken1 p q \<longleftrightarrow> q = p \<or> p_state p = SLEEPING \<and> q = p\<lparr>p_state := RUNNABLE\<rparr>"

definition woken :: "proc list \<Rightarrow> proc list \<Rightarrow> bool" where
  "woken ps qs \<longleftrightarrow> list_all2 woken1 ps qs"

lemma woken_refl [simp]: "woken ps ps"
  by (simp add: woken_def woken1_def list_all2_refl)

lemma woken_trans: "woken ps qs \<Longrightarrow> woken qs rs \<Longrightarrow> woken ps rs"
  unfolding woken_def by (rule list_all2_trans[of woken1 woken1]) (auto simp: woken1_def)

lemma woken_length: "woken ps qs \<Longrightarrow> length qs = length ps"
  by (simp add: woken_def list_all2_lengthD)

lemma woken_map_wake1 [simp]: "woken ps (map (wake1 ch) ps)"
  by (auto simp: woken_def woken1_def wake1_def list_all2_conv_all_nth)

lemma woken_nth:
  assumes "woken ps qs" "i < length ps"
  shows "\<exists>st. qs ! i = (ps ! i)\<lparr>p_state := st\<rparr>"
proof -
  have "woken1 (ps ! i) (qs ! i)" using assms by (simp add: woken_def list_all2_conv_all_nth)
  then show ?thesis
  proof (unfold woken1_def, elim disjE conjE)
    assume "qs ! i = ps ! i"
    then show ?thesis by (intro exI[of _ "p_state (ps ! i)"]) simp
  qed auto
qed

lemma woken_fields [simp]:
  assumes "woken ps qs" "i < length ps"
  shows "p_pid (qs ! i) = p_pid (ps ! i)" "p_sz (qs ! i) = p_sz (ps ! i)"
    "p_pagetable (qs ! i) = p_pagetable (ps ! i)" "p_trapframe (qs ! i) = p_trapframe (ps ! i)"
    "p_kstack (qs ! i) = p_kstack (ps ! i)" "p_killed (qs ! i) = p_killed (ps ! i)"
    "p_ofile (qs ! i) = p_ofile (ps ! i)" "p_cwd (qs ! i) = p_cwd (ps ! i)"
    "p_parent (qs ! i) = p_parent (ps ! i)" "p_chan (qs ! i) = p_chan (ps ! i)"
  using woken_nth[OF assms] by auto

section \<open>What the sleep-lock operations do\<close>

lemma get_set_sl [simp]:
  assumes "case l of SlBuf i \<Rightarrow> i < length (bufs s) | SlInode i \<Rightarrow> i < length (icache s)"
  shows "get_sl l (set_sl l v s) = v"
  using assms by (cases l) (auto simp: get_sl_def set_sl_def upd_buf_def upd_inode_def)

lemma set_sl_simps [simp]:
  "held (set_sl l v s) = held s" "procs (set_sl l v s) = procs s" "curproc (set_sl l v s) = curproc s"
  "set_sl l v (s\<lparr>held := h\<rparr>) = (set_sl l v s)\<lparr>held := h\<rparr>"
  "set_sl l v (s\<lparr>procs := ps\<rparr>) = (set_sl l v s)\<lparr>procs := ps\<rparr>"
  by (cases l; simp add: set_sl_def upd_buf_def upd_inode_def)+

lemma get_sl_held [simp]: "get_sl l (s\<lparr>held := h\<rparr>) = get_sl l s"
  by (simp add: get_sl_def split: slid.split)

lemma acquiresleep_eq:
  assumes "SleepLk l \<notin> held s" "\<not> sl_locked (get_sl l s)" "curproc s = Some p"
  shows "acquiresleep l s = Inr (set_sl l \<lparr>sl_locked = True, sl_pid = p_pid (procs s ! p)\<rparr> s)"
  using assms by (simp add: acquiresleep_def myproc_def)

lemma acquiresleep_Inr:
  assumes "acquiresleep l s = Inr t"
  shows "\<exists>p. curproc s = Some p \<and> SleepLk l \<notin> held s \<and> \<not> sl_locked (get_sl l s) \<and>
    t = set_sl l \<lparr>sl_locked = True, sl_pid = p_pid (procs s ! p)\<rparr> s"
  using assms
  by (auto simp: acquiresleep_def myproc_def res_simps Let_def split: if_splits option.splits)

lemma releasesleep_eq:
  assumes "SleepLk l \<notin> held s" "no_proc_lock s" "procs_ok s"
  shows "releasesleep l s =
    Inr ((set_sl l \<lparr>sl_locked = False, sl_pid = 0\<rparr> s)\<lparr>procs := map (wake1 (ChSleep l)) (procs s)\<rparr>)"
proof -
  let ?t = "(set_sl l \<lparr>sl_locked = False, sl_pid = 0\<rparr> s)\<lparr>held := insert (SleepLk l) (held s)\<rparr>"
  have "wakeup (ChSleep l) ?t = Inr (?t\<lparr>procs := map (wake1 (ChSleep l)) (procs ?t)\<rparr>)"
    using assms by (intro wakeup_eq) (auto simp: no_proc_lock_def procs_ok_def)
  then show ?thesis using assms(1) by (simp add: releasesleep_def)
qed

lemma holdingsleep_eq:
  assumes "SleepLk l \<notin> held s" "curproc s = Some p"
  shows "holdingsleep l s =
    Inr (sl_locked (get_sl l s) \<and> sl_pid (get_sl l s) = p_pid (procs s ! p), s)"
  using assms by (simp add: holdingsleep_def myproc_def)

end
