(* ===== verification/Bio.thy ===== *)
theory Bio
  imports Sleeplock
begin

text \<open>
  The buffer cache, \<^verbatim>\<open>kernel/bio.c\<close>. The buffers are \<open>bufs ! 0 \<dots> bufs ! (NBUF - 1)\<close>, and
  \<open>bufs ! NBUF\<close> is \<^verbatim>\<open>bcache.head\<close>; \<open>b_next\<close> and \<open>b_prev\<close> are the pointers of the doubly linked
  LRU list. \<open>lru\<close> relates the pointers to the abstract list of buffers, most recently used
  first. Above it, the cache is described by what it promises: \<open>blk\<close> is the contents of a block
  as the kernel sees it, \<open>refs\<close> its reference count and \<open>lkd\<close> whether its buffer is locked.

  \<open>disk_rw\<close> is the effect of \<^verbatim>\<open>virtio_disk_rw\<close> on the disk and the buffer, which the theory
  \<^verbatim>\<open>Virtio\<close> derives from the driver and a device that follows the virtio protocol.
\<close>

section \<open>The operations\<close>

definition lru_push :: "nat \<Rightarrow> kernel \<Rightarrow> kernel" where
  "lru_push b s =
     (let s = upd_buf b (\<lambda>x. x\<lparr>b_next := b_next (bufs s ! NBUF)\<rparr>) s;
          s = upd_buf b (\<lambda>x. x\<lparr>b_prev := NBUF\<rparr>) s;
          s = upd_buf (b_next (bufs s ! NBUF)) (\<lambda>x. x\<lparr>b_prev := b\<rparr>) s
      in upd_buf NBUF (\<lambda>x. x\<lparr>b_next := b\<rparr>) s)"

definition lru_unlink :: "nat \<Rightarrow> kernel \<Rightarrow> kernel" where
  "lru_unlink b s =
     (let s = upd_buf (b_next (bufs s ! b)) (\<lambda>x. x\<lparr>b_prev := b_prev (bufs s ! b)\<rparr>) s
      in upd_buf (b_prev (bufs s ! b)) (\<lambda>x. x\<lparr>b_next := b_next (bufs s ! b)\<rparr>) s)"

definition binit :: "kernel \<Rightarrow> kernel" where
  "binit s =
     (let s = upd_buf NBUF (\<lambda>x. x\<lparr>b_prev := NBUF\<rparr>) s;
          s = upd_buf NBUF (\<lambda>x. x\<lparr>b_next := NBUF\<rparr>) s
      in fold (\<lambda>b s. lru_push b (initsleeplock (SlBuf b) s)) [0..<NBUF] s)"

text \<open>The two loops of \<^verbatim>\<open>bget\<close>; the list has \<open>NBUF\<close> buffers, so \<open>NBUF + 1\<close> steps reach the head.\<close>

fun bget_cached :: "nat \<Rightarrow> u32 \<Rightarrow> u32 \<Rightarrow> nat \<Rightarrow> kernel \<Rightarrow> exn + nat option" where
  "bget_cached 0 dev blockno b s = Inl Spin"
| "bget_cached (Suc k) dev blockno b s =
     (if b = NBUF then Inr None
      else if b_dev (bufs s ! b) = dev \<and> b_blockno (bufs s ! b) = blockno then Inr (Some b)
      else bget_cached k dev blockno (b_next (bufs s ! b)) s)"

fun bget_unused :: "nat \<Rightarrow> nat \<Rightarrow> kernel \<Rightarrow> exn + nat option" where
  "bget_unused 0 b s = Inl Spin"
| "bget_unused (Suc k) b s =
     (if b = NBUF then Inr None
      else if b_refcnt (bufs s ! b) = 0 then Inr (Some b)
      else bget_unused k (b_prev (bufs s ! b)) s)"

definition bget :: "u32 \<Rightarrow> u32 \<Rightarrow> kernel \<Rightarrow> nat kres" where
  "bget dev blockno s =
     bindE (acquire BcacheLk s) (\<lambda>s.
     bindE (bget_cached (NBUF + 1) dev blockno (b_next (bufs s ! NBUF)) s) (\<lambda>r.
     case r of
       Some b \<Rightarrow>
         let s = upd_buf b (\<lambda>x. x\<lparr>b_refcnt := b_refcnt x + 1\<rparr>) s in
         bindE (release BcacheLk s) (\<lambda>s.
         bindE (acquiresleep (SlBuf b) s) (\<lambda>s. Inr (b, s)))
     | None \<Rightarrow>
         bindE (bget_unused (NBUF + 1) (b_prev (bufs s ! NBUF)) s) (\<lambda>r.
         case r of
           Some b \<Rightarrow>
             let s = upd_buf b (\<lambda>x. x\<lparr>b_dev := dev, b_blockno := blockno, b_valid := False,
                                     b_refcnt := 1\<rparr>) s in
             bindE (release BcacheLk s) (\<lambda>s.
             bindE (acquiresleep (SlBuf b) s) (\<lambda>s. Inr (b, s)))
         | None \<Rightarrow> Inl (Panic ''bget: no buffers''))))"

definition disk_rw :: "nat \<Rightarrow> bool \<Rightarrow> kernel \<Rightarrow> kstep" where
  "disk_rw b write s =
     bindE (acquire VdiskLk s) (\<lambda>s.
       let n = b_blockno (bufs s ! b);
           s = (if write
                then s\<lparr>disk := (disk s)(n := b_data (bufs s ! b)),
                       wtrace := wtrace s @ [(n, b_data (bufs s ! b))]\<rparr>
                else upd_buf b (\<lambda>x. x\<lparr>b_data := disk s n\<rparr>) s);
           s = upd_buf b (\<lambda>x. x\<lparr>b_disk := False\<rparr>) s
       in release VdiskLk s)"

definition bread :: "u32 \<Rightarrow> u32 \<Rightarrow> kernel \<Rightarrow> nat kres" where
  "bread dev blockno s =
     bindE (bget dev blockno s) (\<lambda>(b, s).
       if \<not> b_valid (bufs s ! b)
       then bindE (disk_rw b False s) (\<lambda>s.
              Inr (b, upd_buf b (\<lambda>x. x\<lparr>b_valid := True\<rparr>) s))
       else Inr (b, s))"

definition bwrite :: "nat \<Rightarrow> kernel \<Rightarrow> kstep" where
  "bwrite b s =
     bindE (holdingsleep (SlBuf b) s) (\<lambda>(h, s).
       if \<not> h then Inl (Panic ''bwrite'') else disk_rw b True s)"

definition brelse :: "nat \<Rightarrow> kernel \<Rightarrow> kstep" where
  "brelse b s =
     bindE (holdingsleep (SlBuf b) s) (\<lambda>(h, s).
       if \<not> h then Inl (Panic ''brelse'')
       else
         bindE (releasesleep (SlBuf b) s) (\<lambda>s.
         bindE (acquire BcacheLk s) (\<lambda>s.
           let s = upd_buf b (\<lambda>x. x\<lparr>b_refcnt := b_refcnt x - 1\<rparr>) s;
               s = (if b_refcnt (bufs s ! b) = 0 then lru_push b (lru_unlink b s) else s)
           in release BcacheLk s)))"

definition bpin :: "nat \<Rightarrow> kernel \<Rightarrow> kstep" where
  "bpin b s =
     bindE (acquire BcacheLk s) (\<lambda>s.
       release BcacheLk (upd_buf b (\<lambda>x. x\<lparr>b_refcnt := b_refcnt x + 1\<rparr>) s))"

definition bunpin :: "nat \<Rightarrow> kernel \<Rightarrow> kstep" where
  "bunpin b s =
     bindE (acquire BcacheLk s) (\<lambda>s.
       release BcacheLk (upd_buf b (\<lambda>x. x\<lparr>b_refcnt := b_refcnt x - 1\<rparr>) s))"

section \<open>The doubly linked list\<close>

text \<open>\<open>dlist nx pv x as y\<close>: following \<open>nx\<close> from \<open>x\<close> visits \<open>as\<close> and then \<open>y\<close>, and \<open>pv\<close> leads back.\<close>

fun dlist :: "(nat \<Rightarrow> nat) \<Rightarrow> (nat \<Rightarrow> nat) \<Rightarrow> nat \<Rightarrow> nat list \<Rightarrow> nat \<Rightarrow> bool" where
  "dlist nx pv x [] y \<longleftrightarrow> nx x = y \<and> pv y = x"
| "dlist nx pv x (a # as) y \<longleftrightarrow> nx x = a \<and> pv a = x \<and> dlist nx pv a as y"

lemma dlist_append:
  "dlist nx pv x (as @ b # bs) y \<longleftrightarrow> dlist nx pv x as b \<and> dlist nx pv b bs y"
  by (induction as arbitrary: x) auto

lemma dlist_pv: "dlist nx pv x as y \<Longrightarrow> pv y = last (x # as)"
  by (induction as arbitrary: x) auto

lemma dlist_nx: "dlist nx pv x as y \<Longrightarrow> nx x = hd (as @ [y])"
  by (cases as) auto

lemma dlist_frame:
  assumes "\<And>z. z \<in> set (x # as) \<Longrightarrow> nx' z = nx z" "\<And>z. z \<in> set (as @ [y]) \<Longrightarrow> pv' z = pv z"
  shows "dlist nx' pv' x as y = dlist nx pv x as y"
  using assms by (induction as arbitrary: x) auto

lemma dlist_unlink:
  assumes "dlist nx pv x as b" "dlist nx pv b bs y" "distinct (x # as @ b # bs)"
    and "y \<notin> set (as @ b # bs)"
  shows "dlist (nx(pv b := nx b)) (pv(nx b := pv b)) x (as @ bs) y"
  using assms
proof (induction as arbitrary: x)
  case Nil
  then have b: "nx x = b" "pv b = x" by auto
  show ?case
  proof (cases bs)
    case Nil
    then show ?thesis using Nil.prems b by auto
  next
    case (Cons c cs)
    then have "dlist (nx(x := c)) (pv(c := x)) c cs y = dlist nx pv c cs y"
      using Nil.prems by (intro dlist_frame) auto
    moreover have "nx b = c" "dlist nx pv c cs y" using Nil.prems(2) Cons by auto
    ultimately show ?thesis unfolding Cons b(2) by (simp del: fun_upd_apply) simp
  qed
next
  case (Cons a as)
  have ne: "pv b \<noteq> x" using dlist_pv[of nx pv a as b] Cons.prems by auto
  have "nx b = hd (bs @ [y])" using dlist_nx Cons.prems(2) by blast
  then have ne2: "nx b \<noteq> a" using Cons.prems by (cases bs) auto
  have "dlist (nx(pv b := nx b)) (pv(nx b := pv b)) a (as @ bs) y"
    using Cons.prems by (intro Cons.IH) auto
  then show ?case using ne ne2 Cons.prems by (simp del: fun_upd_apply) simp
qed

lemma dlist_push:
  assumes "dlist nx pv h as h" "distinct (h # as)" "b \<notin> set (h # as)"
  shows "dlist (nx(b := nx h, h := b)) (pv(b := h, nx h := b)) h (b # as) h"
proof (cases as)
  case Nil
  then show ?thesis using assms by auto
next
  case (Cons c cs)
  then have "nx h = c" using assms(1) by simp
  moreover have "dlist (nx(b := c, h := b)) (pv(b := h, c := b)) c cs h = dlist nx pv c cs h"
    using assms Cons by (intro dlist_frame) auto
  ultimately show ?thesis using assms Cons by auto
qed

lemma dlist_rev: "dlist nx pv x as y \<Longrightarrow> dlist pv nx y (rev as) x"
  by (induction as arbitrary: x) (auto simp: dlist_append)

abbreviation nxt :: "kernel \<Rightarrow> nat \<Rightarrow> nat" where "nxt s \<equiv> (\<lambda>i. b_next (bufs s ! i))"
abbreviation prv :: "kernel \<Rightarrow> nat \<Rightarrow> nat" where "prv s \<equiv> (\<lambda>i. b_prev (bufs s ! i))"

definition lru :: "kernel \<Rightarrow> nat list \<Rightarrow> bool" where
  "lru s xs \<longleftrightarrow> length (bufs s) = NBUF + 1 \<and> distinct xs \<and> set xs = {0..<NBUF} \<and>
     dlist (nxt s) (prv s) NBUF xs NBUF"

lemma upd_buf_nth:
  "i < length (bufs s) \<Longrightarrow> bufs (upd_buf i f s) ! j = (if j = i then f (bufs s ! i) else bufs s ! j)"
  by (simp add: upd_buf_def nth_list_update)

lemma length_upd_buf [simp]: "length (bufs (upd_buf i f s)) = length (bufs s)"
  by (simp add: upd_buf_def)

lemma lru_length: "lru s xs \<Longrightarrow> length xs = NBUF"
  by (metis lru_def distinct_card card_atLeastLessThan diff_zero)

lemma dlist_cached:
  assumes "dlist (nxt s) (prv s) x as NBUF" "NBUF \<notin> set as" "length as < k"
  shows "bget_cached k dev n (nxt s x) s =
    Inr (find (\<lambda>b. b_dev (bufs s ! b) = dev \<and> b_blockno (bufs s ! b) = n) as)"
  using assms
proof (induction as arbitrary: x k)
  case Nil
  then show ?case by (cases k) auto
next
  case (Cons a as)
  then obtain k' where "k = Suc k'" "length as < k'" by (cases k) auto
  then show ?case using Cons.prems Cons.IH[of a k'] by auto
qed

lemma dlist_unused:
  assumes "dlist (prv s) (nxt s) x as NBUF" "NBUF \<notin> set as" "length as < k"
  shows "bget_unused k (prv s x) s = Inr (find (\<lambda>b. b_refcnt (bufs s ! b) = 0) as)"
  using assms
proof (induction as arbitrary: x k)
  case Nil
  then show ?case by (cases k) auto
next
  case (Cons a as)
  then obtain k' where "k = Suc k'" "length as < k'" by (cases k) auto
  then show ?case using Cons.prems Cons.IH[of a k'] by auto
qed

lemma lru_cached:
  assumes "lru s xs"
  shows "bget_cached (NBUF + 1) dev n (nxt s NBUF) s =
    Inr (find (\<lambda>b. b_dev (bufs s ! b) = dev \<and> b_blockno (bufs s ! b) = n) xs)"
  using assms lru_length[OF assms] by (intro dlist_cached) (auto simp: lru_def)

lemma lru_unused:
  assumes "lru s xs"
  shows "bget_unused (NBUF + 1) (prv s NBUF) s = Inr (find (\<lambda>b. b_refcnt (bufs s ! b) = 0) (rev xs))"
  using assms lru_length[OF assms] by (intro dlist_unused) (auto simp: lru_def dlist_rev)

lemma lru_frame:
  assumes "lru s xs" "length (bufs s') = length (bufs s)" "nxt s' = nxt s" "prv s' = prv s"
  shows "lru s' xs"
  using assms by (simp add: lru_def)

text \<open>Two buffers that differ at most in their links.\<close>

definition core :: "buf \<Rightarrow> buf" where
  "core x = x\<lparr>b_next := 0, b_prev := 0\<rparr>"

definition same_core :: "kernel \<Rightarrow> kernel \<Rightarrow> bool" where
  "same_core s s' \<longleftrightarrow> length (bufs s') = length (bufs s) \<and> (\<forall>i. core (bufs s' ! i) = core (bufs s ! i))"

lemma core_eqD:
  assumes "core x = core y"
  shows "b_valid x = b_valid y" "b_disk x = b_disk y" "b_dev x = b_dev y" "b_blockno x = b_blockno y"
    "b_lock x = b_lock y" "b_refcnt x = b_refcnt y" "b_data x = b_data y"
  using assms by (auto simp: core_def dest: arg_cong[of _ _ b_valid] arg_cong[of _ _ b_disk]
    arg_cong[of _ _ b_dev] arg_cong[of _ _ b_blockno] arg_cong[of _ _ b_lock] arg_cong[of _ _ b_refcnt]
    arg_cong[of _ _ b_data])

lemma same_core_fields:
  assumes "same_core s s'"
  shows "b_valid (bufs s' ! i) = b_valid (bufs s ! i)" "b_disk (bufs s' ! i) = b_disk (bufs s ! i)"
    "b_dev (bufs s' ! i) = b_dev (bufs s ! i)" "b_blockno (bufs s' ! i) = b_blockno (bufs s ! i)"
    "b_lock (bufs s' ! i) = b_lock (bufs s ! i)" "b_refcnt (bufs s' ! i) = b_refcnt (bufs s ! i)"
    "b_data (bufs s' ! i) = b_data (bufs s ! i)"
  using assms core_eqD[of "bufs s' ! i" "bufs s ! i"] by (auto simp: same_core_def)

lemma same_core_refl: "same_core s s"
  by (simp add: same_core_def)

lemma same_core_upd:
  assumes "same_core s t" "\<And>x. core (f x) = core x"
  shows "same_core s (upd_buf i f t)"
proof (cases "i < length (bufs t)")
  case True
  then show ?thesis using assms by (simp add: same_core_def upd_buf_nth)
next
  case False
  then show ?thesis using assms by (simp add: same_core_def upd_buf_def list_update_beyond)
qed

lemma lru_unlink_same_core: "same_core s (lru_unlink b s)"
  by (simp add: lru_unlink_def Let_def same_core_upd same_core_refl core_def)

lemma lru_push_same_core: "same_core t s \<Longrightarrow> same_core t (lru_push b s)"
  by (simp add: lru_push_def Let_def same_core_upd core_def)

lemma lru_frame_eq:
  "lru_push b s = s\<lparr>bufs := bufs (lru_push b s)\<rparr>" "lru_unlink b s = s\<lparr>bufs := bufs (lru_unlink b s)\<rparr>"
  by (simp_all add: lru_push_def lru_unlink_def upd_buf_def Let_def)

lemma lru_move_frame:
  "\<exists>B. lru_push b (lru_unlink b (s\<lparr>bufs := A, procs := P\<rparr>)) = s\<lparr>bufs := B, procs := P\<rparr>"
proof -
  let ?x = "\<lambda>A. s\<lparr>bufs := A, procs := P\<rparr>"
  obtain C where "lru_unlink b (?x A) = (?x A)\<lparr>bufs := C\<rparr>" using lru_frame_eq(2) by blast
  then have C: "lru_unlink b (?x A) = ?x C" by simp
  obtain B where "lru_push b (?x C) = (?x C)\<lparr>bufs := B\<rparr>" using lru_frame_eq(1) by blast
  then have "lru_push b (?x C) = ?x B" by simp
  then show ?thesis unfolding C by blast
qed

lemma nxt_upd:
  assumes "i < length (bufs s)"
  shows "nxt (upd_buf i (\<lambda>x. x\<lparr>b_next := v\<rparr>) s) = (nxt s)(i := v)"
    "prv (upd_buf i (\<lambda>x. x\<lparr>b_next := v\<rparr>) s) = prv s"
    "nxt (upd_buf i (\<lambda>x. x\<lparr>b_prev := v\<rparr>) s) = nxt s"
    "prv (upd_buf i (\<lambda>x. x\<lparr>b_prev := v\<rparr>) s) = (prv s)(i := v)"
  using assms by (auto simp: upd_buf_nth fun_eq_iff)

lemma lru_unlink_links:
  assumes "nxt s b < length (bufs s)" "prv s b < length (bufs s)"
  shows "nxt (lru_unlink b s) = (nxt s)(prv s b := nxt s b)"
    "prv (lru_unlink b s) = (prv s)(nxt s b := prv s b)"
  using assms by (auto simp: lru_unlink_def Let_def upd_buf_nth fun_eq_iff)

lemma lru_push_links:
  assumes "nxt s NBUF < length (bufs s)" "NBUF < length (bufs s)" "b < NBUF"
  shows "nxt (lru_push b s) = (nxt s)(b := nxt s NBUF, NBUF := b)"
    "prv (lru_push b s) = (prv s)(b := NBUF, nxt s NBUF := b)"
  using assms by (auto simp: lru_push_def Let_def upd_buf_nth fun_eq_iff)

lemma lru_split:
  assumes "lru s xs" "b \<in> set xs"
  obtains as bs where "xs = as @ b # bs" "dlist (nxt s) (prv s) NBUF as b"
    "dlist (nxt s) (prv s) b bs NBUF" "remove1 b xs = as @ bs"
proof -
  obtain as bs where xs: "xs = as @ b # bs" using assms(2) by (meson split_list)
  moreover have "b \<notin> set as" using assms(1) xs by (auto simp: lru_def)
  ultimately show ?thesis using that assms(1) by (auto simp: lru_def dlist_append remove1_append)
qed

lemma lru_move_front:
  assumes "lru s xs" "b \<in> set xs"
  shows "lru (lru_push b (lru_unlink b s)) (b # remove1 b xs)"
proof -
  obtain as bs where xs: "xs = as @ b # bs" and d1: "dlist (nxt s) (prv s) NBUF as b"
    and d2: "dlist (nxt s) (prv s) b bs NBUF" and rm: "remove1 b xs = as @ bs"
    using lru_split[OF assms] by blast
  have len: "length (bufs s) = NBUF + 1" and dist: "distinct (NBUF # as @ b # bs)"
    and sub: "set xs = {0..<NBUF}" using assms(1) xs by (auto simp: lru_def)
  have lt: "\<And>x. x \<in> set (as @ b # bs) \<Longrightarrow> x < NBUF" using sub unfolding xs by auto
  have nb: "nxt s b < NBUF + 1" using dlist_nx[OF d2] lt[of "nxt s b"] by (cases bs) auto
  have pb: "prv s b < NBUF + 1" using dlist_pv[OF d1] lt[of "prv s b"] by (cases as rule: rev_cases) auto
  let ?u = "lru_unlink b s"
  have lu: "nxt ?u = (nxt s)(prv s b := nxt s b)" "prv ?u = (prv s)(nxt s b := prv s b)"
    using nb pb len by (intro lru_unlink_links; simp)+
  have du: "dlist (nxt ?u) (prv ?u) NBUF (as @ bs) NBUF"
    unfolding lu using d1 d2 dist by (intro dlist_unlink) auto
  have lenu: "length (bufs ?u) = NBUF + 1"
    using lru_unlink_same_core[of s b] len by (simp add: same_core_def)
  have nh: "nxt ?u NBUF < NBUF + 1" using dlist_nx[OF du] lt[of "nxt ?u NBUF"]
    by (cases as; cases bs) auto
  have b: "b < NBUF" by (rule lt) simp
  have "dlist (nxt (lru_push b ?u)) (prv (lru_push b ?u)) NBUF (b # as @ bs) NBUF"
    unfolding lru_push_links[OF _ _ b, of ?u, unfolded lenu, OF nh, simplified]
    using du dist by (intro dlist_push) auto
  moreover have "length (bufs (lru_push b ?u)) = NBUF + 1"
    using lru_push_same_core[OF same_core_refl, of ?u b] lenu by (simp add: same_core_def)
  moreover have "distinct (b # as @ bs)" "set (b # as @ bs) = {0..<NBUF}" using dist sub xs by auto
  ultimately show ?thesis unfolding rm lru_def by blast
qed

section \<open>What the cache promises\<close>

text \<open>
  \<open>owner s n\<close> is the buffer that caches block \<open>n\<close>. \<open>blk s n\<close> is the contents of the block as the
  kernel sees it: the cached copy, or the disk's. \<open>refs\<close> and \<open>lkd\<close> are the reference count and
  the holder of the buffer's sleep-lock.
\<close>

definition owns :: "kernel \<Rightarrow> u32 \<Rightarrow> nat \<Rightarrow> bool" where
  "owns s n b \<longleftrightarrow> b_dev (bufs s ! b) = ROOTDEV \<and> b_blockno (bufs s ! b) = n"

definition owner :: "kernel \<Rightarrow> u32 \<Rightarrow> nat option" where
  "owner s n = find (owns s n) [0..<NBUF]"

definition blk :: "kernel \<Rightarrow> u32 \<Rightarrow> bytes" where
  "blk s n = (case owner s n of None \<Rightarrow> disk s n | Some b \<Rightarrow> b_data (bufs s ! b))"

definition refs :: "kernel \<Rightarrow> u32 \<Rightarrow> u32" where
  "refs s n = (case owner s n of None \<Rightarrow> 0 | Some b \<Rightarrow> b_refcnt (bufs s ! b))"

definition holder :: "sleeplock \<Rightarrow> int option" where
  "holder l = (if sl_locked l then Some (sl_pid l) else None)"

definition lkd :: "kernel \<Rightarrow> u32 \<Rightarrow> int option" where
  "lkd s n = (case owner s n of None \<Rightarrow> None | Some b \<Rightarrow> holder (b_lock (bufs s ! b)))"

definition buf_ok :: "(u32 \<Rightarrow> bytes) \<Rightarrow> buf \<Rightarrow> bool" where
  "buf_ok d x \<longleftrightarrow>
     (if b_dev x = ROOTDEV then b_valid x \<and> (b_refcnt x = 0 \<longrightarrow> b_data x = d (b_blockno x))
      else b_refcnt x = 0 \<and> \<not> sl_locked (b_lock x))"

definition bc_inv :: "kernel \<Rightarrow> bool" where
  "bc_inv s \<longleftrightarrow> (\<exists>xs. lru s xs) \<and> (\<forall>b<NBUF. buf_ok (disk s) (bufs s ! b)) \<and>
     (\<forall>n. \<forall>b<NBUF. \<forall>c<NBUF. owns s n b \<longrightarrow> owns s n c \<longrightarrow> b = c)"

text \<open>A buffer nobody refers to is not locked: what lets \<open>bget\<close> recycle it without waiting.\<close>

definition settled :: "kernel \<Rightarrow> bool" where
  "settled s \<longleftrightarrow> (\<forall>n. refs s n = 0 \<longrightarrow> lkd s n = None)"

definition busy :: "kernel \<Rightarrow> u32 set" where
  "busy s = {n. refs s n \<noteq> 0}"

text \<open>The calling thread: it runs as a process and holds none of the locks the cache takes.\<close>

definition bio_ctx :: "kernel \<Rightarrow> bool" where
  "bio_ctx s \<longleftrightarrow> (\<exists>p. curproc s = Some p) \<and> BcacheLk \<notin> held s \<and> VdiskLk \<notin> held s \<and>
     (\<forall>l. SleepLk l \<notin> held s) \<and> no_proc_lock s \<and> procs_ok s"

definition mypid :: "kernel \<Rightarrow> int" where
  "mypid s = p_pid (procs s ! the (curproc s))"

lemma find_unique:
  assumes "\<And>x y. x \<in> set xs \<Longrightarrow> y \<in> set xs \<Longrightarrow> P x \<Longrightarrow> P y \<Longrightarrow> x = y"
  shows "find P xs = Some x \<longleftrightarrow> x \<in> set xs \<and> P x"
  using assms by (induction xs) auto

lemma find_same_set:
  assumes "\<And>x y. x \<in> set xs \<Longrightarrow> y \<in> set xs \<Longrightarrow> P x \<Longrightarrow> P y \<Longrightarrow> x = y" "set xs = set ys"
  shows "find P xs = find P ys"
proof (cases "find P xs")
  case None
  then have "\<forall>x\<in>set ys. \<not> P x" using assms(2) by (simp add: find_None_iff)
  then have "find P ys = None" by (simp add: find_None_iff)
  with None show ?thesis by simp
next
  case (Some x)
  then have "x \<in> set ys" "P x" using find_unique[of xs P x] assms by auto
  then have "find P ys = Some x" using find_unique[of ys P x] assms by auto
  with Some show ?thesis by simp
qed

lemma bc_inv_unique: "bc_inv s \<Longrightarrow> b < NBUF \<Longrightarrow> c < NBUF \<Longrightarrow> owns s n b \<Longrightarrow> owns s n c \<Longrightarrow> b = c"
  by (simp add: bc_inv_def)

lemma owner_Some_iff: "bc_inv s \<Longrightarrow> owner s n = Some b \<longleftrightarrow> b < NBUF \<and> owns s n b"
  unfolding owner_def using bc_inv_unique by (subst find_unique) auto

lemma owner_SomeD: "owner s n = Some b \<Longrightarrow> b < NBUF \<and> owns s n b"
  unfolding owner_def by (auto simp: find_Some_iff)

lemma owner_None_iff: "owner s n = None \<longleftrightarrow> (\<forall>b<NBUF. \<not> owns s n b)"
  by (auto simp: owner_def find_None_iff)

lemma bc_inv_length: "bc_inv s \<Longrightarrow> length (bufs s) = NBUF + 1"
  by (auto simp: bc_inv_def lru_def)

lemma bget_cached_owner:
  assumes "bc_inv s"
  shows "bget_cached (NBUF + 1) ROOTDEV n (nxt s NBUF) s = Inr (owner s n)"
proof -
  obtain xs where xs: "lru s xs" using assms by (auto simp: bc_inv_def)
  have "find (owns s n) xs = find (owns s n) [0..<NBUF]"
    using xs bc_inv_unique[OF assms] by (intro find_same_set) (auto simp: lru_def)
  then show ?thesis using lru_cached[OF xs, of ROOTDEV n] by (simp add: owner_def owns_def[abs_def])
qed

lemma bget_unused_free:
  assumes "bc_inv s" "\<exists>b<NBUF. b_refcnt (bufs s ! b) = 0"
  shows "\<exists>b<NBUF. b_refcnt (bufs s ! b) = 0 \<and> bget_unused (NBUF + 1) (prv s NBUF) s = Inr (Some b)"
proof -
  obtain xs where xs: "lru s xs" using assms by (auto simp: bc_inv_def)
  let ?f = "find (\<lambda>b. b_refcnt (bufs s ! b) = 0) (rev xs)"
  have "?f \<noteq> None" using assms(2) xs by (auto simp: find_None_iff lru_def)
  then obtain b where b: "?f = Some b" by auto
  then have "b \<in> set xs" "b_refcnt (bufs s ! b) = 0" by (auto simp: find_Some_iff) (metis nth_mem set_rev length_rev)
  then show ?thesis using lru_unused[OF xs] b xs by (auto simp: lru_def)
qed

section \<open>Changing one buffer\<close>

lemma upd_buf_simps [simp]:
  "disk (upd_buf b f s) = disk s" "held (upd_buf b f s) = held s" "procs (upd_buf b f s) = procs s"
  "curproc (upd_buf b f s) = curproc s"
  by (simp_all add: upd_buf_def)

lemma lru_upd:
  assumes "lru s xs" "b < NBUF" "b_next (f (bufs s ! b)) = nxt s b" "b_prev (f (bufs s ! b)) = prv s b"
  shows "lru (upd_buf b f s) xs"
  using assms by (intro lru_frame[OF assms(1)]) (auto simp: upd_buf_nth lru_def)

lemma bc_upd:
  assumes "bc_inv s" "owner s n = Some b"
    and "b_next (f (bufs s ! b)) = nxt s b" "b_prev (f (bufs s ! b)) = prv s b"
    and "b_dev (f (bufs s ! b)) = ROOTDEV" "b_blockno (f (bufs s ! b)) = n"
  shows "owner (upd_buf b f s) = owner s"
    and "buf_ok (disk s) (f (bufs s ! b)) \<Longrightarrow> bc_inv (upd_buf b f s)"
    and "blk (upd_buf b f s) = (blk s)(n := b_data (f (bufs s ! b)))"
    and "refs (upd_buf b f s) = (refs s)(n := b_refcnt (f (bufs s ! b)))"
    and "lkd (upd_buf b f s) = (lkd s)(n := holder (b_lock (f (bufs s ! b))))"
proof -
  have b: "b < NBUF" "owns s n b" using owner_SomeD[OF assms(2)] by auto
  have nth: "bufs (upd_buf b f s) ! c = (if c = b then f (bufs s ! b) else bufs s ! c)" for c
    using b bc_inv_length[OF assms(1)] by (simp add: upd_buf_nth)
  have owns: "owns (upd_buf b f s) = owns s"
    using b assms(5,6) by (intro ext) (auto simp: owns_def nth)
  then show ow: "owner (upd_buf b f s) = owner s" by (intro ext) (simp add: owner_def)
  have other: "c \<noteq> b" if "owner s m = Some c" "m \<noteq> n" for m c
    using owner_SomeD[OF that(1)] that(2) b by (auto simp: owns_def)
  show "bc_inv (upd_buf b f s)" if "buf_ok (disk s) (f (bufs s ! b))"
    using assms(1) that lru_upd[of s _ b f] b assms(3,4) unfolding bc_inv_def owns
    by (auto simp: nth)
  show "blk (upd_buf b f s) = (blk s)(n := b_data (f (bufs s ! b)))"
    using other assms(2) by (auto simp: blk_def ow nth fun_eq_iff split: option.split)
  show "refs (upd_buf b f s) = (refs s)(n := b_refcnt (f (bufs s ! b)))"
    using other assms(2) by (auto simp: refs_def ow nth fun_eq_iff split: option.split)
  show "lkd (upd_buf b f s) = (lkd s)(n := holder (b_lock (f (bufs s ! b))))"
    using other assms(2) by (auto simp: lkd_def ow nth fun_eq_iff split: option.split)
qed

lemma bc_recycle:
  assumes "bc_inv s" "owner s n = None" "b < NBUF" "b_refcnt (bufs s ! b) = 0"
    and "\<not> sl_locked (b_lock (bufs s ! b))"
    and "b_next (f (bufs s ! b)) = nxt s b" "b_prev (f (bufs s ! b)) = prv s b"
    and "b_dev (f (bufs s ! b)) = ROOTDEV" "b_blockno (f (bufs s ! b)) = n"
  shows "owner (upd_buf b f s) n = Some b"
    and "buf_ok (disk s) (f (bufs s ! b)) \<Longrightarrow> bc_inv (upd_buf b f s)"
    and "blk (upd_buf b f s) = (blk s)(n := b_data (f (bufs s ! b)))"
    and "refs (upd_buf b f s) = (refs s)(n := b_refcnt (f (bufs s ! b)))"
    and "lkd (upd_buf b f s) = (lkd s)(n := holder (b_lock (f (bufs s ! b))))"
    and "\<And>m c. owner s m = Some c \<Longrightarrow> refs s m \<noteq> 0 \<Longrightarrow> owner (upd_buf b f s) m = Some c"
proof -
  let ?s = "upd_buf b f s"
  have nth: "bufs ?s ! c = (if c = b then f (bufs s ! b) else bufs s ! c)" for c
    using assms(3) bc_inv_length[OF assms(1)] by (simp add: upd_buf_nth)
  have owns: "owns ?s m c \<longleftrightarrow> (if c = b then m = n else owns s m c)" for m c
    using assms(8,9) by (auto simp: owns_def nth)
  have nob: "\<not> owns s n c" if "c < NBUF" for c using assms(2) that by (simp add: owner_None_iff)
  have uniq: "c = d" if "c < NBUF" "d < NBUF" "owns ?s m c" "owns ?s m d" for m c d
    using that nob bc_inv_unique[OF assms(1), of c d m] unfolding owns by (auto split: if_splits)
  have ow: "owner ?s m = Some c \<longleftrightarrow> c < NBUF \<and> owns ?s m c" for m c
    unfolding owner_def using uniq by (subst find_unique) auto
  then show on: "owner ?s n = Some b" using assms(3) by (simp add: owns)
  have ne: "owner ?s m = (if owner s m = Some b then None else owner s m)" if "m \<noteq> n" for m
  proof (cases "owner ?s m")
    case None
    then have "c = b" if "owner s m = Some c" for c
      using owner_SomeD[OF that] unfolding owner_None_iff owns by (auto split: if_splits)
    with None show ?thesis by (cases "owner s m") auto
  next
    case (Some c)
    then have "c < NBUF" "owns ?s m c" using ow by auto
    then have "owner s m = Some c" "c \<noteq> b" using owner_Some_iff[OF assms(1)] that by (auto simp: owns split: if_splits)
    with Some show ?thesis by simp
  qed
  have ok: "buf_ok (disk s) (bufs s ! b)" using assms(1,3) by (simp add: bc_inv_def)
  have old: "blk s m = disk s m" "refs s m = 0" "lkd s m = None" if "owner s m = Some b" for m
    using ok owner_SomeD[OF that] that assms(4,5) 
    by (auto simp: blk_def refs_def lkd_def holder_def buf_ok_def owns_def)
  show "owner ?s m = Some c" if "owner s m = Some c" "refs s m \<noteq> 0" for m c
    using that old(2)[of m] ne[of m] assms(2) by (cases "m = n") auto
  show "bc_inv ?s" if "buf_ok (disk s) (f (bufs s ! b))"
    using assms(1) that lru_upd[of s _ b f] assms(3,6,7) uniq unfolding bc_inv_def by (auto simp: nth)
  show "blk ?s = (blk s)(n := b_data (f (bufs s ! b)))"
  proof
    fix m show "blk ?s m = ((blk s)(n := b_data (f (bufs s ! b)))) m"
      using on ne[of m] old(1)[of m] by (cases "m = n") (auto simp: blk_def nth split: option.split)
  qed
  show "refs ?s = (refs s)(n := b_refcnt (f (bufs s ! b)))"
  proof
    fix m show "refs ?s m = ((refs s)(n := b_refcnt (f (bufs s ! b)))) m"
      using on ne[of m] old(2)[of m] by (cases "m = n") (auto simp: refs_def nth split: option.split)
  qed
  show "lkd ?s = (lkd s)(n := holder (b_lock (f (bufs s ! b))))"
  proof
    fix m show "lkd ?s m = ((lkd s)(n := holder (b_lock (f (bufs s ! b))))) m"
      using on ne[of m] old(3)[of m] by (cases "m = n") (auto simp: lkd_def nth split: option.split)
  qed
qed

section \<open>What the operations do\<close>

lemma upd_buf_upd_buf [simp]: "upd_buf b f (upd_buf b g s) = upd_buf b (\<lambda>x. f (g x)) s"
proof (cases "b < length (bufs s)")
  case True
  then show ?thesis by (simp add: upd_buf_def)
next
  case False
  then show ?thesis by (simp add: upd_buf_def list_update_beyond)
qed

lemma upd_buf_held [simp]: "upd_buf b f (s\<lparr>held := h\<rparr>) = (upd_buf b f s)\<lparr>held := h\<rparr>"
  by (simp add: upd_buf_def)

lemma set_sl_buf: "set_sl (SlBuf b) v s = upd_buf b (\<lambda>x. x\<lparr>b_lock := v\<rparr>) s"
  by (simp add: set_sl_def)

lemma view_held [simp]:
  "bc_inv (s\<lparr>held := h\<rparr>) = bc_inv s" "owner (s\<lparr>held := h\<rparr>) = owner s"
  by (auto simp: bc_inv_def lru_def owns_def[abs_def] owner_def fun_eq_iff)

lemma held_same [simp]: "held s = h \<Longrightarrow> s\<lparr>held := h\<rparr> = s"
  by auto

declare bget_cached.simps [simp del] bget_unused.simps [simp del]

text \<open>The single change that \<open>bget\<close> and \<open>bread\<close> make, on a hit and on a miss.\<close>

lemma bget_hit:
  assumes "bc_inv s" "bio_ctx s" "owner s n = Some b" "lkd s n = None"
  shows "bget ROOTDEV n s = Inr (b, upd_buf b (\<lambda>x. x\<lparr>b_refcnt := b_refcnt x + 1,
    b_lock := \<lparr>sl_locked = True, sl_pid = mypid s\<rparr>\<rparr>) s)"
proof -
  let ?u = "upd_buf b (\<lambda>x. x\<lparr>b_refcnt := b_refcnt x + 1\<rparr>) s"
  obtain p where p: "curproc s = Some p" using assms(2) by (auto simp: bio_ctx_def)
  have b: "b < length (bufs s)" using owner_SomeD[OF assms(3)] bc_inv_length[OF assms(1)] by simp
  have "acquiresleep (SlBuf b) ?u =
      Inr (set_sl (SlBuf b) \<lparr>sl_locked = True, sl_pid = p_pid (procs ?u ! p)\<rparr> ?u)"
    using assms p b by (intro acquiresleep_eq)
      (auto simp: bio_ctx_def get_sl_def upd_buf_nth lkd_def holder_def split: if_splits)
  moreover have "bget_cached (NBUF + 1) ROOTDEV n (nxt s NBUF) (s\<lparr>held := h\<rparr>) = Inr (owner s n)" for h
    using bget_cached_owner[of "s\<lparr>held := h\<rparr>" n] assms(1) by simp
  ultimately show ?thesis
    using assms p by (simp add: bget_def bio_ctx_def set_sl_buf mypid_def insert_absorb)
qed

lemma bget_miss:
  assumes "bc_inv s" "bio_ctx s" "settled s" "owner s n = None" "\<exists>b<NBUF. b_refcnt (bufs s ! b) = 0"
  shows "\<exists>b<NBUF. b_refcnt (bufs s ! b) = 0 \<and> \<not> sl_locked (b_lock (bufs s ! b)) \<and>
    bget ROOTDEV n s = Inr (b, upd_buf b (\<lambda>x. x\<lparr>b_dev := ROOTDEV, b_blockno := n, b_valid := False,
      b_refcnt := 1, b_lock := \<lparr>sl_locked = True, sl_pid = mypid s\<rparr>\<rparr>) s)"
proof -
  obtain p where p: "curproc s = Some p" using assms(2) by (auto simp: bio_ctx_def)
  obtain b where b: "b < NBUF" "b_refcnt (bufs s ! b) = 0"
    and un: "bget_unused (NBUF + 1) (prv s NBUF) (s\<lparr>held := insert BcacheLk (held s)\<rparr>) = Inr (Some b)"
    using bget_unused_free[of "s\<lparr>held := insert BcacheLk (held s)\<rparr>"] assms(1,5) by auto
  have ok: "buf_ok (disk s) (bufs s ! b)" using assms(1) b by (simp add: bc_inv_def)
  have ul: "\<not> sl_locked (b_lock (bufs s ! b))"
  proof (cases "b_dev (bufs s ! b) = ROOTDEV")
    case True
    then have "owner s (b_blockno (bufs s ! b)) = Some b"
      using b owner_Some_iff[OF assms(1)] by (simp add: owns_def)
    moreover from this have "lkd s (b_blockno (bufs s ! b)) = None"
      using assms(3) b by (simp add: settled_def refs_def)
    ultimately show ?thesis by (auto simp: lkd_def holder_def split: if_splits)
  qed (use ok in \<open>simp add: buf_ok_def\<close>)
  let ?u = "upd_buf b (\<lambda>x. x\<lparr>b_dev := ROOTDEV, b_blockno := n, b_valid := False, b_refcnt := 1\<rparr>) s"
  have "acquiresleep (SlBuf b) ?u =
      Inr (set_sl (SlBuf b) \<lparr>sl_locked = True, sl_pid = p_pid (procs ?u ! p)\<rparr> ?u)"
    using assms p b ul bc_inv_length[OF assms(1)] by (intro acquiresleep_eq)
      (auto simp: bio_ctx_def get_sl_def upd_buf_nth)
  moreover have "bget_cached (NBUF + 1) ROOTDEV n (nxt s NBUF) (s\<lparr>held := h\<rparr>) = Inr None" for h
    using bget_cached_owner[of "s\<lparr>held := h\<rparr>" n] assms(1,4) by simp
  ultimately show ?thesis
    using assms p b ul un by (intro exI[of _ b]) (simp add: bget_def bio_ctx_def set_sl_buf mypid_def insert_absorb)
qed

lemma busy_room:
  assumes "bc_inv s" "card (busy s) < NBUF"
  shows "\<exists>b<NBUF. b_refcnt (bufs s ! b) = 0"
proof (rule ccontr)
  assume "\<not> ?thesis"
  then have nz: "b_refcnt (bufs s ! b) \<noteq> 0" if "b < NBUF" for b using that by auto
  let ?f = "\<lambda>b. b_blockno (bufs s ! b)"
  have own: "owner s (?f b) = Some b" if "b < NBUF" for b
  proof -
    have "buf_ok (disk s) (bufs s ! b)" using assms(1) that by (simp add: bc_inv_def)
    then have "owns s (?f b) b" using nz[OF that] by (simp add: buf_ok_def owns_def split: if_splits)
    then show ?thesis using that by (simp add: owner_Some_iff[OF assms(1)])
  qed
  have inj: "inj_on ?f {0..<NBUF}"
    by (rule inj_on_inverseI[of _ "\<lambda>n. the (owner s n)"]) (simp add: own)
  have sub: "?f ` {0..<NBUF} \<subseteq> busy s"
  proof (rule image_subsetI)
    fix b assume "b \<in> {0..<NBUF}"
    then show "?f b \<in> busy s" using nz[of b] own[of b] by (simp add: busy_def refs_def)
  qed
  have "finite (busy s)" by (rule finite)
  then have "card (?f ` {0..<NBUF}) \<le> card (busy s)" using sub by (rule card_mono)
  then show False using assms(2) card_image[OF inj] by simp
qed

text \<open>
  \<open>bread\<close> returns the buffer of the block, locked by the caller, with the block's contents; the
  contents of no block change. It succeeds when the block's buffer is not locked and either the
  block is cached or fewer than \<open>NBUF\<close> blocks are in use.
\<close>

definition bread_post :: "u32 \<Rightarrow> kernel \<Rightarrow> nat \<Rightarrow> kernel \<Rightarrow> bool" where
  "bread_post n s b s' \<longleftrightarrow> s' = s\<lparr>bufs := bufs s'\<rparr> \<and> bc_inv s' \<and> owner s' n = Some b \<and>
     blk s' = blk s \<and> refs s' = (refs s)(n := refs s n + 1) \<and> lkd s' = (lkd s)(n := Some (mypid s)) \<and>
     (\<forall>m c. owner s m = Some c \<longrightarrow> refs s m \<noteq> 0 \<longrightarrow> owner s' m = Some c)"

lemma disk_rw_read:
  assumes "VdiskLk \<notin> held s" "b < length (bufs s)"
  shows "disk_rw b False s = Inr (upd_buf b (\<lambda>x. x\<lparr>b_data := disk s (b_blockno x), b_disk := False\<rparr>) s)"
  using assms by (simp add: disk_rw_def Let_def upd_buf_def)

lemma bread_hit:
  assumes "bc_inv s" "bio_ctx s" "owner s n = Some b" "lkd s n = None" "refs s n + 1 \<noteq> 0"
  shows "\<exists>s'. bread ROOTDEV n s = Inr (b, s') \<and> bread_post n s b s'"
proof -
  let ?f = "\<lambda>x. x\<lparr>b_refcnt := b_refcnt x + 1, b_lock := \<lparr>sl_locked = True, sl_pid = mypid s\<rparr>\<rparr>"
  have b: "b < NBUF" "owns s n b" using owner_SomeD[OF assms(3)] by auto
  have ok: "buf_ok (disk s) (bufs s ! b)" using assms(1) b by (simp add: bc_inv_def)
  have v: "b_valid (bufs (upd_buf b ?f s) ! b)"
    using ok b bc_inv_length[OF assms(1)] by (simp add: upd_buf_nth buf_ok_def owns_def)
  have br: "bread ROOTDEV n s = Inr (b, upd_buf b ?f s)"
    using v by (simp add: bread_def bget_hit[OF assms(1-4)])
  have ref: "b_refcnt (bufs s ! b) = refs s n" using assms(3) by (simp add: refs_def)
  have dat: "b_data (bufs s ! b) = blk s n" using assms(3) by (simp add: blk_def)
  have ok': "buf_ok (disk s) (?f (bufs s ! b))" using ok b assms(5) ref by (simp add: buf_ok_def owns_def)
  have dev: "b_dev (?f (bufs s ! b)) = ROOTDEV" "b_blockno (?f (bufs s ! b)) = n"
    using b by (simp_all add: owns_def)
  note u = bc_upd[where f = ?f, OF assms(1,3) _ _ dev]
  have "bread_post n s b (upd_buf b ?f s)"
    unfolding bread_post_def using assms(3) u(2)[OF _ _ ok']
    by (simp add: u(1,3-5) ref dat holder_def) (simp add: upd_buf_def)
  then show ?thesis using br by blast
qed

lemma bread_miss:
  assumes "bc_inv s" "bio_ctx s" "settled s" "owner s n = None" "card (busy s) < NBUF"
  shows "\<exists>b s'. bread ROOTDEV n s = Inr (b, s') \<and> bread_post n s b s'"
proof -
  obtain b where b: "b < NBUF" "b_refcnt (bufs s ! b) = 0" "\<not> sl_locked (b_lock (bufs s ! b))"
    and bg: "bget ROOTDEV n s = Inr (b, upd_buf b (\<lambda>x. x\<lparr>b_dev := ROOTDEV, b_blockno := n,
      b_valid := False, b_refcnt := 1, b_lock := \<lparr>sl_locked = True, sl_pid = mypid s\<rparr>\<rparr>) s)"
      (is "_ = Inr (b, ?u)")
    using bget_miss[OF assms(1-4)] busy_room[OF assms(1,5)] by blast
  let ?f = "\<lambda>x. x\<lparr>b_dev := ROOTDEV, b_blockno := n, b_refcnt := 1,
    b_lock := \<lparr>sl_locked = True, sl_pid = mypid s\<rparr>, b_data := disk s n, b_disk := False, b_valid := True\<rparr>"
  have len: "b < length (bufs s)" using b bc_inv_length[OF assms(1)] by simp
  have "VdiskLk \<notin> held ?u" using assms(2) by (simp add: bio_ctx_def)
  then have br: "bread ROOTDEV n s = Inr (b, upd_buf b ?f s)"
    using len by (simp add: bread_def bg disk_rw_read upd_buf_nth)
  have ok': "buf_ok (disk s) (?f (bufs s ! b))" by (simp add: buf_ok_def)
  note u = bc_recycle[OF assms(1,4) b, of ?f]
  have "bread_post n s b (upd_buf b ?f s)"
    unfolding bread_post_def using assms(4) u(2)[OF _ _ _ _ ok'] u(6)
    by (simp add: u(1,3-5) holder_def fun_upd_idem refs_def[of _ n] blk_def[of _ n]) (simp add: upd_buf_def)
  then show ?thesis using br by blast
qed

lemma bread_ok:
  assumes "bc_inv s" "bio_ctx s" "settled s" "lkd s n = None" "refs s n + 1 \<noteq> 0"
    and "refs s n \<noteq> 0 \<or> card (busy s) < NBUF"
  shows "\<exists>b s'. bread ROOTDEV n s = Inr (b, s') \<and> bread_post n s b s'"
proof (cases "owner s n")
  case None
  then have "refs s n = 0" by (simp add: refs_def)
  with None show ?thesis using bread_miss assms by blast
next
  case (Some b)
  then show ?thesis using bread_hit assms by blast
qed

text \<open>The caller of \<open>bread\<close> changes the data of a buffer it holds.\<close>

definition bset :: "nat \<Rightarrow> (bytes \<Rightarrow> bytes) \<Rightarrow> kernel \<Rightarrow> kernel" where
  "bset b g s = upd_buf b (\<lambda>x. x\<lparr>b_data := g (b_data x)\<rparr>) s"

lemma owner_fields:
  assumes "owner s n = Some b"
  shows "b_refcnt (bufs s ! b) = refs s n" "b_data (bufs s ! b) = blk s n"
    "holder (b_lock (bufs s ! b)) = lkd s n" "b_dev (bufs s ! b) = ROOTDEV" "b_blockno (bufs s ! b) = n"
    "b < NBUF"
  using assms owner_SomeD[OF assms] by (auto simp: refs_def blk_def lkd_def owns_def)

lemma owner_buf_ok:
  assumes "bc_inv s" "owner s n = Some b"
  shows "b_valid (bufs s ! b)" "refs s n = 0 \<Longrightarrow> blk s n = disk s n"
proof -
  have "buf_ok (disk s) (bufs s ! b)" using assms owner_fields(6) by (auto simp: bc_inv_def)
  then show "b_valid (bufs s ! b)" "refs s n = 0 \<Longrightarrow> blk s n = disk s n"
    using owner_fields[OF assms(2)] by (auto simp: buf_ok_def)
qed

text \<open>An update that keeps the buffer's identity, links and validity.\<close>

lemma bc_keep:
  assumes "bc_inv s" "owner s n = Some b"
    and k: "\<And>x. b_next (f x) = b_next x" "\<And>x. b_prev (f x) = b_prev x" "\<And>x. b_dev (f x) = b_dev x"
      "\<And>x. b_blockno (f x) = b_blockno x" "\<And>x. b_valid (f x) = b_valid x"
    and z: "b_refcnt (f (bufs s ! b)) = 0 \<Longrightarrow> b_data (f (bufs s ! b)) = disk s n"
  shows "bc_inv (upd_buf b f s)" "owner (upd_buf b f s) = owner s"
    "blk (upd_buf b f s) = (blk s)(n := b_data (f (bufs s ! b)))"
    "refs (upd_buf b f s) = (refs s)(n := b_refcnt (f (bufs s ! b)))"
    "lkd (upd_buf b f s) = (lkd s)(n := holder (b_lock (f (bufs s ! b))))"
proof -
  note w = owner_fields[OF assms(2)]
  have ok: "buf_ok (disk s) (f (bufs s ! b))"
    using owner_buf_ok(1)[OF assms(1,2)] w z by (simp add: buf_ok_def k)
  show "bc_inv (upd_buf b f s)" using ok by (intro bc_upd(2)[OF assms(1,2)]) (simp_all add: k w)
  show "owner (upd_buf b f s) = owner s"
    "blk (upd_buf b f s) = (blk s)(n := b_data (f (bufs s ! b)))"
    "refs (upd_buf b f s) = (refs s)(n := b_refcnt (f (bufs s ! b)))"
    "lkd (upd_buf b f s) = (lkd s)(n := holder (b_lock (f (bufs s ! b))))"
    by (rule bc_upd[OF assms(1,2)]; simp add: k w)+
qed

lemma bset_ok:
  assumes "bc_inv s" "owner s n = Some b" "refs s n \<noteq> 0"
  shows "bc_inv (bset b g s)" "owner (bset b g s) = owner s" "blk (bset b g s) = (blk s)(n := g (blk s n))"
    "refs (bset b g s) = refs s" "lkd (bset b g s) = lkd s" "bset b g s = s\<lparr>bufs := bufs (bset b g s)\<rparr>"
    "disk (bset b g s) = disk s"
proof -
  let ?f = "\<lambda>x. x\<lparr>b_data := g (b_data x)\<rparr>"
  note w = owner_fields[OF assms(2)]
  note u = bc_keep[where f = ?f, OF assms(1,2), simplified, simplified w, OF assms(3)[THEN notE],
    folded bset_def]
  show "bc_inv (bset b g s)" "owner (bset b g s) = owner s" "blk (bset b g s) = (blk s)(n := g (blk s n))"
    "refs (bset b g s) = refs s" "lkd (bset b g s) = lkd s"
    using u by simp_all
  show "bset b g s = s\<lparr>bufs := bufs (bset b g s)\<rparr>" "disk (bset b g s) = disk s"
    by (simp_all add: bset_def upd_buf_def)
qed

lemma bufs_cong:
  assumes "bufs t = bufs s"
  shows "owns t = owns s" "owner t = owner s" "refs t = refs s" "lkd t = lkd s"
proof -
  show o: "owns t = owns s" using assms by (simp add: owns_def[abs_def])
  then show ow: "owner t = owner s" by (intro ext) (simp add: owner_def)
  show "refs t = refs s" "lkd t = lkd s"
    by (intro ext; simp add: refs_def lkd_def ow assms split: option.split)+
qed

lemma view_cong:
  assumes "bufs t = bufs s" "disk t = disk s"
  shows "bc_inv t = bc_inv s" "owner t = owner s" "blk t = blk s" "refs t = refs s" "lkd t = lkd s"
    "settled t = settled s" "busy t = busy s"
proof -
  note c = bufs_cong[OF assms(1)]
  show "bc_inv t = bc_inv s" unfolding bc_inv_def c using assms by (simp add: lru_def[abs_def])
  show "blk t = blk s" by (rule ext) (simp add: blk_def c assms split: option.split)
  show "owner t = owner s" "refs t = refs s" "lkd t = lkd s" "settled t = settled s" "busy t = busy s"
    by (simp_all add: c settled_def busy_def)
qed

text \<open>\<open>bwrite\<close> writes the block's contents to the disk; nothing else is written.\<close>

lemma bwrite_ok:
  assumes "bc_inv s" "bio_ctx s" "owner s n = Some b" "lkd s n = Some (mypid s)"
  shows "\<exists>s'. bwrite b s = Inr s' \<and> bc_inv s' \<and> owner s' = owner s \<and> blk s' = blk s \<and> refs s' = refs s \<and>
    lkd s' = lkd s \<and> s' = s\<lparr>bufs := bufs s', disk := (disk s)(n := blk s n), wtrace := wtrace s @ [(n, blk s n)]\<rparr>"
proof -
  let ?f = "\<lambda>x. x\<lparr>b_disk := False\<rparr>"
  let ?d = "s\<lparr>disk := (disk s)(n := blk s n), wtrace := wtrace s @ [(n, blk s n)]\<rparr>"
  note w = owner_fields[OF assms(3)]
  obtain p where p: "curproc s = Some p" using assms(2) by (auto simp: bio_ctx_def)
  have "holdingsleep (SlBuf b) s = Inr (True, s)"
    using assms(2,4) p w(3) holdingsleep_eq[of "SlBuf b" s p]
    by (auto simp: bio_ctx_def get_sl_def holder_def mypid_def split: if_splits)
  then have eq: "bwrite b s = Inr (upd_buf b ?f ?d)"
    using assms(2) w by (simp add: bwrite_def disk_rw_def bio_ctx_def Let_def) (simp add: upd_buf_def)
  have own: "owns ?d = owns s" and ow: "owner ?d = owner s" and v: "refs ?d = refs s" "lkd ?d = lkd s"
    by (rule bufs_cong; simp)+
  have vb: "blk ?d = blk s"
  proof
    fix m show "blk ?d m = blk s m" using assms(3) w(2) by (simp add: blk_def[of ?d] ow) (simp add: blk_def split: option.split)
  qed
  have ok: "buf_ok (disk ?d) (bufs s ! c)" if "c < NBUF" for c
  proof (cases "b_dev (bufs s ! c) = ROOTDEV \<and> b_blockno (bufs s ! c) = n")
    case True
    then have "c = b" using bc_inv_unique[OF assms(1) that w(6), of n] w by (simp add: owns_def)
    then show ?thesis using w owner_buf_ok(1)[OF assms(1,3)] by (simp add: buf_ok_def)
  next
    case False
    moreover have "buf_ok (disk s) (bufs s ! c)" using assms(1) that by (simp add: bc_inv_def)
    ultimately show ?thesis by (auto simp: buf_ok_def)
  qed
  have inv: "bc_inv ?d" using assms(1) ok unfolding bc_inv_def own by (simp add: lru_def[abs_def])
  have od: "owner ?d n = Some b" using assms(3) ow by simp
  have "b_refcnt (bufs s ! b) = 0 \<Longrightarrow> b_data (bufs s ! b) = disk ?d n" using w by simp
  note u = bc_keep[where f = ?f, OF inv od, simplified, simplified w, simplified]
  have "bc_inv (upd_buf b ?f ?d)" "owner (upd_buf b ?f ?d) = owner s" "blk (upd_buf b ?f ?d) = blk s"
      "refs (upd_buf b ?f ?d) = refs s" "lkd (upd_buf b ?f ?d) = lkd s"
    using u by (simp_all add: ow v vb)
  then show ?thesis unfolding eq by (intro exI[of _ "upd_buf b ?f ?d"]) (simp add: upd_buf_def)
qed

text \<open>
  \<open>brelse\<close> unlocks the buffer and drops a reference. The last reference may only be dropped when
  the disk already has the block's contents.
\<close>

lemma view_lru_push:
  assumes "bc_inv s" "b < NBUF"
  shows "bc_inv (lru_push b (lru_unlink b s))" "owner (lru_push b (lru_unlink b s)) = owner s"
    "blk (lru_push b (lru_unlink b s)) = blk s" "refs (lru_push b (lru_unlink b s)) = refs s"
    "lkd (lru_push b (lru_unlink b s)) = lkd s"
proof -
  let ?t = "lru_push b (lru_unlink b s)"
  have c: "same_core s ?t" by (intro lru_push_same_core lru_unlink_same_core)
  note f = same_core_fields[OF c]
  have d: "disk ?t = disk s" by (simp add: lru_push_def lru_unlink_def Let_def)
  have o: "owns ?t = owns s" by (intro ext) (simp add: owns_def f)
  then show ow: "owner ?t = owner s" by (intro ext) (simp add: owner_def)
  show "blk ?t = blk s" "refs ?t = refs s" "lkd ?t = lkd s"
    by (rule ext; simp add: blk_def refs_def lkd_def ow d f split: option.split)+
  obtain xs where xs: "lru s xs" using assms(1) by (auto simp: bc_inv_def)
  have "lru ?t (b # remove1 b xs)" using xs assms(2) by (intro lru_move_front) (auto simp: lru_def)
  moreover have "buf_ok (disk ?t) (bufs ?t ! c)" if "c < NBUF" for c
    using assms(1) that by (simp add: bc_inv_def buf_ok_def f d)
  ultimately show "bc_inv ?t" using assms(1) unfolding bc_inv_def o by blast
qed

definition brelse_post :: "u32 \<Rightarrow> kernel \<Rightarrow> kernel \<Rightarrow> bool" where
  "brelse_post n s s' \<longleftrightarrow> s' = s\<lparr>bufs := bufs s', procs := procs s'\<rparr> \<and> woken (procs s) (procs s') \<and>
     bc_inv s' \<and> owner s' = owner s \<and> blk s' = blk s \<and> refs s' = (refs s)(n := refs s n - 1) \<and>
     lkd s' = (lkd s)(n := None)"

lemma brelse_eq:
  assumes "bio_ctx s" "owner s n = Some b" "lkd s n = Some (mypid s)" "length (bufs s) = NBUF + 1"
  defines "t \<equiv> upd_buf b (\<lambda>x. x\<lparr>b_lock := \<lparr>sl_locked = False, sl_pid = 0\<rparr>, b_refcnt := b_refcnt x - 1\<rparr>)
    (s\<lparr>procs := map (wake1 (ChSleep (SlBuf b))) (procs s)\<rparr>)"
  shows "brelse b s = Inr (if refs s n = 1 then lru_push b (lru_unlink b t) else t)"
proof -
  note w = owner_fields[OF assms(2)]
  obtain p where p: "curproc s = Some p" using assms(1) by (auto simp: bio_ctx_def)
  have h: "holdingsleep (SlBuf b) s = Inr (True, s)"
    using assms(1,3) p w(3) holdingsleep_eq[of "SlBuf b" s p]
    by (auto simp: bio_ctx_def get_sl_def holder_def mypid_def split: if_splits)
  let ?u = "(upd_buf b (\<lambda>x. x\<lparr>b_lock := \<lparr>sl_locked = False, sl_pid = 0\<rparr>\<rparr>) s)
    \<lparr>procs := map (wake1 (ChSleep (SlBuf b))) (procs s)\<rparr>"
  have r: "releasesleep (SlBuf b) s = Inr ?u"
    using assms(1) releasesleep_eq[of "SlBuf b" s] by (simp add: bio_ctx_def set_sl_buf)
  have t: "upd_buf b (\<lambda>x. x\<lparr>b_refcnt := b_refcnt x - 1\<rparr>) ?u = t"
    using w(6) assms(4) by (simp add: t_def upd_buf_def)
  have z: "b_refcnt (bufs t ! b) = refs s n - 1"
    using w(1,6) assms(4) by (simp add: t_def upd_buf_nth)
  have lk: "held t = held s" "BcacheLk \<notin> held s"
    using assms(1) by (simp_all add: t_def bio_ctx_def)
  have z': "refs s n - 1 = 0 \<longleftrightarrow> refs s n = 1" by simp
  have hl: "\<And>h. lru_push b (lru_unlink b (t\<lparr>held := h\<rparr>)) = (lru_push b (lru_unlink b t))\<lparr>held := h\<rparr>"
    "held (lru_push b (lru_unlink b t)) = held t"
    by (simp_all add: lru_push_def lru_unlink_def Let_def upd_buf_def)
  have "acquire BcacheLk ?u = Inr (?u\<lparr>held := insert BcacheLk (held s)\<rparr>)"
    using lk by simp
  moreover have "upd_buf b (\<lambda>x. x\<lparr>b_refcnt := b_refcnt x - 1\<rparr>) (?u\<lparr>held := insert BcacheLk (held s)\<rparr>)
      = t\<lparr>held := insert BcacheLk (held s)\<rparr>"
    unfolding t[symmetric] by simp
  ultimately show ?thesis
    unfolding brelse_def h r bindE_Inr prod.case Let_def
    using lk z z' hl by simp
qed

lemma if_rule: "P y \<Longrightarrow> P x \<Longrightarrow> P (if c then x else y)"
  by simp

lemma brelse_ok:
  assumes "bc_inv s" "bio_ctx s" "owner s n = Some b" "lkd s n = Some (mypid s)"
    and "refs s n = 1 \<Longrightarrow> blk s n = disk s n"
  shows "\<exists>s'. brelse b s = Inr s' \<and> brelse_post n s s'"
proof -
  let ?p = "s\<lparr>procs := map (wake1 (ChSleep (SlBuf b))) (procs s)\<rparr>"
  let ?f = "\<lambda>x. x\<lparr>b_lock := \<lparr>sl_locked = False, sl_pid = 0\<rparr>, b_refcnt := b_refcnt x - 1\<rparr>"
  let ?t = "upd_buf b ?f ?p"
  note w = owner_fields[OF assms(3)]
  have c: "bc_inv ?p" "owner ?p = owner s" "blk ?p = blk s" "refs ?p = refs s" "lkd ?p = lkd s"
    using assms(1) view_cong[of ?p s] by simp_all
  have op: "owner ?p n = Some b" using c assms(3) by simp
  note u = bc_keep[where f = ?f, OF c(1) op, simplified, simplified w]
  have t: "bc_inv ?t" "owner ?t = owner s" "blk ?t = blk s" "refs ?t = (refs s)(n := refs s n - 1)"
      "lkd ?t = (lkd s)(n := None)"
    using u assms(5) by (simp_all add: c holder_def)
  have f: "?t = s\<lparr>bufs := bufs ?t, procs := procs ?t\<rparr>" "woken (procs s) (procs ?t)"
    by (simp_all add: upd_buf_def)
  let ?l = "lru_push b (lru_unlink b ?t)"
  note l = view_lru_push[OF t(1) w(6)]
  have f': "?l = s\<lparr>bufs := bufs ?l, procs := procs ?l\<rparr>" "woken (procs s) (procs ?l)"
    using lru_move_frame[where b = b and s = s and A = "bufs ?t" and P = "procs ?t", folded f(1)] f(2) by (auto simp del: upd_buf_simps)
  have "brelse_post n s ?t" unfolding brelse_post_def by (intro conjI f t)
  moreover have "brelse_post n s ?l" unfolding brelse_post_def l(2-5) by (intro conjI f' t l(1))
  ultimately have "brelse_post n s (if refs s n = 1 then ?l else ?t)" by (rule if_rule)
  then show ?thesis unfolding brelse_eq[OF assms(2-4) bc_inv_length[OF assms(1)]] by blast
qed

text \<open>\<open>bpin\<close> and \<open>bunpin\<close> change the reference count only.\<close>

lemma bpin_ok:
  assumes "bc_inv s" "BcacheLk \<notin> held s" "owner s n = Some b" "refs s n + 1 \<noteq> 0"
  shows "\<exists>s'. bpin b s = Inr s' \<and> s' = s\<lparr>bufs := bufs s'\<rparr> \<and> bc_inv s' \<and> owner s' = owner s \<and>
    blk s' = blk s \<and> refs s' = (refs s)(n := refs s n + 1) \<and> lkd s' = lkd s"
proof -
  let ?f = "\<lambda>x. x\<lparr>b_refcnt := b_refcnt x + 1\<rparr>"
  let ?t = "upd_buf b ?f s"
  note w = owner_fields[OF assms(3)]
  note u = bc_keep[where f = ?f, OF assms(1,3), simplified, simplified w]
  have "bpin b s = Inr ?t" using assms(2) by (simp add: bpin_def)
  moreover have "bc_inv ?t" "owner ?t = owner s" "blk ?t = blk s"
      "refs ?t = (refs s)(n := refs s n + 1)" "lkd ?t = lkd s"
    using u assms(4) by simp_all
  moreover have "?t = s\<lparr>bufs := bufs ?t\<rparr>" by (simp add: upd_buf_def)
  ultimately show ?thesis by blast
qed

lemma bunpin_ok:
  assumes "bc_inv s" "BcacheLk \<notin> held s" "owner s n = Some b" "refs s n = 1 \<Longrightarrow> blk s n = disk s n"
  shows "\<exists>s'. bunpin b s = Inr s' \<and> s' = s\<lparr>bufs := bufs s'\<rparr> \<and> bc_inv s' \<and> owner s' = owner s \<and>
    blk s' = blk s \<and> refs s' = (refs s)(n := refs s n - 1) \<and> lkd s' = lkd s"
proof -
  let ?f = "\<lambda>x. x\<lparr>b_refcnt := b_refcnt x - 1\<rparr>"
  let ?t = "upd_buf b ?f s"
  note w = owner_fields[OF assms(3)]
  note u = bc_keep[where f = ?f, OF assms(1,3), simplified, simplified w]
  have "bunpin b s = Inr ?t" using assms(2) by (simp add: bunpin_def)
  moreover have "bc_inv ?t" "owner ?t = owner s" "blk ?t = blk s"
      "refs ?t = (refs s)(n := refs s n - 1)" "lkd ?t = lkd s"
    using u assms(4) by simp_all
  moreover have "?t = s\<lparr>bufs := bufs ?t\<rparr>" by (simp add: upd_buf_def)
  ultimately show ?thesis by blast
qed

section \<open>Initialisation\<close>

definition fresh_bufs :: "kernel \<Rightarrow> bool" where
  "fresh_bufs s \<longleftrightarrow> length (bufs s) = NBUF + 1 \<and> (\<forall>i\<le>NBUF. core (bufs s ! i) = core buf0)"

lemma fresh_upd:
  assumes "fresh_bufs s" "\<And>x. core x = core buf0 \<Longrightarrow> core (f x) = core buf0"
  shows "fresh_bufs (upd_buf i f s)"
proof (cases "i < length (bufs s)")
  case True
  then show ?thesis using assms by (simp add: fresh_bufs_def upd_buf_nth)
next
  case False
  then show ?thesis using assms by (simp add: fresh_bufs_def upd_buf_def list_update_beyond)
qed

lemma core_lock_fresh: "core x = core buf0 \<Longrightarrow> core (x\<lparr>b_lock := \<lparr>sl_locked = False, sl_pid = 0\<rparr>\<rparr>) = core buf0"
proof -
  assume c: "core x = core buf0"
  then have "b_lock x = \<lparr>sl_locked = False, sl_pid = 0\<rparr>"
    using core_eqD(5)[OF c] by (simp add: buf0_def sleeplock0_def)
  then have "x\<lparr>b_lock := \<lparr>sl_locked = False, sl_pid = 0\<rparr>\<rparr> = x" by simp
  with c show ?thesis by simp
qed

lemma fresh_same_core: "fresh_bufs s \<Longrightarrow> same_core s t \<Longrightarrow> fresh_bufs t"
  by (simp add: fresh_bufs_def same_core_def)

lemma binit_step:
  assumes "fresh_bufs s" "dlist (nxt s) (prv s) NBUF (rev [0..<k]) NBUF" "k < NBUF"
  defines "t \<equiv> lru_push k (initsleeplock (SlBuf k) s)"
  shows "fresh_bufs t \<and> dlist (nxt t) (prv t) NBUF (rev [0..<Suc k]) NBUF \<and> disk t = disk s"
proof -
  let ?u = "initsleeplock (SlBuf k) s"
  have u: "?u = upd_buf k (\<lambda>x. x\<lparr>b_lock := \<lparr>sl_locked = False, sl_pid = 0\<rparr>\<rparr>) s"
    by (simp add: initsleeplock_def set_sl_buf)
  have len: "length (bufs s) = NBUF + 1" using assms(1) by (simp add: fresh_bufs_def)
  have links: "nxt ?u = nxt s" "prv ?u = prv s" and lenu: "length (bufs ?u) = NBUF + 1"
    using len assms(3) by (auto simp: u upd_buf_nth fun_eq_iff)
  have fr: "fresh_bufs ?u" unfolding u by (rule fresh_upd[OF assms(1) core_lock_fresh])
  then have "fresh_bufs t" unfolding t_def using lru_push_same_core[OF same_core_refl] by (rule fresh_same_core)
  moreover have "nxt s NBUF < NBUF + 1" using dlist_nx[OF assms(2)] assms(3) by (cases k) auto
  then have "nxt t = (nxt s)(k := nxt s NBUF, NBUF := k)" "prv t = (prv s)(k := NBUF, nxt s NBUF := k)"
    unfolding t_def using lru_push_links[of ?u k] assms(3) fun_cong[OF links(1), of NBUF]
    by (simp_all add: lenu links)
  moreover have "dlist ((nxt s)(k := nxt s NBUF, NBUF := k)) ((prv s)(k := NBUF, nxt s NBUF := k)) NBUF
      (k # rev [0..<k]) NBUF"
    using assms(2,3) by (intro dlist_push) auto
  moreover have "disk t = disk s" by (simp add: t_def u lru_push_def Let_def)
  ultimately show ?thesis by simp
qed

text \<open>After \<open>binit\<close> on zeroed buffers the cache is empty and agrees with the disk.\<close>

lemma binit_fresh:
  assumes "fresh_bufs s"
  shows "fresh_bufs (binit s)" "dlist (nxt (binit s)) (prv (binit s)) NBUF (rev [0..<NBUF]) NBUF" "disk (binit s) = disk s"
proof -
  let ?h = "upd_buf NBUF (\<lambda>x. x\<lparr>b_next := NBUF\<rparr>) (upd_buf NBUF (\<lambda>x. x\<lparr>b_prev := NBUF\<rparr>) s)"
  let ?F = "\<lambda>k. fold (\<lambda>b s. lru_push b (initsleeplock (SlBuf b) s)) [0..<k] ?h"
  have "k \<le> NBUF \<Longrightarrow> fresh_bufs (?F k) \<and> dlist (nxt (?F k)) (prv (?F k)) NBUF (rev [0..<k]) NBUF \<and>
      disk (?F k) = disk s" for k
  proof (induction k)
    case 0
    have "fresh_bufs ?h" using assms by (intro fresh_upd) (auto simp: core_def)
    moreover have "NBUF < length (bufs s)" using assms by (simp add: fresh_bufs_def)
    ultimately show ?case by (simp add: upd_buf_nth)
  next
    case (Suc k)
    then show ?case using binit_step[of "?F k" k] by simp
  qed
  from this[of NBUF] show "fresh_bufs (binit s)" "dlist (nxt (binit s)) (prv (binit s)) NBUF (rev [0..<NBUF]) NBUF" "disk (binit s) = disk s"
    unfolding binit_def Let_def by auto
qed

lemma binit_bc_inv:
  assumes "fresh_bufs s"
  shows "bc_inv (binit s)" "refs (binit s) = (\<lambda>_. 0)" "lkd (binit s) = (\<lambda>_. None)" "blk (binit s) = disk s"
    "disk (binit s) = disk s"
proof -
  note f = binit_fresh(1)[OF assms] and l = binit_fresh(2)[OF assms] and d = binit_fresh(3)[OF assms]
  have "lru (binit s) (rev [0..<NBUF])" using f l by (auto simp: lru_def fresh_bufs_def)
  moreover have c: "b_dev (bufs (binit s) ! b) = 0" "b_refcnt (bufs (binit s) ! b) = 0"
      "\<not> sl_locked (b_lock (bufs (binit s) ! b))" if "b < NBUF" for b
    using f that core_eqD[of "bufs (binit s) ! b" buf0] by (auto simp: fresh_bufs_def buf0_def sleeplock0_def)
  moreover have no: "\<not> owns (binit s) n b" if "b < NBUF" for n b
    using c[OF that] by (simp add: owns_def ROOTDEV_def)
  ultimately show "bc_inv (binit s)" unfolding bc_inv_def buf_ok_def by (auto simp: ROOTDEV_def)
  have "owner (binit s) n = None" for n using no by (simp add: owner_None_iff)
  then show "refs (binit s) = (\<lambda>_. 0)" "lkd (binit s) = (\<lambda>_. None)" "blk (binit s) = disk s"
    using d by (auto simp: refs_def lkd_def blk_def fun_eq_iff)
  show "disk (binit s) = disk s" by (rule d)
qed

lemma fresh_kernel0: "fresh_bufs (kernel0 en et tr sy m d)"
  by (simp add: fresh_bufs_def kernel0_def nth_append del: replicate_Suc)

end
