(* ===== verification/Log.thy ===== *)
theory Log
  imports Bio
begin

text \<open>
  The redo log, \<^verbatim>\<open>kernel/log.c\<close>: \<open>begin_op\<close> and \<open>end_op\<close> bracket file-system calls, \<open>log_write\<close>
  records and pins a modified block, \<open>commit\<close> writes the blocks to the log, then the header,
  then installs them, and \<open>recover_from_log\<close> repeats the installation after a crash.

  The header block holds the count \<^verbatim>\<open>n\<close> and the block numbers as little-endian 32-bit words.
\<close>

section \<open>The operations\<close>

definition upd_log :: "(logst \<Rightarrow> logst) \<Rightarrow> kernel \<Rightarrow> kernel" where
  "upd_log f s = s\<lparr>klog := f (klog s)\<rparr>"

definition install_one :: "nat \<Rightarrow> kernel \<Rightarrow> kstep" where
  "install_one tail s =
     bindE (bread (l_dev (klog s)) (of_int (l_start (klog s) + int tail + 1)) s) (\<lambda>(lbuf, s).
     bindE (bread (l_dev (klog s)) (l_block (klog s) ! tail) s) (\<lambda>(dbuf, s).
       let s = bset dbuf (\<lambda>d. blit d 0 (b_data (bufs s ! lbuf)) 0 BSIZE) s in
       bindE (bwrite dbuf s) (\<lambda>s.
       bindE (bunpin dbuf s) (\<lambda>s.
       bindE (brelse lbuf s) (brelse dbuf)))))"

definition install_trans :: "kernel \<Rightarrow> kstep" where
  "install_trans s = foldE install_one [0..<nat (l_n (klog s))] s"

text \<open>Reading a count above \<^verbatim>\<open>LOGSIZE\<close> would write past the end of \<^verbatim>\<open>log.lh.block\<close>.\<close>

definition read_head :: "kernel \<Rightarrow> kstep" where
  "read_head s =
     bindE (bread (l_dev (klog s)) (of_int (l_start (klog s))) s) (\<lambda>(b, s).
       let d = b_data (bufs s ! b);
           s = upd_log (\<lambda>l. l\<lparr>l_n := sint (load32 d 0)\<rparr>) s in
       bindE (foldE (\<lambda>i s. if i < LOGSIZE
                then Inr (upd_log (\<lambda>l. l\<lparr>l_block := (l_block l)[i := load32 d (4 + 4 * i)]\<rparr>) s)
                else Inl Fault) [0..<nat (l_n (klog s))] s) (brelse b))"

definition write_head :: "kernel \<Rightarrow> kstep" where
  "write_head s =
     bindE (bread (l_dev (klog s)) (of_int (l_start (klog s))) s) (\<lambda>(b, s).
       let s = bset b (\<lambda>d. store32 d 0 (of_int (l_n (klog s)))) s;
           s = fold (\<lambda>i s. bset b (\<lambda>d. store32 d (4 + 4 * i) (l_block (klog s) ! i)) s)
                 [0..<nat (l_n (klog s))] s
       in bindE (bwrite b s) (brelse b))"

definition recover_from_log :: "kernel \<Rightarrow> kstep" where
  "recover_from_log s =
     bindE (read_head s) (\<lambda>s.
     bindE (install_trans s) (\<lambda>s.
       write_head (upd_log (\<lambda>l. l\<lparr>l_n := 0\<rparr>) s)))"

definition initlog :: "u32 \<Rightarrow> superblock \<Rightarrow> kernel \<Rightarrow> kstep" where
  "initlog dev sb s =
     (if 4 + 4 * LOGSIZE \<ge> BSIZE then Inl (Panic ''initlog: too big logheader'')
      else recover_from_log
        (upd_log (\<lambda>l. l\<lparr>l_start := sint (sb_logstart sb), l_size := sint (sb_nlog sb), l_dev := dev\<rparr>) s))"

definition begin_op :: "kernel \<Rightarrow> kstep" where
  "begin_op s =
     bindE (acquire LogLk s) (\<lambda>s.
       if l_committing (klog s) then sleep ChLog LogLk s
       else if l_n (klog s) + (l_outstanding (klog s) + 1) * int MAXOPBLOCKS > int LOGSIZE
         then sleep ChLog LogLk s
       else release LogLk (upd_log (\<lambda>l. l\<lparr>l_outstanding := l_outstanding l + 1\<rparr>) s))"

definition write_log_one :: "nat \<Rightarrow> kernel \<Rightarrow> kstep" where
  "write_log_one tail s =
     bindE (bread (l_dev (klog s)) (of_int (l_start (klog s) + int tail + 1)) s) (\<lambda>(to, s).
     bindE (bread (l_dev (klog s)) (l_block (klog s) ! tail) s) (\<lambda>(from, s).
       let s = bset to (\<lambda>d. blit d 0 (b_data (bufs s ! from)) 0 BSIZE) s in
       bindE (bwrite to s) (\<lambda>s.
       bindE (brelse from s) (brelse to))))"

definition write_log :: "kernel \<Rightarrow> kstep" where
  "write_log s = foldE write_log_one [0..<nat (l_n (klog s))] s"

definition commit :: "kernel \<Rightarrow> kstep" where
  "commit s =
     (if l_n (klog s) > 0 then
        bindE (write_log s) (\<lambda>s.
        bindE (write_head s) (\<lambda>s.
        bindE (install_trans s) (\<lambda>s.
          write_head (upd_log (\<lambda>l. l\<lparr>l_n := 0\<rparr>) s))))
      else Inr s)"

definition end_op :: "kernel \<Rightarrow> kstep" where
  "end_op s =
     bindE (acquire LogLk s) (\<lambda>s.
       let s = upd_log (\<lambda>l. l\<lparr>l_outstanding := l_outstanding l - 1\<rparr>) s in
       if l_committing (klog s) then Inl (Panic ''log.committing'')
       else
         let do_commit = (l_outstanding (klog s) = 0) in
         bindE (if do_commit then Inr (upd_log (\<lambda>l. l\<lparr>l_committing := True\<rparr>) s) else wakeup ChLog s) (\<lambda>s.
         bindE (release LogLk s) (\<lambda>s.
           if do_commit then
             bindE (commit s) (\<lambda>s.
             bindE (acquire LogLk s) (\<lambda>s.
             bindE (wakeup ChLog (upd_log (\<lambda>l. l\<lparr>l_committing := False\<rparr>) s)) (release LogLk)))
           else Inr s)))"

text \<open>The index at which \<open>log_write\<close> records the block: where it already is, or the end.\<close>

fun log_slot :: "u32 list \<Rightarrow> u32 \<Rightarrow> nat \<Rightarrow> nat \<Rightarrow> nat" where
  "log_slot block n i 0 = i"
| "log_slot block n i (Suc k) = (if block ! i = n then i else log_slot block n (Suc i) k)"

definition log_write :: "nat \<Rightarrow> kernel \<Rightarrow> kstep" where
  "log_write b s =
     (if l_n (klog s) \<ge> int LOGSIZE \<or> l_n (klog s) \<ge> l_size (klog s) - 1
        then Inl (Panic ''too big a transaction'')
      else if l_outstanding (klog s) < 1 then Inl (Panic ''log_write outside of trans'')
      else
        bindE (acquire LogLk s) (\<lambda>s.
          let n = b_blockno (bufs s ! b);
              i = log_slot (l_block (klog s)) n 0 (nat (l_n (klog s)));
              s = upd_log (\<lambda>l. l\<lparr>l_block := (l_block l)[i := n]\<rparr>) s in
          bindE (if int i = l_n (klog s)
                 then bindE (bpin b s) (\<lambda>s. Inr (upd_log (\<lambda>l. l\<lparr>l_n := l_n l + 1\<rparr>) s))
                 else Inr s) (release LogLk)))"

end
