(* ===== verification/Kalloc.thy ===== *)
theory Kalloc
  imports Kernel_State
begin

text \<open>
  The physical page allocator, \<^verbatim>\<open>kernel/kalloc.c\<close>. The free list is the linked list the code
  keeps in the free pages themselves: the first eight bytes of a free page are the address of
  the next one. \<open>free_pages\<close> relates memory to the abstract list of free pages; \<open>kalloc\<close> pops
  it, \<open>kfree\<close> pushes onto it, and \<open>kinit\<close> builds it from every page between \<^verbatim>\<open>end\<close> and
  \<^verbatim>\<open>PHYSTOP\<close>. The locale \<open>page_allocator\<close> is the contract the rest of the kernel relies on.
\<close>

section \<open>The operations\<close>

definition kfree :: "u64 \<Rightarrow> kernel \<Rightarrow> kstep" where
  "kfree pa s =
     (if pa mod 4096 \<noteq> 0 \<or> pa < k_end s \<or> pa \<ge> PHYSTOP then Inl (Panic ''kfree'')
      else
        let s = s\<lparr>mem := memset (mem s) (unat pa) 1 PGSIZE\<rparr> in
        bindE (acquire KmemLk s) (\<lambda>s.
          let s = s\<lparr>mem := store64 (mem s) (unat pa) (freelist s)\<rparr>;
              s = s\<lparr>freelist := pa\<rparr>
          in release KmemLk s))"

definition kalloc :: "kernel \<Rightarrow> u64 kres" where
  "kalloc s =
     bindE (acquire KmemLk s) (\<lambda>s.
       let r = freelist s;
           s = (if r \<noteq> 0 then s\<lparr>freelist := load64 (mem s) (unat r)\<rparr> else s)
       in bindE (release KmemLk s) (\<lambda>s.
            Inr (r, if r \<noteq> 0 then s\<lparr>mem := memset (mem s) (unat r) 5 PGSIZE\<rparr> else s)))"

function freerange_from :: "u64 \<Rightarrow> u64 \<Rightarrow> kernel \<Rightarrow> kstep" where
  "freerange_from p pa_end s =
     (if unat p + PGSIZE \<le> unat pa_end
      then bindE (kfree p s) (freerange_from (p + 4096) pa_end)
      else Inr s)"
  by pat_completeness auto
termination
proof (relation "measure (\<lambda>(p, pa_end, s). unat pa_end - unat p)", goal_cases)
  case 1
  then show ?case by simp
next
  case (2 p pa_end s s')
  then have "unat p + 4096 < 2 ^ 64"
    using unat_less_64[of pa_end] by (simp add: PGSIZE_def)
  then have "unat (p + 4096) = unat p + 4096" by (simp add: unat_word_ariths)
  with 2 show ?case by (simp add: PGSIZE_def)
qed

definition freerange :: "u64 \<Rightarrow> u64 \<Rightarrow> kernel \<Rightarrow> kstep" where
  "freerange pa_start pa_end s = freerange_from (PGROUNDUP pa_start) pa_end s"

definition kinit :: "kernel \<Rightarrow> kstep" where
  "kinit s = freerange (k_end s) PHYSTOP s"

declare freerange_from.simps [simp del]

section \<open>The free list in memory\<close>

text \<open>A page \<open>kfree\<close> accepts.\<close>

definition kpage :: "kernel \<Rightarrow> u64 \<Rightarrow> bool" where
  "kpage s pa \<longleftrightarrow> page_aligned pa \<and> k_end s \<le> pa \<and> pa < PHYSTOP \<and> pa \<noteq> 0"

fun flist :: "bytes \<Rightarrow> u64 \<Rightarrow> u64 list \<Rightarrow> bool" where
  "flist m p [] \<longleftrightarrow> p = 0"
| "flist m p (x # xs) \<longleftrightarrow> p = x \<and> x \<noteq> 0 \<and> flist m (load64 m (unat x)) xs"

definition free_pages :: "kernel \<Rightarrow> u64 list \<Rightarrow> bool" where
  "free_pages s xs \<longleftrightarrow> flist (mem s) (freelist s) xs \<and> distinct xs \<and> (\<forall>x\<in>set xs. kpage s x)"

text \<open>The addresses of a page.\<close>

definition in_page :: "u64 \<Rightarrow> nat \<Rightarrow> bool" where
  "in_page p a \<longleftrightarrow> unat p \<le> a \<and> a < unat p + 4096"

lemma in_page_unique:
  assumes "page_aligned p" "page_aligned q" "in_page p a" "in_page q a"
  shows "p = q"
proof (rule ccontr)
  assume "p \<noteq> q"
  from page_aligned_disjoint[OF assms(1,2) this] assms(3,4) show False
    by (auto simp: in_page_def)
qed

lemma flist_frame:
  assumes "\<And>x a. x \<in> set xs \<Longrightarrow> in_page x a \<Longrightarrow> m' a = m a"
  shows "flist m' p xs = flist m p xs"
  using assms
proof (induction xs arbitrary: p)
  case Nil
  then show ?case by simp
next
  case (Cons x xs)
  have "load64 m' (unat x) = load64 m (unat x)"
    using Cons.prems[of x] by (intro load64_cong) (simp add: in_page_def)
  moreover have "flist m' q xs = flist m q xs" for q
    using Cons.prems by (intro Cons.IH) auto
  ultimately show ?case by simp
qed

lemma free_pages_frame:
  assumes "free_pages s xs" "freelist s' = freelist s" "k_end s' = k_end s"
    and "\<And>a. mem s' a \<noteq> mem s a \<Longrightarrow> \<exists>p. page_aligned p \<and> p \<notin> set xs \<and> in_page p a"
  shows "free_pages s' xs"
proof -
  have "mem s' a = mem s a" if "x \<in> set xs" "in_page x a" for x a
  proof (rule ccontr)
    assume ne: "mem s' a \<noteq> mem s a"
    obtain p where p: "page_aligned p" "p \<notin> set xs" "in_page p a" using assms(4)[OF ne] by auto
    have "page_aligned x" using assms(1) that(1) by (simp add: free_pages_def kpage_def)
    then have "p = x" using in_page_unique[OF p(1) _ p(3) that(2)] by simp
    with p(2) that(1) show False by simp
  qed
  then have "flist (mem s') (freelist s) xs = flist (mem s) (freelist s) xs" by (rule flist_frame)
  then show ?thesis using assms by (auto simp: free_pages_def kpage_def)
qed

lemma memset_in_page: "memset m (unat p) c PGSIZE a = (if in_page p a then of_int c else m a)"
  by (simp add: memset_eq in_page_def PGSIZE_def)

section \<open>What the operations do\<close>

lemma kalloc_pop:
  assumes "free_pages s (x # xs)" "KmemLk \<notin> held s"
  shows "kalloc s = Inr (x, s\<lparr>freelist := load64 (mem s) (unat x),
                             mem := memset (mem s) (unat x) 5 PGSIZE\<rparr>)"
  using assms by (simp add: kalloc_def free_pages_def)

lemma kalloc_empty:
  assumes "free_pages s []" "KmemLk \<notin> held s"
  shows "kalloc s = Inr (0, s)"
  using assms by (simp add: kalloc_def free_pages_def)

lemma kalloc_free_pages:
  assumes "free_pages s (x # xs)" "KmemLk \<notin> held s" "kalloc s = Inr (r, s')"
  shows "r = x \<and> free_pages s' xs"
proof -
  note eq = assms(3)[unfolded kalloc_pop[OF assms(1,2)]]
  let ?t = "s\<lparr>freelist := load64 (mem s) (unat x)\<rparr>"
  have "free_pages ?t xs" using assms(1) by (auto simp: free_pages_def kpage_def)
  then have "free_pages s' xs"
  proof (rule free_pages_frame)
    fix a assume "mem s' a \<noteq> mem ?t a"
    then have "in_page x a" using eq by (auto simp: memset_in_page split: if_splits)
    then show "\<exists>p. page_aligned p \<and> p \<notin> set xs \<and> in_page p a"
      using assms(1) by (intro exI[of _ x]) (simp add: free_pages_def kpage_def)
  qed (use eq in auto)
  then show ?thesis using eq by simp
qed

lemma kfree_push:
  assumes "kpage s pa" "KmemLk \<notin> held s"
  shows "kfree pa s = Inr (s\<lparr>freelist := pa,
      mem := store64 (memset (mem s) (unat pa) 1 PGSIZE) (unat pa) (freelist s)\<rparr>)"
  using assms by (simp add: kfree_def kpage_def word_mod_4096 not_less not_le)

lemma kfree_mem:
  assumes "kpage s pa" "KmemLk \<notin> held s" "kfree pa s = Inr s'" "\<not> in_page pa a"
  shows "mem s' a = mem s a"
  using assms(3) unfolding kfree_push[OF assms(1,2)]
  using assms(4) by (auto simp: memset_in_page store64_other in_page_def)

lemma kfree_free_pages:
  assumes "free_pages s xs" "kpage s pa" "pa \<notin> set xs" "KmemLk \<notin> held s" "kfree pa s = Inr s'"
  shows "free_pages s' (pa # xs)"
proof -
  note eq = assms(5)[unfolded kfree_push[OF assms(2,4)]]
  have "flist (mem s') (freelist s) xs = flist (mem s) (freelist s) xs"
  proof (rule flist_frame)
    fix x a assume x: "x \<in> set xs" "in_page x a"
    then have "page_aligned x" using assms(1) by (simp add: free_pages_def kpage_def)
    then have "\<not> in_page pa a" using in_page_unique[of x pa a] assms(2,3) x by (auto simp: kpage_def)
    then show "mem s' a = mem s a" using kfree_mem assms(2,4,5) by blast
  qed
  moreover have "load64 (mem s') (unat pa) = freelist s" using eq by auto
  ultimately show ?thesis using assms(1-3) eq by (auto simp: free_pages_def kpage_def)
qed

lemma kfree_bad:
  "\<not> kpage s pa \<Longrightarrow> 0 < k_end s \<Longrightarrow> kfree pa s = Inl (Panic ''kfree'')"
  by (auto simp: kfree_def kpage_def word_mod_4096 not_le not_less)

section \<open>The contract of the allocator\<close>

text \<open>
  What a client relies on: \<open>alloc\<close> hands out the head of the pool or 0 when it is empty, \<open>free\<close>
  gives back a usable page that is not in the pool. \<open>alloc_many\<close> is a client that allocates
  repeatedly, as \<open>uvmalloc\<close> and \<open>uvmcopy\<close> do.
\<close>

fun alloc_many :: "('s \<Rightarrow> 'e + u64 \<times> 's) \<Rightarrow> nat \<Rightarrow> 's \<Rightarrow> 'e + u64 list \<times> 's" where
  "alloc_many alloc 0 s = Inr ([], s)"
| "alloc_many alloc (Suc n) s =
     bindE (alloc s) (\<lambda>(p, s). bindE (alloc_many alloc n s) (\<lambda>(ps, s). Inr (p # ps, s)))"

locale page_allocator =
  fixes alloc :: "'s \<Rightarrow> 'e + u64 \<times> 's"
    and free :: "u64 \<Rightarrow> 's \<Rightarrow> 'e + 's"
    and pool :: "'s \<Rightarrow> u64 list \<Rightarrow> bool"
    and usable :: "'s \<Rightarrow> u64 \<Rightarrow> bool"
  assumes alloc_ok: "pool s (x # xs) \<Longrightarrow> \<exists>s'. alloc s = Inr (x, s') \<and> pool s' xs \<and> usable s' = usable s"
    and alloc_out: "pool s [] \<Longrightarrow> alloc s = Inr (0, s)"
    and free_ok: "pool s xs \<Longrightarrow> usable s p \<Longrightarrow> p \<notin> set xs \<Longrightarrow>
      \<exists>s'. free p s = Inr s' \<and> pool s' (p # xs) \<and> usable s' = usable s"
    and pool_distinct: "pool s xs \<Longrightarrow> distinct xs"
    and pool_usable: "pool s xs \<Longrightarrow> x \<in> set xs \<Longrightarrow> usable s x \<and> x \<noteq> 0"
begin

lemma alloc_many_ok:
  "pool s (ps @ xs) \<Longrightarrow>
     \<exists>s'. alloc_many alloc (length ps) s = Inr (ps, s') \<and> pool s' xs \<and> usable s' = usable s"
proof (induction ps arbitrary: s)
  case Nil
  then show ?case by auto
next
  case (Cons p ps)
  then obtain s1 where s1: "alloc s = Inr (p, s1)" "pool s1 (ps @ xs)" "usable s1 = usable s"
    using alloc_ok[of s p "ps @ xs"] by auto
  from Cons.IH[OF s1(2)] s1 show ?case by auto
qed

lemma free_many_ok:
  "pool s xs \<Longrightarrow> distinct ps \<Longrightarrow> set ps \<inter> set xs = {} \<Longrightarrow> \<forall>p\<in>set ps. usable s p \<Longrightarrow>
     \<exists>s'. foldE free ps s = Inr s' \<and> pool s' (rev ps @ xs) \<and> usable s' = usable s"
proof (induction ps arbitrary: s xs)
  case Nil
  then show ?case by auto
next
  case (Cons p ps)
  then obtain s1 where s1: "free p s = Inr s1" "pool s1 (p # xs)" "usable s1 = usable s"
    using free_ok[of s xs p] by auto
  moreover have "\<exists>s'. foldE free ps s1 = Inr s' \<and> pool s' (rev ps @ p # xs) \<and> usable s' = usable s1"
    using Cons.prems s1 by (intro Cons.IH) auto
  ultimately show ?case by auto
qed

lemma alloc_free_many:
  assumes "pool s (ps @ xs)"
  shows "\<exists>s1 s2. alloc_many alloc (length ps) s = Inr (ps, s1) \<and> distinct ps \<and> 0 \<notin> set ps \<and>
    foldE free ps s1 = Inr s2 \<and> pool s2 (rev ps @ xs)"
proof -
  have d: "distinct (ps @ xs)" using assms by (rule pool_distinct)
  obtain s1 where s1: "alloc_many alloc (length ps) s = Inr (ps, s1)" "pool s1 xs" "usable s1 = usable s"
    using alloc_many_ok[OF assms] by blast
  moreover have "\<exists>s2. foldE free ps s1 = Inr s2 \<and> pool s2 (rev ps @ xs) \<and> usable s2 = usable s1"
    using s1 d pool_usable[OF assms] by (intro free_many_ok) auto
  ultimately show ?thesis using d pool_usable[OF assms] by auto
qed

end

definition kmem_pool :: "kernel \<Rightarrow> u64 list \<Rightarrow> bool" where
  "kmem_pool s xs \<longleftrightarrow> free_pages s xs \<and> KmemLk \<notin> held s"

interpretation kmem: page_allocator kalloc kfree kmem_pool kpage
proof unfold_locales
  fix s x xs assume p: "kmem_pool s (x # xs)"
  then have eq: "kalloc s = Inr (x, s\<lparr>freelist := load64 (mem s) (unat x),
                             mem := memset (mem s) (unat x) 5 PGSIZE\<rparr>)"
    using kalloc_pop[of s x xs] by (simp add: kmem_pool_def)
  moreover have "kmem_pool (s\<lparr>freelist := load64 (mem s) (unat x),
                             mem := memset (mem s) (unat x) 5 PGSIZE\<rparr>) xs"
    using kalloc_free_pages[OF _ _ eq, of x xs] p by (simp add: kmem_pool_def)
  ultimately show "\<exists>s'. kalloc s = Inr (x, s') \<and> kmem_pool s' xs \<and> kpage s' = kpage s"
    by (auto simp: kpage_def fun_eq_iff)
next
  fix s assume "kmem_pool s []"
  then show "kalloc s = Inr (0, s)" by (simp add: kmem_pool_def kalloc_empty)
next
  fix s xs p assume a: "kmem_pool s xs" "kpage s p" "p \<notin> set xs"
  then have eq: "kfree p s = Inr (s\<lparr>freelist := p,
      mem := store64 (memset (mem s) (unat p) 1 PGSIZE) (unat p) (freelist s)\<rparr>)" (is "_ = Inr ?t")
    by (simp add: kmem_pool_def kfree_push)
  then have "kmem_pool ?t (p # xs)" using kfree_free_pages[OF _ _ _ _ eq, of xs] a by (simp add: kmem_pool_def)
  then show "\<exists>s'. kfree p s = Inr s' \<and> kmem_pool s' (p # xs) \<and> kpage s' = kpage s"
    using eq by (auto simp: kpage_def fun_eq_iff)
next
  fix s xs assume "kmem_pool s xs"
  then show "distinct xs" by (simp add: kmem_pool_def free_pages_def)
next
  fix s xs x assume "kmem_pool s xs" "x \<in> set xs"
  then show "kpage s x \<and> x \<noteq> 0" by (auto simp: kmem_pool_def free_pages_def kpage_def)
qed

section \<open>Initialisation\<close>

text \<open>The pages \<^verbatim>\<open>freerange\<close> frees, in the order it frees them.\<close>

definition range_pages :: "u64 \<Rightarrow> u64 \<Rightarrow> u64 list" where
  "range_pages p pa_end = map (\<lambda>i. p + of_nat (4096 * i)) [0..<(unat pa_end - unat p) div 4096]"

lemma range_pages_empty: "\<not> unat p + 4096 \<le> unat q \<Longrightarrow> range_pages p q = []"
  by (simp add: range_pages_def)

lemma range_pages_step:
  assumes "unat p + 4096 \<le> unat q"
  shows "range_pages p q = p # range_pages (p + 4096) q"
proof -
  have "unat p + 4096 < 2 ^ 64" using assms unat_less_64[of q] by simp
  then have "unat (p + 4096) = unat p + 4096" by (simp add: unat_word_ariths)
  moreover have "(unat q - unat p) div 4096 = Suc ((unat q - (unat p + 4096)) div 4096)"
    using assms by (simp add: le_div_geq)
  ultimately show ?thesis
    by (simp add: range_pages_def map_upt_Suc algebra_simps del: upt_Suc)
qed

lemma freerange_from_ok:
  assumes "free_pages s xs" "KmemLk \<notin> held s" "0 < k_end s" "q \<le> PHYSTOP"
    and "page_aligned p" "k_end s \<le> p" "\<forall>x\<in>set xs. x < p"
  shows "\<exists>s'. freerange_from p q s = Inr s' \<and> free_pages s' (rev (range_pages p q) @ xs) \<and>
    held s' = held s \<and> k_end s' = k_end s"
  using assms
proof (induction p q s arbitrary: xs rule: freerange_from.induct)
  case (1 p q s)
  show ?case
  proof (cases "unat p + PGSIZE \<le> unat q")
    case False
    then show ?thesis using 1 by (simp add: freerange_from.simps[of p q s] range_pages_empty PGSIZE_def)
  next
    case True
    then have le: "unat p + 4096 \<le> unat q" by (simp add: PGSIZE_def)
    then have p4: "unat (p + 4096) = unat p + 4096"
      using unat_less_64[of q] by (simp add: unat_word_ariths)
    have "p < PHYSTOP" using le \<open>q \<le> PHYSTOP\<close> by (simp add: word_less_nat_alt word_le_nat_alt)
    then have kp: "kpage s p" using 1 by (auto simp: kpage_def)
    have notin: "p \<notin> set xs" using 1 by auto
    obtain t where t: "kfree p s = Inr t" "held t = held s" "k_end t = k_end s"
      using kfree_push[OF kp] 1 by auto
    then have fp: "free_pages t (p # xs)" using kfree_free_pages 1 kp notin by blast
    have lt: "p < p + 4096" using p4 by (simp add: word_less_nat_alt)
    have "\<exists>s'. freerange_from (p + 4096) q t = Inr s' \<and>
        free_pages s' (rev (range_pages (p + 4096) q) @ p # xs) \<and> held s' = held t \<and> k_end s' = k_end t"
    proof (rule "1.IH"[OF True t(1) fp])
      show "page_aligned (p + 4096)" using p4 1 by (simp add: page_aligned_def)
      show "\<forall>x\<in>set (p # xs). x < p + 4096" using 1(8) lt by auto
      show "k_end t \<le> p + 4096" using t 1 lt by simp
    qed (use 1 t in auto)
    with t True show ?thesis by (simp add: freerange_from.simps[of p q s] range_pages_step[OF le])
  qed
qed

lemma kinit_ok:
  assumes "freelist s = 0" "KmemLk \<notin> held s" "0 < k_end s" "k_end s \<le> PHYSTOP"
  shows "\<exists>s'. kinit s = Inr s' \<and>
    free_pages s' (rev (range_pages (PGROUNDUP (k_end s)) PHYSTOP)) \<and> held s' = held s"
proof -
  have "unat (k_end s) + 4095 < 2 ^ 64"
    using assms(4) by (simp add: word_le_nat_alt layout_vals)
  then have "unat (k_end s) \<le> unat (PGROUNDUP (k_end s))"
    unfolding unat_PGROUNDUP[OF \<open>unat (k_end s) + 4095 < 2 ^ 64\<close>]
    using div_mult_mod_eq[of "unat (k_end s) + 4095" 4096] mod_less_divisor[of 4096 "unat (k_end s) + 4095"]
    by linarith
  then have "k_end s \<le> PGROUNDUP (k_end s)" by (simp add: word_le_nat_alt)
  moreover have "free_pages s []" using assms(1) by (simp add: free_pages_def)
  ultimately show ?thesis
    using freerange_from_ok[of s "[]" PHYSTOP "PGROUNDUP (k_end s)"] assms
    by (auto simp: kinit_def freerange_def )
qed

end
