(* ===== verification/Vm.thy ===== *)
theory Vm
  imports Kalloc Sleeplock
begin

text \<open>
  Sv39 page tables and user memory, \<^verbatim>\<open>kernel/vm.c\<close>, and \<^verbatim>\<open>either_copyout\<close> and
  \<^verbatim>\<open>either_copyin\<close> of \<^verbatim>\<open>kernel/proc.c\<close>. A page table is the address of its root page in
  \<open>mem\<close>; a PTE is a 64-bit word there and \<^verbatim>\<open>pte_t*\<close> its address. \<^verbatim>\<open>copyout\<close> takes the bytes
  behind its source pointer, \<^verbatim>\<open>copyin\<close> and \<^verbatim>\<open>copyinstr\<close> return the bytes behind their
  destination pointer.
\<close>

section \<open>Page tables\<close>

definition set_mem :: "(bytes \<Rightarrow> bytes) \<Rightarrow> kernel \<Rightarrow> kernel" where
  "set_mem f s = s\<lparr>mem := f (mem s)\<rparr>"

fun walk_from :: "nat \<Rightarrow> u64 \<Rightarrow> u64 \<Rightarrow> bool \<Rightarrow> kernel \<Rightarrow> u64 kres" where
  "walk_from 0 pagetable va alloc s = Inr (pagetable + 8 * PX 0 va, s)"
| "walk_from (Suc l) pagetable va alloc s =
     (let pte = pagetable + 8 * PX (Suc l) va; v = load64 (mem s) (unat pte) in
      if v AND PTE_V \<noteq> 0 then walk_from l (PTE2PA v) va alloc s
      else if \<not> alloc then Inr (0, s)
      else bindE (kalloc s) (\<lambda>(pg, s).
        if pg = 0 then Inr (0, s)
        else
          let s = set_mem (\<lambda>m. memset m (unat pg) 0 PGSIZE) s;
              s = set_mem (\<lambda>m. store64 m (unat pte) (PA2PTE pg OR PTE_V)) s
          in walk_from l pg va alloc s))"

definition walk :: "u64 \<Rightarrow> u64 \<Rightarrow> bool \<Rightarrow> kernel \<Rightarrow> u64 kres" where
  "walk pagetable va alloc s =
     (if va \<ge> MAXVA then Inl (Panic ''walk'') else walk_from 2 pagetable va alloc s)"

lemma walk_MAXVA: "walk pt va alloc s = Inr r \<Longrightarrow> va < MAXVA"
  by (simp add: walk_def split: if_splits)

lemma below_MAXVA_step: "a < MAXVA \<Longrightarrow> unat MAXVA - unat (a + 4096) < unat MAXVA - unat a"
  by (simp add: word_less_nat_alt MAXVA_val unat_word_ariths)

function mappages_from :: "u64 \<Rightarrow> u64 \<Rightarrow> u64 \<Rightarrow> u64 \<Rightarrow> u64 \<Rightarrow> kernel \<Rightarrow> int kres" where
  "mappages_from pagetable a lst pa perm s =
     bindE (walk pagetable a True s) (\<lambda>(pte, s).
       if pte = 0 then Inr (-1, s)
       else if load64 (mem s) (unat pte) AND PTE_V \<noteq> 0 then Inl (Panic ''remap'')
       else
         let s = set_mem (\<lambda>m. store64 m (unat pte) (PA2PTE pa OR perm OR PTE_V)) s in
         if a = lst then Inr (0, s)
         else mappages_from pagetable (a + 4096) lst (pa + 4096) perm s)"
  by pat_completeness auto
termination
  by (relation "measure (\<lambda>(_, a, _, _, _, _). unat MAXVA - unat a)")
     (auto dest!: walk_MAXVA intro: below_MAXVA_step)

definition mappages :: "u64 \<Rightarrow> u64 \<Rightarrow> u64 \<Rightarrow> u64 \<Rightarrow> u64 \<Rightarrow> kernel \<Rightarrow> int kres" where
  "mappages pagetable va sz pa perm s =
     mappages_from pagetable (PGROUNDDOWN va) (PGROUNDDOWN (va + sz - 1)) pa perm s"

lemma mappages_MAXVA: "mappages pt va sz pa perm s = Inr r \<Longrightarrow> PGROUNDDOWN va < MAXVA"
  unfolding mappages_def by (subst (asm) mappages_from.simps) (auto simp: res_simps dest: walk_MAXVA)

definition kvmmap :: "u64 \<Rightarrow> u64 \<Rightarrow> u64 \<Rightarrow> u64 \<Rightarrow> kernel \<Rightarrow> kstep" where
  "kvmmap va pa sz perm s =
     bindE (mappages (kernel_pagetable s) va sz pa perm s) (\<lambda>(r, s).
       if r \<noteq> 0 then Inl (Panic ''kvmmap'') else Inr s)"

text \<open>\<open>kvminit\<close> does not check \<^verbatim>\<open>kalloc\<close>'s result: the null page is a fault.\<close>

definition kvminit :: "kernel \<Rightarrow> kstep" where
  "kvminit s =
     bindE (kalloc s) (\<lambda>(pg, s).
       if pg = 0 then Inl Fault
       else
         let s = set_mem (\<lambda>m. memset m (unat pg) 0 PGSIZE) (s\<lparr>kernel_pagetable := pg\<rparr>) in
         bindE (kvmmap UART0 UART0 4096 (PTE_R OR PTE_W) s) (\<lambda>s.
         bindE (kvmmap VIRTIO0 VIRTIO0 4096 (PTE_R OR PTE_W) s) (\<lambda>s.
         bindE (kvmmap CLINT CLINT 0x10000 (PTE_R OR PTE_W) s) (\<lambda>s.
         bindE (kvmmap PLIC PLIC 0x400000 (PTE_R OR PTE_W) s) (\<lambda>s.
         bindE (kvmmap KERNBASE KERNBASE (k_etext s - KERNBASE) (PTE_R OR PTE_X) s) (\<lambda>s.
         bindE (kvmmap (k_etext s) (k_etext s) (PHYSTOP - k_etext s) (PTE_R OR PTE_W) s) (\<lambda>s.
           kvmmap TRAMPOLINE (k_trampoline s) 4096 (PTE_R OR PTE_X) s)))))))"

definition kvmpa :: "u64 \<Rightarrow> kernel \<Rightarrow> u64 kres" where
  "kvmpa va s =
     bindE (walk (kernel_pagetable s) va False s) (\<lambda>(pte, s).
       if pte = 0 then Inl (Panic ''kvmpa'')
       else
         let v = load64 (mem s) (unat pte) in
         if v AND PTE_V = 0 then Inl (Panic ''kvmpa'') else Inr (PTE2PA v + va mod 4096, s))"

text \<open>
  \<open>walkaddr\<close> allocates a page for an address inside the process that has none yet. The
  trapframe's \<^verbatim>\<open>sp\<close> is the word at offset 48.
\<close>

definition walkaddr :: "u64 \<Rightarrow> u64 \<Rightarrow> kernel \<Rightarrow> u64 kres" where
  "walkaddr pagetable va s =
     (if va \<ge> MAXVA then Inr (0, s)
      else
        bindE (walk pagetable va False s) (\<lambda>(pte, s).
          let v = load64 (mem s) (unat pte) in
          if pte = 0 \<or> v AND PTE_V = 0 then
            bindE (myproc s) (\<lambda>i.
              let p = procs s ! i in
              if va \<ge> p_sz p \<or> va < PGROUNDUP (load64 (mem s) (unat (p_trapframe p) + 48)) then Inr (0, s)
              else
                bindE (kalloc s) (\<lambda>(pa, s).
                  if pa = 0 then Inr (0, s)
                  else
                    let s = set_mem (\<lambda>m. memset m (unat pa) 0 PGSIZE) s in
                    bindE (mappages (p_pagetable p) (PGROUNDDOWN va) 4096 pa
                             (PTE_W OR PTE_R OR PTE_U OR PTE_X) s) (\<lambda>(r, s).
                      if r \<noteq> 0 then bindE (kfree pa s) (\<lambda>s. Inr (0, s)) else Inr (pa, s))))
          else if v AND PTE_U = 0 then Inr (0, s)
          else Inr (PTE2PA v, s)))"

section \<open>User memory\<close>

function uvmunmap_from :: "u64 \<Rightarrow> u64 \<Rightarrow> u64 \<Rightarrow> bool \<Rightarrow> kernel \<Rightarrow> kstep" where
  "uvmunmap_from pagetable a e do_free s =
     (if a < e then
        bindE (walk pagetable a False s) (\<lambda>(pte, s).
          let v = load64 (mem s) (unat pte) in
          if pte = 0 \<or> v AND PTE_V = 0 then uvmunmap_from pagetable (a + 4096) e do_free s
          else if PTE_FLAGS v = PTE_V then Inl (Panic ''uvmunmap: not a leaf'')
          else
            bindE (if do_free then kfree (PTE2PA v) s else Inr s) (\<lambda>s.
              uvmunmap_from pagetable (a + 4096) e do_free
                (set_mem (\<lambda>m. store64 m (unat pte) 0) s)))
      else Inr s)"
  by pat_completeness auto
termination
  by (relation "measure (\<lambda>(_, a, _, _, _). unat MAXVA - unat a)")
     (auto dest!: walk_MAXVA intro: below_MAXVA_step)

definition uvmunmap :: "u64 \<Rightarrow> u64 \<Rightarrow> u64 \<Rightarrow> bool \<Rightarrow> kernel \<Rightarrow> kstep" where
  "uvmunmap pagetable va npages do_free s =
     (if va mod 4096 \<noteq> 0 then Inl (Panic ''uvmunmap: not aligned'')
      else uvmunmap_from pagetable va (va + npages * 4096) do_free s)"

definition uvmcreate :: "kernel \<Rightarrow> u64 kres" where
  "uvmcreate s =
     bindE (kalloc s) (\<lambda>(pg, s).
       if pg = 0 then Inr (0, s) else Inr (pg, set_mem (\<lambda>m. memset m (unat pg) 0 PGSIZE) s))"

text \<open>\<open>src\<close> are the bytes behind the source pointer. \<^verbatim>\<open>kalloc\<close>'s result is used unchecked.\<close>

definition uvminit :: "u64 \<Rightarrow> bytes \<Rightarrow> u32 \<Rightarrow> kernel \<Rightarrow> kstep" where
  "uvminit pagetable src sz s =
     (if unat sz \<ge> PGSIZE then Inl (Panic ''inituvm: more than a page'')
      else
        bindE (kalloc s) (\<lambda>(pg, s).
          if pg = 0 then Inl Fault
          else
            bindE (mappages pagetable 0 4096 pg (PTE_W OR PTE_R OR PTE_X OR PTE_U)
                     (set_mem (\<lambda>m. memset m (unat pg) 0 PGSIZE) s)) (\<lambda>(_, s).
              Inr (set_mem (\<lambda>m. blit m (unat pg) src 0 (unat sz)) s))))"

definition uvmdealloc :: "u64 \<Rightarrow> u64 \<Rightarrow> u64 \<Rightarrow> kernel \<Rightarrow> u64 kres" where
  "uvmdealloc pagetable oldsz newsz s =
     (if newsz \<ge> oldsz then Inr (oldsz, s)
      else
        bindE (if PGROUNDUP newsz < PGROUNDUP oldsz
               then uvmunmap pagetable (PGROUNDUP newsz)
                      (scast (ucast ((PGROUNDUP oldsz - PGROUNDUP newsz) div 4096) :: u32)) True s
               else Inr s) (\<lambda>s. Inr (newsz, s)))"

function uvmalloc_from :: "u64 \<Rightarrow> u64 \<Rightarrow> u64 \<Rightarrow> u64 \<Rightarrow> kernel \<Rightarrow> u64 kres" where
  "uvmalloc_from pagetable oldsz a newsz s =
     (if a < newsz then
        bindE (kalloc s) (\<lambda>(pg, s).
          if pg = 0 then bindE (uvmdealloc pagetable a oldsz s) (\<lambda>(_, s). Inr (0, s))
          else
            bindE (mappages pagetable a 4096 pg (PTE_W OR PTE_X OR PTE_R OR PTE_U)
                     (set_mem (\<lambda>m. memset m (unat pg) 0 PGSIZE) s)) (\<lambda>(r, s).
              if r \<noteq> 0
              then bindE (kfree pg s) (\<lambda>s. bindE (uvmdealloc pagetable a oldsz s) (\<lambda>(_, s). Inr (0, s)))
              else uvmalloc_from pagetable oldsz (a + 4096) newsz s))
      else Inr (newsz, s))"
  by pat_completeness auto

lemma page_below_MAXVA: "PGROUNDDOWN a < MAXVA \<Longrightarrow> a < MAXVA"
proof -
  assume "PGROUNDDOWN a < MAXVA"
  then have "unat a div 4096 * 4096 < 67108864 * 4096"
    by (simp add: word_less_nat_alt page_simps MAXVA_val)
  then have "unat a div 4096 < 67108864" by (metis mult_less_cancel2)
  then have "unat a < 67108864 * 4096" by (simp only: div_less_iff_less_mult)
  then show ?thesis by (simp add: word_less_nat_alt MAXVA_val)
qed

termination uvmalloc_from
  by (relation "measure (\<lambda>(_, _, a, _, _). unat MAXVA - unat a)")
     (auto dest!: mappages_MAXVA page_below_MAXVA intro: below_MAXVA_step)

definition uvmalloc :: "u64 \<Rightarrow> u64 \<Rightarrow> u64 \<Rightarrow> kernel \<Rightarrow> u64 kres" where
  "uvmalloc pagetable oldsz newsz s =
     (if newsz < oldsz then Inr (oldsz, s)
      else uvmalloc_from pagetable (PGROUNDUP oldsz) (PGROUNDUP oldsz) newsz s)"

text \<open>
  \<open>freewalk\<close> recurses once per level; \<open>d\<close> bounds the depth, and a table deeper than Sv39's three
  levels gives \<open>Spin\<close>.
\<close>

fun freewalk_at :: "nat \<Rightarrow> u64 \<Rightarrow> kernel \<Rightarrow> kstep" where
  "freewalk_at 0 pagetable s = Inl Spin"
| "freewalk_at (Suc d) pagetable s =
     bindE (foldE (\<lambda>i s.
         let a = unat pagetable + 8 * i; pte = load64 (mem s) a in
         if pte AND PTE_V \<noteq> 0 \<and> pte AND (PTE_R OR PTE_W OR PTE_X) = 0
         then bindE (freewalk_at d (PTE2PA pte) s) (\<lambda>s. Inr (set_mem (\<lambda>m. store64 m a 0) s))
         else if pte AND PTE_V \<noteq> 0 then Inl (Panic ''freewalk: leaf'')
         else Inr s) [0..<512] s)
       (kfree pagetable)"

definition freewalk :: "u64 \<Rightarrow> kernel \<Rightarrow> kstep" where
  "freewalk pagetable s = freewalk_at 3 pagetable s"

definition uvmfree :: "u64 \<Rightarrow> u64 \<Rightarrow> kernel \<Rightarrow> kstep" where
  "uvmfree pagetable sz s =
     bindE (if sz > 0 then uvmunmap pagetable 0 (PGROUNDUP sz div 4096) True s else Inr s)
       (freewalk pagetable)"

function uvmcopy_from :: "u64 \<Rightarrow> u64 \<Rightarrow> u64 \<Rightarrow> u64 \<Rightarrow> kernel \<Rightarrow> int kres" where
  "uvmcopy_from old new i sz s =
     (if i < sz then
        bindE (walk old i False s) (\<lambda>(pte, s).
          let v = load64 (mem s) (unat pte) in
          if pte = 0 \<or> v AND PTE_V = 0 then uvmcopy_from old new (i + 4096) sz s
          else
            bindE (kalloc s) (\<lambda>(pg, s).
              if pg = 0 then bindE (uvmunmap new 0 (i div 4096) True s) (\<lambda>s. Inr (-1, s))
              else
                bindE (mappages new i 4096 pg (PTE_FLAGS v)
                         (set_mem (\<lambda>m. memmove m (unat pg) (unat (PTE2PA v)) PGSIZE) s)) (\<lambda>(r, s).
                  if r \<noteq> 0 then
                    bindE (kfree pg s) (\<lambda>s.
                    bindE (uvmunmap new 0 (i div 4096) True s) (\<lambda>s. Inr (-1, s)))
                  else uvmcopy_from old new (i + 4096) sz s)))
      else Inr (0, s))"
  by pat_completeness auto
termination
  by (relation "measure (\<lambda>(_, _, i, _, _). unat MAXVA - unat i)")
     (auto dest!: walk_MAXVA intro: below_MAXVA_step)

definition uvmcopy :: "u64 \<Rightarrow> u64 \<Rightarrow> u64 \<Rightarrow> kernel \<Rightarrow> int kres" where
  "uvmcopy old new sz s = uvmcopy_from old new 0 sz s"

definition uvmclear :: "u64 \<Rightarrow> u64 \<Rightarrow> kernel \<Rightarrow> kstep" where
  "uvmclear pagetable va s =
     bindE (walk pagetable va False s) (\<lambda>(pte, s).
       if pte = 0 then Inl (Panic ''uvmclear'')
       else Inr (set_mem (\<lambda>m. store64 m (unat pte) (load64 m (unat pte) AND NOT PTE_U)) s))"

section \<open>Copying to and from user space\<close>

text \<open>The part of the current page that one iteration copies is not empty and within \<open>len\<close>.\<close>

definition page_left :: "u64 \<Rightarrow> u64 \<Rightarrow> u64" where
  "page_left va len = (let n = 4096 - (va - PGROUNDDOWN va) in if n > len then len else n)"

lemma unat_page_off: "unat (va - PGROUNDDOWN va) = unat va mod 4096"
proof -
  have "unat (PGROUNDDOWN va) \<le> unat va" by (simp add: unat_PGROUNDDOWN)
  then have "unat (va - PGROUNDDOWN va) = unat va - unat va div 4096 * 4096"
    by (simp add: unat_sub_if' unat_PGROUNDDOWN word_le_nat_alt)
  then show ?thesis by (simp add: minus_div_mult_eq_mod)
qed

lemma unat_page_left: "unat (page_left va len) = min (unat len) (4096 - unat va mod 4096)"
proof -
  have "unat (4096 - x) = 4096 - unat x" if "unat x \<le> 4096" for x :: u64
    using that by (simp add: unat_sub_if')
  from this[of "va - PGROUNDDOWN va"] have "unat (4096 - (va - PGROUNDDOWN va)) = 4096 - unat va mod 4096"
    by (simp add: unat_page_off)
  then show ?thesis by (simp add: page_left_def Let_def word_less_nat_alt)
qed

lemma page_left_decreases: "0 < len \<Longrightarrow> unat (len - page_left va len) < unat len"
proof -
  assume "0 < len"
  then have "0 < unat len" by (simp add: word_less_nat_alt)
  moreover have "0 < unat (page_left va len)" "unat (page_left va len) \<le> unat len"
    using \<open>0 < unat len\<close> by (auto simp: unat_page_left)
  ultimately show ?thesis by (simp add: unat_sub_if')
qed

function copyout :: "u64 \<Rightarrow> u64 \<Rightarrow> bytes \<Rightarrow> u64 \<Rightarrow> kernel \<Rightarrow> int kres" where
  "copyout pagetable dstva src len s =
     (if len > 0 then
        let va0 = PGROUNDDOWN dstva in
        bindE (walkaddr pagetable va0 s) (\<lambda>(pa0, s).
          if pa0 = 0 then Inr (-1, s)
          else
            let n = page_left dstva len;
                s = set_mem (\<lambda>m. blit m (unat (pa0 + (dstva - va0))) src 0 (unat n)) s
            in copyout pagetable (va0 + 4096) (\<lambda>i. src (unat n + i)) (len - n) s)
      else Inr (0, s))"
  by pat_completeness auto
termination
  by (relation "measure (\<lambda>(_, _, _, len, _). unat len)") (auto intro: page_left_decreases)

function copyin_from :: "u64 \<Rightarrow> bytes \<Rightarrow> nat \<Rightarrow> u64 \<Rightarrow> u64 \<Rightarrow> kernel \<Rightarrow> (int \<times> bytes) kres" where
  "copyin_from pagetable dst off srcva len s =
     (if len > 0 then
        let va0 = PGROUNDDOWN srcva in
        bindE (walkaddr pagetable va0 s) (\<lambda>(pa0, s).
          if pa0 = 0 then Inr ((-1, dst), s)
          else
            let n = page_left srcva len;
                dst = blit dst off (mem s) (unat (pa0 + (srcva - va0))) (unat n)
            in copyin_from pagetable dst (off + unat n) (va0 + 4096) (len - n) s)
      else Inr ((0, dst), s))"
  by pat_completeness auto
termination
  by (relation "measure (\<lambda>(_, _, _, _, len, _). unat len)") (auto intro: page_left_decreases)

definition copyin :: "u64 \<Rightarrow> bytes \<Rightarrow> u64 \<Rightarrow> u64 \<Rightarrow> kernel \<Rightarrow> (int \<times> bytes) kres" where
  "copyin pagetable dst srcva len s = copyin_from pagetable dst 0 srcva len s"

text \<open>
  The inner loop of \<open>copyinstr\<close> on \<open>n\<close> bytes at \<open>p\<close>: the destination, the bytes copied and
  whether a NUL was found.
\<close>

fun copyinstr_page :: "bytes \<Rightarrow> nat \<Rightarrow> nat \<Rightarrow> bytes \<Rightarrow> nat \<Rightarrow> bytes \<times> nat \<times> bool" where
  "copyinstr_page m p 0 dst off = (dst, 0, False)"
| "copyinstr_page m p (Suc n) dst off =
     (if m p = 0 then (dst(off := 0), 0, True)
      else let (dst', k, g) = copyinstr_page m (Suc p) n (dst(off := m p)) (Suc off)
           in (dst', Suc k, g))"

lemma copyinstr_page_count:
  "copyinstr_page m p n dst off = (dst', k, g) \<Longrightarrow> k \<le> n \<and> (\<not> g \<longrightarrow> k = n)"
  by (induction m p n dst off arbitrary: dst' k rule: copyinstr_page.induct)
     (auto split: if_splits prod.splits)

function copyinstr_from :: "u64 \<Rightarrow> bytes \<Rightarrow> nat \<Rightarrow> u64 \<Rightarrow> u64 \<Rightarrow> kernel \<Rightarrow> (int \<times> bytes) kres" where
  "copyinstr_from pagetable dst off srcva mx s =
     (if mx > 0 then
        let va0 = PGROUNDDOWN srcva in
        bindE (walkaddr pagetable va0 s) (\<lambda>(pa0, s).
          if pa0 = 0 then Inr ((-1, dst), s)
          else
            let n = page_left srcva mx in
            case copyinstr_page (mem s) (unat (pa0 + (srcva - va0))) (unat n) dst off of
              (dst, k, got_null) \<Rightarrow>
                if got_null then Inr ((0, dst), s)
                else copyinstr_from pagetable dst (off + k) (va0 + 4096) (mx - of_nat k) s)
      else Inr ((-1, dst), s))"
  by pat_completeness auto

lemma copyinstr_left:
  assumes "(dst', k, False) = copyinstr_page m p (unat (page_left va mx)) dst off" "0 < mx"
  shows "unat (mx - of_nat k) < unat mx"
proof -
  have "k = unat (page_left va mx)" using copyinstr_page_count[OF assms(1)[symmetric]] by simp
  then show ?thesis using page_left_decreases[OF assms(2)] by simp
qed

termination copyinstr_from
  by (relation "measure (\<lambda>(_, _, _, _, mx, _). unat mx)") (auto intro: copyinstr_left)

definition copyinstr :: "u64 \<Rightarrow> bytes \<Rightarrow> u64 \<Rightarrow> u64 \<Rightarrow> kernel \<Rightarrow> (int \<times> bytes) kres" where
  "copyinstr pagetable dst srcva mx s = copyinstr_from pagetable dst 0 srcva mx s"

definition either_copyout :: "bool \<Rightarrow> u64 \<Rightarrow> bytes \<Rightarrow> u64 \<Rightarrow> kernel \<Rightarrow> int kres" where
  "either_copyout user_dst dst src len s =
     bindE (myproc s) (\<lambda>p.
       if user_dst then copyout (p_pagetable (procs s ! p)) dst src len s
       else Inr (0, set_mem (\<lambda>m. blit m (unat dst) src 0 (unat len)) s))"

definition either_copyin :: "bytes \<Rightarrow> bool \<Rightarrow> u64 \<Rightarrow> u64 \<Rightarrow> kernel \<Rightarrow> (int \<times> bytes) kres" where
  "either_copyin dst user_src src len s =
     bindE (myproc s) (\<lambda>p.
       if user_src then copyin (p_pagetable (procs s ! p)) dst src len s
       else Inr ((0, blit dst 0 (mem s) (unat src) (unat len)), s))"

declare mappages_from.simps [simp del] uvmunmap_from.simps [simp del] uvmalloc_from.simps [simp del]
  uvmcopy_from.simps [simp del] copyout.simps [simp del] copyin_from.simps [simp del]
  copyinstr_from.simps [simp del]

end
