(* ===== verification/Fs.thy ===== *)
theory Fs
  imports Log Vm
begin

text \<open>
  The file system, \<^verbatim>\<open>kernel/fs.c\<close>: the block bitmap, the inode cache and the on-disk inodes,
  file contents through direct and indirect blocks, directories and path names. An in-memory
  inode is the index of its entry in \<open>icache\<close>. A path is the list of the bytes of the C string
  before its NUL; a directory-entry name is the bytes of a \<^verbatim>\<open>char[DIRSIZ]\<close>. The local
  \<^verbatim>\<open>struct dirent de\<close>, whose address is passed to \<^verbatim>\<open>readi\<close> and \<^verbatim>\<open>writei\<close>, is 16 bytes of
  \<open>mem\<close> on the kernel stack.
\<close>

section \<open>Superblock and bitmap\<close>

definition decode_sb :: "bytes \<Rightarrow> superblock" where
  "decode_sb d = \<lparr>sb_magic = load32 d 0, sb_size = load32 d 4, sb_nblocks = load32 d 8,
     sb_ninodes = load32 d 12, sb_nlog = load32 d 16, sb_logstart = load32 d 20,
     sb_inodestart = load32 d 24, sb_bmapstart = load32 d 28\<rparr>"

definition readsb :: "u32 \<Rightarrow> kernel \<Rightarrow> kstep" where
  "readsb dev s =
     bindE (bread dev 1 s) (\<lambda>(b, s). brelse b (s\<lparr>sblk := decode_sb (b_data (bufs s ! b))\<rparr>))"

definition fsinit :: "u32 \<Rightarrow> kernel \<Rightarrow> kstep" where
  "fsinit dev s =
     bindE (readsb dev s) (\<lambda>s.
       if sb_magic (sblk s) \<noteq> FSMAGIC then Inl (Panic ''invalid file system'')
       else initlog dev (sblk s) s)"

definition bzero :: "u32 \<Rightarrow> u32 \<Rightarrow> kernel \<Rightarrow> kstep" where
  "bzero dev bno s =
     bindE (bread dev bno s) (\<lambda>(b, s).
     bindE (log_write b (bset b (\<lambda>d. memset d 0 0 BSIZE) s)) (brelse b))"

definition BBLOCK :: "nat \<Rightarrow> superblock \<Rightarrow> u32" where
  "BBLOCK b sb = of_nat (b div BPB) + sb_bmapstart sb"

definition IBLOCK :: "u32 \<Rightarrow> superblock \<Rightarrow> u32" where
  "IBLOCK i sb = i div of_nat IPB + sb_inodestart sb"

text \<open>Bit \<open>bi\<close> of a bitmap block.\<close>

definition bmask :: "nat \<Rightarrow> u8" where
  "bmask bi = push_bit (bi mod 8) 1"

definition bfree_at :: "bytes \<Rightarrow> nat \<Rightarrow> bool" where
  "bfree_at d bi \<longleftrightarrow> d (bi div 8) AND bmask bi = 0"

fun balloc_scan :: "u32 \<Rightarrow> nat list \<Rightarrow> kernel \<Rightarrow> u32 kres" where
  "balloc_scan dev [] s = Inl (Panic ''balloc: out of blocks'')"
| "balloc_scan dev (b # bs) s =
     bindE (bread dev (BBLOCK b (sblk s)) s) (\<lambda>(bp, s).
       case find (bfree_at (b_data (bufs s ! bp))) [0..<min BPB (unat (sb_size (sblk s)) - b)] of
         Some bi \<Rightarrow>
           let s = bset bp (\<lambda>d. d(bi div 8 := d (bi div 8) OR bmask bi)) s in
           bindE (log_write bp s) (\<lambda>s.
           bindE (brelse bp s) (\<lambda>s.
           bindE (bzero dev (of_nat (b + bi)) s) (\<lambda>s. Inr (of_nat (b + bi), s))))
       | None \<Rightarrow> bindE (brelse bp s) (balloc_scan dev bs))"

definition balloc :: "u32 \<Rightarrow> kernel \<Rightarrow> u32 kres" where
  "balloc dev s = balloc_scan dev (map ((*) BPB) [0..<(unat (sb_size (sblk s)) + BPB - 1) div BPB]) s"

definition bfree :: "u32 \<Rightarrow> u32 \<Rightarrow> kernel \<Rightarrow> kstep" where
  "bfree dev b s =
     bindE (bread dev (BBLOCK (unat b) (sblk s)) s) (\<lambda>(bp, s).
       let bi = unat b mod BPB in
       if bfree_at (b_data (bufs s ! bp)) bi then Inl (Panic ''freeing free block'')
       else
         bindE (log_write bp (bset bp (\<lambda>d. d(bi div 8 := d (bi div 8) AND NOT (bmask bi))) s)) (brelse bp))"

section \<open>Inodes\<close>

definition iinit :: "kernel \<Rightarrow> kernel" where
  "iinit s = fold (\<lambda>i. initsleeplock (SlInode i)) [0..<NINODE] s"

text \<open>\<open>struct dinode\<close>: type, major, minor, nlink at 0, 2, 4, 6, the size at 8, the addresses at 12.\<close>

definition dinode_off :: "u32 \<Rightarrow> nat" where
  "dinode_off inum = 64 * unat (inum mod of_nat IPB)"

definition put_dinode :: "inode \<Rightarrow> nat \<Rightarrow> bytes \<Rightarrow> bytes" where
  "put_dinode ip a d =
     (let d = store16 d a (i_type ip);
          d = store16 d (a + 2) (i_major ip);
          d = store16 d (a + 4) (i_minor ip);
          d = store16 d (a + 6) (i_nlink ip);
          d = store32 d (a + 8) (i_size ip)
      in fold (\<lambda>k d. store32 d (a + 12 + 4 * k) (i_addrs ip ! k)) [0..<NDIRECT + 1] d)"

definition get_dinode :: "bytes \<Rightarrow> nat \<Rightarrow> inode \<Rightarrow> inode" where
  "get_dinode d a ip = ip\<lparr>i_type := load16 d a, i_major := load16 d (a + 2), i_minor := load16 d (a + 4),
     i_nlink := load16 d (a + 6), i_size := load32 d (a + 8),
     i_addrs := map (\<lambda>k. load32 d (a + 12 + 4 * k)) [0..<NDIRECT + 1]\<rparr>"

definition iget :: "u32 \<Rightarrow> u32 \<Rightarrow> kernel \<Rightarrow> nat kres" where
  "iget dev inum s =
     bindE (acquire IcacheLk s) (\<lambda>s.
       case find (\<lambda>i. i_ref (icache s ! i) > 0 \<and> i_dev (icache s ! i) = dev \<and> i_inum (icache s ! i) = inum)
              [0..<NINODE] of
         Some i \<Rightarrow>
           bindE (release IcacheLk (upd_inode i (\<lambda>ip. ip\<lparr>i_ref := i_ref ip + 1\<rparr>) s)) (\<lambda>s. Inr (i, s))
       | None \<Rightarrow>
           (case find (\<lambda>i. i_ref (icache s ! i) = 0) [0..<NINODE] of
              None \<Rightarrow> Inl (Panic ''iget: no inodes'')
            | Some i \<Rightarrow>
                bindE (release IcacheLk (upd_inode i (\<lambda>ip. ip\<lparr>i_dev := dev, i_inum := inum, i_ref := 1,
                  i_valid := False\<rparr>) s)) (\<lambda>s. Inr (i, s))))"

fun ialloc_scan :: "u32 \<Rightarrow> u16 \<Rightarrow> nat list \<Rightarrow> kernel \<Rightarrow> nat kres" where
  "ialloc_scan dev type [] s = Inl (Panic ''ialloc: no inodes'')"
| "ialloc_scan dev type (inum # is) s =
     bindE (bread dev (IBLOCK (of_nat inum) (sblk s)) s) (\<lambda>(bp, s).
       let a = dinode_off (of_nat inum) in
       if load16 (b_data (bufs s ! bp)) a = 0 then
         bindE (log_write bp (bset bp (\<lambda>d. store16 (memset d a 0 64) a type) s)) (\<lambda>s.
         bindE (brelse bp s) (iget dev (of_nat inum)))
       else bindE (brelse bp s) (ialloc_scan dev type is))"

definition ialloc :: "u32 \<Rightarrow> u16 \<Rightarrow> kernel \<Rightarrow> nat kres" where
  "ialloc dev type s = ialloc_scan dev type [1..<unat (sb_ninodes (sblk s))] s"

definition iupdate :: "nat \<Rightarrow> kernel \<Rightarrow> kstep" where
  "iupdate i s =
     (let ip = icache s ! i in
      bindE (bread (i_dev ip) (IBLOCK (i_inum ip) (sblk s)) s) (\<lambda>(bp, s).
      bindE (log_write bp (bset bp (put_dinode ip (dinode_off (i_inum ip))) s)) (brelse bp)))"

definition idup :: "nat \<Rightarrow> kernel \<Rightarrow> nat kres" where
  "idup i s =
     bindE (acquire IcacheLk s) (\<lambda>s.
     bindE (release IcacheLk (upd_inode i (\<lambda>ip. ip\<lparr>i_ref := i_ref ip + 1\<rparr>) s)) (\<lambda>s. Inr (i, s)))"

definition ilock :: "nat \<Rightarrow> kernel \<Rightarrow> kstep" where
  "ilock i s =
     (if i_ref (icache s ! i) < 1 then Inl (Panic ''ilock'')
      else
        bindE (acquiresleep (SlInode i) s) (\<lambda>s.
          if i_valid (icache s ! i) then Inr s
          else
            let ip = icache s ! i in
            bindE (bread (i_dev ip) (IBLOCK (i_inum ip) (sblk s)) s) (\<lambda>(bp, s).
              let s = upd_inode i (get_dinode (b_data (bufs s ! bp)) (dinode_off (i_inum ip))) s in
              bindE (brelse bp s) (\<lambda>s.
                let s = upd_inode i (\<lambda>ip. ip\<lparr>i_valid := True\<rparr>) s in
                if i_type (icache s ! i) = 0 then Inl (Panic ''ilock: no type'') else Inr s))))"

definition iunlock :: "nat \<Rightarrow> kernel \<Rightarrow> kstep" where
  "iunlock i s =
     bindE (holdingsleep (SlInode i) s) (\<lambda>(h, s).
       if \<not> h \<or> i_ref (icache s ! i) < 1 then Inl (Panic ''iunlock'')
       else releasesleep (SlInode i) s)"

definition set_addr :: "nat \<Rightarrow> nat \<Rightarrow> u32 \<Rightarrow> kernel \<Rightarrow> kernel" where
  "set_addr i k v s = upd_inode i (\<lambda>ip. ip\<lparr>i_addrs := (i_addrs ip)[k := v]\<rparr>) s"

text \<open>\<^verbatim>\<open>if((addr = ip->addrs[k]) == 0) ip->addrs[k] = addr = balloc(ip->dev)\<close>\<close>

definition bmap_slot :: "nat \<Rightarrow> nat \<Rightarrow> kernel \<Rightarrow> u32 kres" where
  "bmap_slot i k s =
     (let addr = i_addrs (icache s ! i) ! k in
      if addr = 0
      then bindE (balloc (i_dev (icache s ! i)) s) (\<lambda>(addr, s). Inr (addr, set_addr i k addr s))
      else Inr (addr, s))"

definition bmap :: "nat \<Rightarrow> u32 \<Rightarrow> kernel \<Rightarrow> u32 kres" where
  "bmap i bn s =
     (if unat bn < NDIRECT then bmap_slot i (unat bn) s
      else
        let k = unat bn - NDIRECT in
        if k < NINDIRECT then
          bindE (bmap_slot i NDIRECT s) (\<lambda>(addr, s).
          bindE (bread (i_dev (icache s ! i)) addr s) (\<lambda>(bp, s).
            let a = load32 (b_data (bufs s ! bp)) (4 * k) in
            bindE (if a = 0 then
                     bindE (balloc (i_dev (icache s ! i)) s) (\<lambda>(a, s).
                     bindE (log_write bp (bset bp (\<lambda>d. store32 d (4 * k) a) s)) (\<lambda>s. Inr (a, s)))
                   else Inr (a, s)) (\<lambda>(a, s).
            bindE (brelse bp s) (\<lambda>s. Inr (a, s)))))
        else Inl (Panic ''bmap: out of range''))"

definition itrunc_direct :: "nat \<Rightarrow> nat \<Rightarrow> kernel \<Rightarrow> kstep" where
  "itrunc_direct i k s =
     (let ip = icache s ! i in
      if i_addrs ip ! k \<noteq> 0
      then bindE (bfree (i_dev ip) (i_addrs ip ! k) s) (\<lambda>s. Inr (set_addr i k 0 s))
      else Inr s)"

definition itrunc :: "nat \<Rightarrow> kernel \<Rightarrow> kstep" where
  "itrunc i s =
     bindE (foldE (itrunc_direct i) [0..<NDIRECT] s) (\<lambda>s.
     bindE (let dev = i_dev (icache s ! i); addr = i_addrs (icache s ! i) ! NDIRECT in
            if addr \<noteq> 0 then
              bindE (bread dev addr s) (\<lambda>(bp, s).
              bindE (foldE (\<lambda>j s. let a = load32 (b_data (bufs s ! bp)) (4 * j) in
                       if a \<noteq> 0 then bfree dev a s else Inr s) [0..<NINDIRECT] s) (\<lambda>s.
              bindE (brelse bp s) (\<lambda>s.
              bindE (bfree dev addr s) (\<lambda>s. Inr (set_addr i NDIRECT 0 s)))))
            else Inr s) (\<lambda>s.
       iupdate i (upd_inode i (\<lambda>ip. ip\<lparr>i_size := 0\<rparr>) s)))"

definition iput :: "nat \<Rightarrow> kernel \<Rightarrow> kstep" where
  "iput i s =
     bindE (acquire IcacheLk s) (\<lambda>s.
       let ip = icache s ! i in
       bindE (if i_ref ip = 1 \<and> i_valid ip \<and> i_nlink ip = 0 then
                bindE (acquiresleep (SlInode i) s) (\<lambda>s.
                bindE (release IcacheLk s) (\<lambda>s.
                bindE (itrunc i s) (\<lambda>s.
                bindE (iupdate i (upd_inode i (\<lambda>ip. ip\<lparr>i_type := 0\<rparr>) s)) (\<lambda>s.
                bindE (releasesleep (SlInode i) (upd_inode i (\<lambda>ip. ip\<lparr>i_valid := False\<rparr>) s)) (acquire IcacheLk)))))
              else Inr s) (\<lambda>s.
         release IcacheLk (upd_inode i (\<lambda>ip. ip\<lparr>i_ref := i_ref ip - 1\<rparr>) s)))"

definition iunlockput :: "nat \<Rightarrow> kernel \<Rightarrow> kstep" where
  "iunlockput i s = bindE (iunlock i s) (iput i)"

record kstat =
  st_dev :: u32
  st_ino :: u32
  st_type :: u16
  st_nlink :: u16
  st_size :: u64

definition stati :: "nat \<Rightarrow> kernel \<Rightarrow> kstat" where
  "stati i s = (let ip = icache s ! i in
     \<lparr>st_dev = i_dev ip, st_ino = i_inum ip, st_type = i_type ip, st_nlink = i_nlink ip,
      st_size = ucast (i_size ip)\<rparr>)"

section \<open>Inode content\<close>

text \<open>\<^verbatim>\<open>m = min(n - tot, BSIZE - off%BSIZE)\<close>, which is positive, so both loops end.\<close>

definition rw_chunk :: "u32 \<Rightarrow> u32 \<Rightarrow> u32" where
  "rw_chunk off left = (if left < 1024 - off mod 1024 then left else 1024 - off mod 1024)"

lemma unat_rw_chunk: "unat (rw_chunk off left) = min (unat left) (1024 - unat off mod 1024)"
proof -
  have m: "unat (off mod 1024) = unat off mod 1024" by (simp add: unat_mod)
  then have "unat (1024 - off mod 1024) = 1024 - unat off mod 1024"
    by (subst unat_sub_if') (simp add: m less_imp_le)
  then show ?thesis by (auto simp: rw_chunk_def word_less_nat_alt)
qed

lemma rw_chunk_decreases:
  assumes "tot < n"
  shows "unat n - unat (tot + rw_chunk off (n - tot)) < unat n - unat tot"
proof -
  have t: "unat tot < unat n" using assms by (simp add: word_less_nat_alt)
  then have d: "unat (n - tot) = unat n - unat tot" by (simp add: unat_sub_if')
  then have "0 < unat (rw_chunk off (n - tot))" "unat (rw_chunk off (n - tot)) \<le> unat n - unat tot"
    using t by (auto simp: unat_rw_chunk)
  moreover from this have "unat (tot + rw_chunk off (n - tot)) = unat tot + unat (rw_chunk off (n - tot))"
    using t unat_less_32[of n] by (simp add: unat_word_ariths)
  ultimately show ?thesis using t by linarith
qed

function readi_from :: "nat \<Rightarrow> bool \<Rightarrow> u64 \<Rightarrow> u32 \<Rightarrow> u32 \<Rightarrow> u32 \<Rightarrow> kernel \<Rightarrow> u32 kres" where
  "readi_from i user_dst dst off n tot s =
     (if tot < n then
        bindE (bmap i (off div 1024) s) (\<lambda>(bn, s).
        bindE (bread (i_dev (icache s ! i)) bn s) (\<lambda>(bp, s).
          let m = rw_chunk off (n - tot) in
          bindE (either_copyout user_dst dst
                   (\<lambda>k. b_data (bufs s ! bp) (unat (off mod 1024) + k)) (ucast m) s) (\<lambda>(r, s).
          bindE (brelse bp s) (\<lambda>s.
            if r = -1 then Inr (-1, s)
            else readi_from i user_dst (dst + ucast m) (off + m) n (tot + m) s))))
      else Inr (tot, s))"
  by pat_completeness auto
termination
  by (relation "measure (\<lambda>(_, _, _, _, n, tot, _). unat n - unat tot)") (auto intro: rw_chunk_decreases)

definition readi :: "nat \<Rightarrow> bool \<Rightarrow> u64 \<Rightarrow> u32 \<Rightarrow> u32 \<Rightarrow> kernel \<Rightarrow> int kres" where
  "readi i user_dst dst off n s =
     (let sz = i_size (icache s ! i) in
      if off > sz \<or> off + n < off then Inr (0, s)
      else
        let n = (if off + n > sz then sz - off else n) in
        bindE (readi_from i user_dst dst off n 0 s) (\<lambda>(tot, s). Inr (sint tot, s)))"

text \<open>The loop of \<open>writei\<close> returns \<^verbatim>\<open>n\<close> and \<^verbatim>\<open>off\<close> as they are after it.\<close>

function writei_from :: "nat \<Rightarrow> bool \<Rightarrow> u64 \<Rightarrow> u32 \<Rightarrow> u32 \<Rightarrow> u32 \<Rightarrow> kernel \<Rightarrow> (u32 \<times> u32) kres" where
  "writei_from i user_src src off n tot s =
     (if tot < n then
        bindE (bmap i (off div 1024) s) (\<lambda>(bn, s).
        bindE (bread (i_dev (icache s ! i)) bn s) (\<lambda>(bp, s).
          let m = rw_chunk off (n - tot);
              o1 = unat (off mod 1024) in
          bindE (either_copyin (\<lambda>k. b_data (bufs s ! bp) (o1 + k)) user_src src (ucast m) s) (\<lambda>((r, d'), s).
            let s = bset bp (\<lambda>d. blit d o1 d' 0 (unat m)) s in
            if r = -1 then bindE (brelse bp s) (\<lambda>s. Inr ((-1, off), s))
            else
              bindE (log_write bp s) (\<lambda>s.
              bindE (brelse bp s) (\<lambda>s.
                writei_from i user_src (src + ucast m) (off + m) n (tot + m) s)))))
      else Inr ((n, off), s))"
  by pat_completeness auto
termination
  by (relation "measure (\<lambda>(_, _, _, _, n, tot, _). unat n - unat tot)") (auto intro: rw_chunk_decreases)

definition writei :: "nat \<Rightarrow> bool \<Rightarrow> u64 \<Rightarrow> u32 \<Rightarrow> u32 \<Rightarrow> kernel \<Rightarrow> int kres" where
  "writei i user_src src off n s =
     (if off > i_size (icache s ! i) \<or> off + n < off then Inr (-1, s)
      else if unat (off + n) > MAXFILE * BSIZE then Inr (-1, s)
      else
        bindE (writei_from i user_src src off n 0 s) (\<lambda>((n, off), s).
          bindE (if n > 0
                 then iupdate i (if off > i_size (icache s ! i) then upd_inode i (\<lambda>ip. ip\<lparr>i_size := off\<rparr>) s else s)
                 else Inr s) (\<lambda>s.
            Inr (sint n, s))))"

section \<open>Directories\<close>

definition namecmp :: "bytes \<Rightarrow> bytes \<Rightarrow> int" where
  "namecmp p q = strncmp p q DIRSIZ"

text \<open>The address of a local variable: a place on the kernel stack of the running process.\<close>

definition local_addr :: "kernel \<Rightarrow> u64" where
  "local_addr s = (case curproc s of None \<Rightarrow> 0 | Some p \<Rightarrow> p_kstack (procs s ! p))"

definition dirent_offs :: "u32 \<Rightarrow> u32 list" where
  "dirent_offs sz = map (\<lambda>k. of_nat (16 * k)) [0..<(unat sz + 15) div 16]"

fun dirlookup_scan :: "nat \<Rightarrow> bytes \<Rightarrow> u32 list \<Rightarrow> kernel \<Rightarrow> ((nat \<times> u32) option) kres" where
  "dirlookup_scan dp name [] s = Inr (None, s)"
| "dirlookup_scan dp name (off # offs) s =
     (let de = local_addr s in
      bindE (readi dp False de off 16 s) (\<lambda>(r, s).
        if r \<noteq> 16 then Inl (Panic ''dirlookup read'')
        else
          let inum = load16 (mem s) (unat de) in
          if inum = 0 then dirlookup_scan dp name offs s
          else if namecmp name (\<lambda>k. mem s (unat de + 2 + k)) = 0
          then bindE (iget (i_dev (icache s ! dp)) (ucast inum) s) (\<lambda>(i, s). Inr (Some (i, off), s))
          else dirlookup_scan dp name offs s))"

text \<open>The inode found and the offset of its entry, which the caller stores through \<^verbatim>\<open>poff\<close>.\<close>

definition dirlookup :: "nat \<Rightarrow> bytes \<Rightarrow> kernel \<Rightarrow> ((nat \<times> u32) option) kres" where
  "dirlookup dp name s =
     (if i_type (icache s ! dp) \<noteq> T_DIR then Inl (Panic ''dirlookup not DIR'')
      else dirlookup_scan dp name (dirent_offs (i_size (icache s ! dp))) s)"

text \<open>The loop of \<open>dirlink\<close>: the offset of the first free entry, or the end \<open>e\<close> of the directory.\<close>

fun dirlink_slot :: "nat \<Rightarrow> u32 \<Rightarrow> u32 list \<Rightarrow> kernel \<Rightarrow> u32 kres" where
  "dirlink_slot dp e [] s = Inr (e, s)"
| "dirlink_slot dp e (off # offs) s =
     (let de = local_addr s in
      bindE (readi dp False de off 16 s) (\<lambda>(r, s).
        if r \<noteq> 16 then Inl (Panic ''dirlink read'')
        else if load16 (mem s) (unat de) = 0 then Inr (off, s)
        else dirlink_slot dp e offs s))"

definition dirlink :: "nat \<Rightarrow> bytes \<Rightarrow> u32 \<Rightarrow> kernel \<Rightarrow> int kres" where
  "dirlink dp name inum s =
     bindE (dirlookup dp name s) (\<lambda>(r, s).
       case r of
         Some (i, _) \<Rightarrow> bindE (iput i s) (\<lambda>s. Inr (-1, s))
       | None \<Rightarrow>
           let offs = dirent_offs (i_size (icache s ! dp)); de = local_addr s in
           bindE (dirlink_slot dp (of_nat (16 * length offs)) offs s) (\<lambda>(off, s).
             let s = set_mem (\<lambda>m. blit m (unat de + 2)
                       (strncpy (\<lambda>k. m (unat de + 2 + k)) name (int DIRSIZ)) 0 DIRSIZ) s;
                 s = set_mem (\<lambda>m. store16 m (unat de) (ucast inum)) s in
             bindE (writei dp False de off 16 s) (\<lambda>(r, s).
               if r \<noteq> 16 then Inl (Panic ''dirlink'') else Inr (0, s))))"

section \<open>Paths\<close>

abbreviation slash :: u8 where "slash \<equiv> 0x2F"

definition put_name :: "u8 list \<Rightarrow> bytes \<Rightarrow> bytes" where
  "put_name elem name =
     (let len = length elem in
      if len \<ge> DIRSIZ then (\<lambda>k. if k < DIRSIZ then elem ! k else name k)
      else (\<lambda>k. if k < len then elem ! k else if k = len then 0 else name k))"

definition skipelem :: "u8 list \<Rightarrow> bytes \<Rightarrow> (u8 list \<times> bytes) option" where
  "skipelem path name =
     (let path = dropWhile (\<lambda>c. c = slash) path in
      if path = [] then None
      else
        let elem = takeWhile (\<lambda>c. c \<noteq> slash) path;
            path = dropWhile (\<lambda>c. c \<noteq> slash) path
        in Some (dropWhile (\<lambda>c. c = slash) path, put_name elem name))"

lemma skipelem_shorter: "skipelem path name = Some (path', name') \<Longrightarrow> length path' < length path"
proof -
  assume h: "skipelem path name = Some (path', name')"
  let ?p = "dropWhile (\<lambda>c. c = slash) path"
  have ne: "?p \<noteq> []" and p': "path' = dropWhile (\<lambda>c. c = slash) (dropWhile (\<lambda>c. c \<noteq> slash) ?p)"
    using h by (auto simp: skipelem_def Let_def split: if_splits)
  obtain c cs where c: "?p = c # cs" using ne by (cases ?p) auto
  have "c \<noteq> slash" using hd_dropWhile[OF ne] c by simp
  then have "dropWhile (\<lambda>c. c \<noteq> slash) ?p = dropWhile (\<lambda>c. c \<noteq> slash) cs" by (simp add: c)
  then have "length path' \<le> length cs" unfolding p' by (metis dual_order.trans length_dropWhile_le)
  moreover have "length (c # cs) \<le> length path" unfolding c[symmetric] by (rule length_dropWhile_le)
  ultimately show ?thesis by simp
qed

function namex_from :: "u8 list \<Rightarrow> bool \<Rightarrow> bytes \<Rightarrow> nat \<Rightarrow> kernel \<Rightarrow> (nat option \<times> bytes) kres" where
  "namex_from path parent name i s =
     (case skipelem path name of
        None \<Rightarrow>
          if parent then bindE (iput i s) (\<lambda>s. Inr ((None, name), s)) else Inr ((Some i, name), s)
      | Some (path, name) \<Rightarrow>
          bindE (ilock i s) (\<lambda>s.
            if i_type (icache s ! i) \<noteq> T_DIR then bindE (iunlockput i s) (\<lambda>s. Inr ((None, name), s))
            else if parent \<and> path = [] then bindE (iunlock i s) (\<lambda>s. Inr ((Some i, name), s))
            else
              bindE (dirlookup i name s) (\<lambda>(r, s).
                case r of
                  None \<Rightarrow> bindE (iunlockput i s) (\<lambda>s. Inr ((None, name), s))
                | Some (next, _) \<Rightarrow>
                    bindE (iunlockput i s) (\<lambda>s. namex_from path parent name next s))))"
  by pat_completeness auto
termination
  by (relation "measure (\<lambda>(path, _). length path)") (auto dest!: sym[of _ "skipelem _ _"] simp: skipelem_shorter)

definition namex :: "u8 list \<Rightarrow> bool \<Rightarrow> bytes \<Rightarrow> kernel \<Rightarrow> (nat option \<times> bytes) kres" where
  "namex path parent name s =
     bindE (if path \<noteq> [] \<and> hd path = slash then iget ROOTDEV ROOTINO s
            else bindE (myproc s) (\<lambda>p.
              case p_cwd (procs s ! p) of None \<Rightarrow> Inl Fault | Some i \<Rightarrow> idup i s)) (\<lambda>(i, s).
       namex_from path parent name i s)"

definition namei :: "u8 list \<Rightarrow> kernel \<Rightarrow> (nat option) kres" where
  "namei path s = bindE (namex path False (\<lambda>_. 0) s) (\<lambda>((r, _), s). Inr (r, s))"

definition nameiparent :: "u8 list \<Rightarrow> bytes \<Rightarrow> kernel \<Rightarrow> (nat option \<times> bytes) kres" where
  "nameiparent path name s = namex path True name s"

declare readi_from.simps [simp del] writei_from.simps [simp del] namex_from.simps [simp del]

end
