(* ===== verification/Pipe.thy ===== *)
theory Pipe
  imports Vm
begin

text \<open>
  Pipes, \<^verbatim>\<open>kernel/pipe.c\<close> (\<^verbatim>\<open>pipealloc\<close> is in the theory \<^verbatim>\<open>File\<close>). The pipe in the page at
  address \<open>pi\<close> is \<open>pipes s pi\<close>; \<^verbatim>\<open>nread\<close> and \<^verbatim>\<open>nwrite\<close> are free-running 32-bit counters
  into the 512-byte ring. A writer or reader that has to sleep stops at \<open>Block\<close>, with the state
  at that point and the bytes it has already moved, and goes on from there when it is woken.
\<close>

section \<open>The operations\<close>

definition upd_pipe :: "u64 \<Rightarrow> (pipe \<Rightarrow> pipe) \<Rightarrow> kernel \<Rightarrow> kernel" where
  "upd_pipe pi f s = s\<lparr>pipes := (pipes s)(pi := f (pipes s pi))\<rparr>"

definition pipeclose :: "u64 \<Rightarrow> bool \<Rightarrow> kernel \<Rightarrow> kstep" where
  "pipeclose pi writable s =
     bindE (acquire (PipeLk pi) s) (\<lambda>s.
     bindE (if writable
            then wakeup (ChPipeRead pi) (upd_pipe pi (\<lambda>p. p\<lparr>pi_writeopen := False\<rparr>) s)
            else wakeup (ChPipeWrite pi) (upd_pipe pi (\<lambda>p. p\<lparr>pi_readopen := False\<rparr>) s)) (\<lambda>s.
       if \<not> pi_readopen (pipes s pi) \<and> \<not> pi_writeopen (pipes s pi)
       then bindE (release (PipeLk pi) s) (kfree pi)
       else release (PipeLk pi) s))"

datatype progress = Return int | Block nat

definition pipe_full :: "pipe \<Rightarrow> bool" where
  "pipe_full p \<longleftrightarrow> pi_nwrite p = pi_nread p + of_nat PIPESIZE"

definition pipe_put :: "u8 \<Rightarrow> pipe \<Rightarrow> pipe" where
  "pipe_put ch p = p\<lparr>pi_data := (pi_data p)(unat (pi_nwrite p mod of_nat PIPESIZE) := ch),
     pi_nwrite := pi_nwrite p + 1\<rparr>"

definition pipe_get :: "pipe \<Rightarrow> u8 \<times> pipe" where
  "pipe_get p = (pi_data p (unat (pi_nread p mod of_nat PIPESIZE)), p\<lparr>pi_nread := pi_nread p + 1\<rparr>)"

text \<open>The loop of \<open>pipewrite\<close> with \<open>k\<close> bytes to go, \<open>i\<close> already written.\<close>

fun pipewrite_loop :: "u64 \<Rightarrow> u64 \<Rightarrow> nat \<Rightarrow> nat \<Rightarrow> kernel \<Rightarrow> progress kres" where
  "pipewrite_loop pi addr i 0 s =
     bindE (wakeup (ChPipeRead pi) s) (\<lambda>s.
     bindE (release (PipeLk pi) s) (\<lambda>s. Inr (Return (int i), s)))"
| "pipewrite_loop pi addr i (Suc k) s =
     bindE (myproc s) (\<lambda>pr.
       if pipe_full (pipes s pi) then
         if \<not> pi_readopen (pipes s pi) \<or> p_killed (procs s ! pr)
         then bindE (release (PipeLk pi) s) (\<lambda>s. Inr (Return (-1), s))
         else bindE (wakeup (ChPipeRead pi) s) (\<lambda>s. Inr (Block i, s))
       else
         bindE (copyin (p_pagetable (procs s ! pr)) (\<lambda>_. 0) (addr + of_nat i) 1 s) (\<lambda>((r, ch), s).
           if r = -1 then
             bindE (wakeup (ChPipeRead pi) s) (\<lambda>s.
             bindE (release (PipeLk pi) s) (\<lambda>s. Inr (Return (int i), s)))
           else pipewrite_loop pi addr (Suc i) k (upd_pipe pi (pipe_put (ch 0)) s)))"

definition pipewrite_run :: "u64 \<Rightarrow> u64 \<Rightarrow> int \<Rightarrow> nat \<Rightarrow> kernel \<Rightarrow> progress kres" where
  "pipewrite_run pi addr n i s = pipewrite_loop pi addr i (nat n - i) s"

definition pipewrite :: "u64 \<Rightarrow> u64 \<Rightarrow> int \<Rightarrow> kernel \<Rightarrow> int kres" where
  "pipewrite pi addr n s =
     bindE (acquire (PipeLk pi) s) (\<lambda>s.
     bindE (pipewrite_run pi addr n 0 s) (\<lambda>(r, s).
       case r of
         Return v \<Rightarrow> Inr (v, s)
       | Block i \<Rightarrow> sleep (ChPipeWrite pi) (PipeLk pi) s))"

fun piperead_loop :: "u64 \<Rightarrow> u64 \<Rightarrow> nat \<Rightarrow> nat \<Rightarrow> kernel \<Rightarrow> nat kres" where
  "piperead_loop pi addr i 0 s = Inr (i, s)"
| "piperead_loop pi addr i (Suc k) s =
     bindE (myproc s) (\<lambda>pr.
       if pi_nread (pipes s pi) = pi_nwrite (pipes s pi) then Inr (i, s)
       else
         let (ch, p) = pipe_get (pipes s pi);
             s = upd_pipe pi (\<lambda>_. p) s in
         bindE (copyout (p_pagetable (procs s ! pr)) (addr + of_nat i) (\<lambda>_. ch) 1 s) (\<lambda>(r, s).
           if r = -1 then Inr (i, s) else piperead_loop pi addr (Suc i) k s))"

definition piperead_run :: "u64 \<Rightarrow> u64 \<Rightarrow> int \<Rightarrow> kernel \<Rightarrow> progress kres" where
  "piperead_run pi addr n s =
     bindE (myproc s) (\<lambda>pr.
       if pi_nread (pipes s pi) = pi_nwrite (pipes s pi) \<and> pi_writeopen (pipes s pi) then
         if p_killed (procs s ! pr) then bindE (release (PipeLk pi) s) (\<lambda>s. Inr (Return (-1), s))
         else Inr (Block 0, s)
       else
         bindE (piperead_loop pi addr 0 (nat n) s) (\<lambda>(i, s).
         bindE (wakeup (ChPipeWrite pi) s) (\<lambda>s.
         bindE (release (PipeLk pi) s) (\<lambda>s. Inr (Return (int i), s)))))"

definition piperead :: "u64 \<Rightarrow> u64 \<Rightarrow> int \<Rightarrow> kernel \<Rightarrow> int kres" where
  "piperead pi addr n s =
     bindE (acquire (PipeLk pi) s) (\<lambda>s.
     bindE (piperead_run pi addr n s) (\<lambda>(r, s).
       case r of
         Return v \<Rightarrow> Inr (v, s)
       | Block _ \<Rightarrow> sleep (ChPipeRead pi) (PipeLk pi) s))"

end
