(* ===== verification/Uart.thy ===== *)
theory Uart
  imports Vm
begin

text \<open>
  The UART driver, \<^verbatim>\<open>kernel/uart.c\<close>, and the printing routines above it: \<^verbatim>\<open>consputc\<close> of
  \<^verbatim>\<open>console.c\<close>, \<^verbatim>\<open>printf.c\<close>, and \<^verbatim>\<open>procdump\<close> of \<^verbatim>\<open>proc.c\<close>. The 16550 is the part
  \<open>u_room\<close>, \<open>u_out\<close>, \<open>u_rx\<close> of the state: LSR reports an idle transmitter while \<open>u_room\<close> is
  positive, a write to THR appends to \<open>u_out\<close>, a read of RHR takes the head of \<open>u_rx\<close>.
\<close>

section \<open>uart.c\<close>

definition upd_uart :: "(uart \<Rightarrow> uart) \<Rightarrow> kernel \<Rightarrow> kernel" where
  "upd_uart f s = s\<lparr>kuart := f (kuart s)\<rparr>"

definition LSR_TX_IDLE :: "kernel \<Rightarrow> bool" where
  "LSR_TX_IDLE s \<longleftrightarrow> u_room (kuart s) > 0"

definition WriteTHR :: "u8 \<Rightarrow> uart \<Rightarrow> uart" where
  "WriteTHR c u = u\<lparr>u_out := u_out u @ [c], u_room := u_room u - 1\<rparr>"

text \<open>The driver spins until the transmitter is idle, and for ever after a panic.\<close>

definition uartputc_sync :: "u8 \<Rightarrow> kernel \<Rightarrow> kstep" where
  "uartputc_sync c s =
     (if panicked s then Inl Spin
      else if \<not> LSR_TX_IDLE s then Inl Spin
      else Inr (upd_uart (WriteTHR c) s))"

text \<open>Each round of \<open>uartstart\<close> uses up one place in the transmitter, which bounds the loop.\<close>

fun uartstart_loop :: "nat \<Rightarrow> kernel \<Rightarrow> kstep" where
  "uartstart_loop 0 s = Inr s"
| "uartstart_loop (Suc room) s =
     (let u = kuart s in
      if u_tx_w u = u_tx_r u then Inr s
      else
        let c = u_tx_buf u (u_tx_r u);
            s = upd_uart (\<lambda>u. u\<lparr>u_tx_r := (u_tx_r u + 1) mod UART_TX_BUF_SIZE\<rparr>) s in
        bindE (wakeup ChUart s) (\<lambda>s. uartstart_loop room (upd_uart (WriteTHR c) s)))"

definition uartstart :: "kernel \<Rightarrow> kstep" where
  "uartstart s = uartstart_loop (u_room (kuart s)) s"

definition uartputc :: "u8 \<Rightarrow> kernel \<Rightarrow> kstep" where
  "uartputc c s =
     bindE (acquire UartLk s) (\<lambda>s.
       if panicked s then Inl Spin
       else
         let u = kuart s in
         if (u_tx_w u + 1) mod UART_TX_BUF_SIZE = u_tx_r u then sleep ChUart UartLk s
         else
           let s = upd_uart (\<lambda>u. u\<lparr>u_tx_buf := (u_tx_buf u)(u_tx_w u := c),
                                   u_tx_w := (u_tx_w u + 1) mod UART_TX_BUF_SIZE\<rparr>) s in
           bindE (uartstart s) (release UartLk))"

text \<open>\<open>None\<close> is the result -1.\<close>

definition uartgetc :: "kernel \<Rightarrow> u8 option \<times> kernel" where
  "uartgetc s =
     (case u_rx (kuart s) of
        [] \<Rightarrow> (None, s)
      | c # cs \<Rightarrow> (Some c, upd_uart (\<lambda>u. u\<lparr>u_rx := cs\<rparr>) s))"

section \<open>Printing\<close>

text \<open>\<^verbatim>\<open>consputc(BACKSPACE)\<close> is \<open>consputc None\<close>.\<close>

definition consputc :: "u8 option \<Rightarrow> kernel \<Rightarrow> kstep" where
  "consputc c s =
     (case c of
        None \<Rightarrow> bindE (uartputc_sync 8 s) (\<lambda>s. bindE (uartputc_sync 32 s) (uartputc_sync 8))
      | Some c \<Rightarrow> uartputc_sync c s)"

definition cputs :: "u8 list \<Rightarrow> kernel \<Rightarrow> kstep" where
  "cputs cs s = foldE (\<lambda>c. consputc (Some c)) cs s"

definition ascii :: "string \<Rightarrow> u8 list" where
  "ascii cs = map of_char cs"

definition digits :: "nat \<Rightarrow> u8" where
  "digits d = ascii ''0123456789abcdef'' ! d"

text \<open>The \<^verbatim>\<open>do\<close> loop of \<open>printint\<close>: the digits of \<open>x\<close>, least significant first.\<close>

function printint_digits :: "nat \<Rightarrow> nat \<Rightarrow> u8 list" where
  "printint_digits base x =
     digits (x mod base) # (if base \<ge> 2 \<and> x div base \<noteq> 0 then printint_digits base (x div base) else [])"
  by pat_completeness auto
termination
  by (relation "measure snd") (auto simp: div_greater_zero_iff intro!: div_less_dividend)

declare printint_digits.simps [simp del]

definition printint_chars :: "u32 \<Rightarrow> nat \<Rightarrow> bool \<Rightarrow> u8 list" where
  "printint_chars xx base sign =
     (let neg = (sign \<and> sint xx < 0);
          x = (if neg then - xx else xx)
      in rev (printint_digits base (unat x) @ (if neg then ascii ''-'' else [])))"

definition printint :: "u32 \<Rightarrow> nat \<Rightarrow> bool \<Rightarrow> kernel \<Rightarrow> kstep" where
  "printint xx base sign s = cputs (printint_chars xx base sign) s"

definition printptr_chars :: "u64 \<Rightarrow> u8 list" where
  "printptr_chars x = ascii ''0x'' @ map (\<lambda>i. digits (unat (drop_bit 60 (push_bit (4 * i) x)))) [0..<16]"

definition printptr :: "u64 \<Rightarrow> kernel \<Rightarrow> kstep" where
  "printptr x s = cputs (printptr_chars x) s"

text \<open>The variable arguments; a null \<^verbatim>\<open>char*\<close> is \<open>None\<close>. Taking an argument that is not there is a fault.\<close>

datatype vararg = ArgInt u32 | ArgPtr u64 | ArgStr "u8 list option"

fun printf_loop :: "u8 list \<Rightarrow> vararg list \<Rightarrow> kernel \<Rightarrow> kstep" where
  "printf_loop [] ap s = Inr s"
| "printf_loop (c # fmt) ap s =
     (if c \<noteq> of_char CHR ''%'' then bindE (consputc (Some c) s) (printf_loop fmt ap)
      else
        case fmt of
          [] \<Rightarrow> Inr s
        | c # fmt \<Rightarrow>
            if c = of_char CHR ''d'' then
              (case ap of ArgInt x # ap \<Rightarrow> bindE (printint x 10 True s) (printf_loop fmt ap) | _ \<Rightarrow> Inl Fault)
            else if c = of_char CHR ''x'' then
              (case ap of ArgInt x # ap \<Rightarrow> bindE (printint x 16 True s) (printf_loop fmt ap) | _ \<Rightarrow> Inl Fault)
            else if c = of_char CHR ''p'' then
              (case ap of ArgPtr x # ap \<Rightarrow> bindE (printptr x s) (printf_loop fmt ap) | _ \<Rightarrow> Inl Fault)
            else if c = of_char CHR ''s'' then
              (case ap of
                 ArgStr x # ap \<Rightarrow>
                   bindE (cputs (case x of None \<Rightarrow> ascii ''(null)'' | Some cs \<Rightarrow> cs) s) (printf_loop fmt ap)
               | _ \<Rightarrow> Inl Fault)
            else if c = of_char CHR ''%'' then bindE (consputc (Some c) s) (printf_loop fmt ap)
            else bindE (cputs [of_char CHR ''%'', c] s) (printf_loop fmt ap))"

definition printf :: "u8 list option \<Rightarrow> vararg list \<Rightarrow> kernel \<Rightarrow> kstep" where
  "printf fmt ap s =
     (let locking = pr_locking s in
      bindE (if locking then acquire PrLk s else Inr s) (\<lambda>s.
        case fmt of
          None \<Rightarrow> Inl (Panic ''null fmt'')
        | Some fmt \<Rightarrow>
            bindE (printf_loop fmt ap s) (\<lambda>s. if locking then release PrLk s else Inr s)))"

text \<open>\<open>panic\<close> up to its final endless loop; the rest of the development writes it \<open>Panic\<close>.\<close>

definition panic :: "u8 list \<Rightarrow> kernel \<Rightarrow> kstep" where
  "panic msg s =
     bindE (printf (Some (ascii ''panic: '')) [] (s\<lparr>pr_locking := False\<rparr>)) (\<lambda>s.
     bindE (printf (Some msg) [] s) (\<lambda>s.
     bindE (printf (Some [10]) [] s) (\<lambda>s. Inr (s\<lparr>panicked := True\<rparr>))))"

definition printfinit :: "kernel \<Rightarrow> kernel" where
  "printfinit s = s\<lparr>pr_locking := True\<rparr>"

definition cstr :: "nat \<Rightarrow> bytes \<Rightarrow> u8 list" where
  "cstr n f = takeWhile (\<lambda>c. c \<noteq> 0) (map f [0..<n])"

definition state_name :: "procstate \<Rightarrow> u8 list" where
  "state_name st = ascii (case st of UNUSED \<Rightarrow> ''unused'' | SLEEPING \<Rightarrow> ''sleep '' | RUNNABLE \<Rightarrow> ''runble''
     | RUNNING \<Rightarrow> ''run   '' | ZOMBIE \<Rightarrow> ''zombie'')"

definition procdump :: "kernel \<Rightarrow> kstep" where
  "procdump s =
     bindE (printf (Some [10]) [] s) (\<lambda>s.
       foldE (\<lambda>i s. let p = procs s ! i in
         if p_state p = UNUSED then Inr s
         else bindE (printf (Some (ascii ''%d %s %s''))
                [ArgInt (of_int (p_pid p)), ArgStr (Some (state_name (p_state p))),
                 ArgStr (Some (cstr 16 (p_name p)))] s)
                (printf (Some [10]) [])) [0..<NPROC] s)"

end
