(* ===== verification/Console.thy ===== *)
theory Console
  imports Uart
begin

text \<open>
  The console, \<^verbatim>\<open>kernel/console.c\<close>, and \<^verbatim>\<open>uartintr\<close> of \<^verbatim>\<open>uart.c\<close>. The line-editing ring has
  free-running indices: \<open>c_r\<close> up to where readers have read, \<open>c_w\<close> up to where lines are
  complete, \<open>c_e\<close> up to where the user has typed.
\<close>

section \<open>The operations\<close>

definition upd_cons :: "(cons \<Rightarrow> cons) \<Rightarrow> kernel \<Rightarrow> kernel" where
  "upd_cons f s = s\<lparr>kcons := f (kcons s)\<rparr>"

definition cbuf_at :: "u32 \<Rightarrow> nat" where
  "cbuf_at i = unat (i mod of_nat INPUT_BUF)"

text \<open>\<open>k\<close> bytes to go, \<open>i\<close> already sent.\<close>

fun consolewrite_loop :: "bool \<Rightarrow> u64 \<Rightarrow> nat \<Rightarrow> nat \<Rightarrow> kernel \<Rightarrow> nat kres" where
  "consolewrite_loop user_src src i 0 s = Inr (i, s)"
| "consolewrite_loop user_src src i (Suc k) s =
     bindE (either_copyin (\<lambda>_. 0) user_src (src + of_nat i) 1 s) (\<lambda>((r, c), s).
       if r = -1 then Inr (i, s)
       else bindE (uartputc (c 0) s) (consolewrite_loop user_src src (Suc i) k))"

definition consolewrite :: "bool \<Rightarrow> u64 \<Rightarrow> int \<Rightarrow> kernel \<Rightarrow> int kres" where
  "consolewrite user_src src n s =
     bindE (acquire ConsLk s) (\<lambda>s.
     bindE (consolewrite_loop user_src src 0 (nat n) s) (\<lambda>(i, s).
     bindE (release ConsLk s) (\<lambda>s. Inr (int i, s))))"

text \<open>
  The loop of \<open>consoleread\<close> with \<open>n\<close> bytes wanted of the \<open>target\<close>; \<open>Inl n\<close> is a reader that
  has to wait for input and goes on with \<open>n\<close>.
\<close>

fun consoleread_loop :: "bool \<Rightarrow> u64 \<Rightarrow> nat \<Rightarrow> nat \<Rightarrow> kernel \<Rightarrow> (nat + int) kres" where
  "consoleread_loop user_dst dst target 0 s =
     bindE (release ConsLk s) (\<lambda>s. Inr (Inr (int target), s))"
| "consoleread_loop user_dst dst target (Suc n) s =
     bindE (myproc s) (\<lambda>p.
       if c_r (kcons s) = c_w (kcons s) then
         if p_killed (procs s ! p) then bindE (release ConsLk s) (\<lambda>s. Inr (Inr (-1), s))
         else Inr (Inl (Suc n), s)
       else
         let c = c_buf (kcons s) (cbuf_at (c_r (kcons s)));
             s = upd_cons (\<lambda>x. x\<lparr>c_r := c_r x + 1\<rparr>) s in
         if c = 4 then
           let s = (if Suc n < target then upd_cons (\<lambda>x. x\<lparr>c_r := c_r x - 1\<rparr>) s else s) in
           bindE (release ConsLk s) (\<lambda>s. Inr (Inr (int target - int (Suc n)), s))
         else
           bindE (either_copyout user_dst dst (\<lambda>_. c) 1 s) (\<lambda>(r, s).
             if r = -1 then bindE (release ConsLk s) (\<lambda>s. Inr (Inr (int target - int (Suc n)), s))
             else if c = 10 then bindE (release ConsLk s) (\<lambda>s. Inr (Inr (int target - int n), s))
             else consoleread_loop user_dst (dst + 1) target n s))"

definition consoleread :: "bool \<Rightarrow> u64 \<Rightarrow> int \<Rightarrow> kernel \<Rightarrow> int kres" where
  "consoleread user_dst dst n s =
     bindE (acquire ConsLk s) (\<lambda>s.
       if n \<le> 0 then bindE (release ConsLk s) (\<lambda>s. Inr (0, s))
       else
         bindE (consoleread_loop user_dst dst (nat n) (nat n) s) (\<lambda>(r, s).
           case r of Inr v \<Rightarrow> Inr (v, s) | Inl _ \<Rightarrow> sleep ChCons ConsLk s))"

text \<open>Control-U: erase back to the start of the line; \<open>k\<close> is \<^verbatim>\<open>cons.e - cons.w\<close>.\<close>

fun cons_kill_line :: "nat \<Rightarrow> kernel \<Rightarrow> kstep" where
  "cons_kill_line 0 s = Inr s"
| "cons_kill_line (Suc k) s =
     (if c_buf (kcons s) (cbuf_at (c_e (kcons s) - 1)) \<noteq> 10
      then bindE (consputc None (upd_cons (\<lambda>x. x\<lparr>c_e := c_e x - 1\<rparr>) s)) (cons_kill_line k)
      else Inr s)"

text \<open>Storing a character: the new ring and whether a whole line has arrived.\<close>

definition cons_store :: "u8 \<Rightarrow> cons \<Rightarrow> cons \<times> bool" where
  "cons_store c x =
     (let x = x\<lparr>c_buf := (c_buf x)(cbuf_at (c_e x) := c), c_e := c_e x + 1\<rparr>;
          full = (c = 10 \<or> c = 4 \<or> c_e x = c_r x + of_nat INPUT_BUF)
      in (if full then x\<lparr>c_w := c_e x\<rparr> else x, full))"

definition consoleintr :: "u8 \<Rightarrow> kernel \<Rightarrow> kstep" where
  "consoleintr c s =
     bindE (acquire ConsLk s) (\<lambda>s.
     bindE
       (if c = 16 then procdump s
        else if c = 21 then cons_kill_line (unat (c_e (kcons s) - c_w (kcons s))) s
        else if c = 8 \<or> c = 127 then
          (if c_e (kcons s) \<noteq> c_w (kcons s)
           then consputc None (upd_cons (\<lambda>x. x\<lparr>c_e := c_e x - 1\<rparr>) s) else Inr s)
        else if c \<noteq> 0 \<and> c_e (kcons s) - c_r (kcons s) < of_nat INPUT_BUF then
          let c = (if c = 13 then 10 else c) in
          bindE (consputc (Some c) s) (\<lambda>s.
            let (x, full) = cons_store c (kcons s);
                s = s\<lparr>kcons := x\<rparr>
            in if full then wakeup ChCons s else Inr s)
        else Inr s)
       (release ConsLk))"

text \<open>The receive loop of \<open>uartintr\<close> ends when the device has no more input.\<close>

fun uartintr_rx :: "nat \<Rightarrow> kernel \<Rightarrow> kstep" where
  "uartintr_rx 0 s = Inr s"
| "uartintr_rx (Suc k) s =
     (case uartgetc s of
        (None, s) \<Rightarrow> Inr s
      | (Some c, s) \<Rightarrow> bindE (consoleintr c s) (uartintr_rx k))"

definition uartintr :: "kernel \<Rightarrow> kstep" where
  "uartintr s =
     bindE (uartintr_rx (length (u_rx (kuart s))) s) (\<lambda>s.
     bindE (acquire UartLk s) (\<lambda>s.
     bindE (uartstart s) (release UartLk)))"

end
