(* ===== verification/File.thy ===== *)
theory File
  imports Fs Pipe Console
begin

text \<open>
  The file table, \<^verbatim>\<open>kernel/file.c\<close>, and \<^verbatim>\<open>pipealloc\<close> of \<^verbatim>\<open>pipe.c\<close>. A \<^verbatim>\<open>struct file*\<close> is an
  index into \<open>ftable\<close>. \<^verbatim>\<open>devsw\<close> is as \<^verbatim>\<open>consoleinit\<close> leaves it: the console, and no other
  device.
\<close>

section \<open>The operations\<close>

definition filealloc :: "kernel \<Rightarrow> (nat option) kres" where
  "filealloc s =
     bindE (acquire FtableLk s) (\<lambda>s.
       case find (\<lambda>i. f_ref (ftable s ! i) = 0) [0..<NFILE] of
         Some i \<Rightarrow>
           bindE (release FtableLk (upd_file i (\<lambda>f. f\<lparr>f_ref := 1\<rparr>) s)) (\<lambda>s. Inr (Some i, s))
       | None \<Rightarrow> bindE (release FtableLk s) (\<lambda>s. Inr (None, s)))"

definition filedup :: "nat \<Rightarrow> kernel \<Rightarrow> nat kres" where
  "filedup f s =
     bindE (acquire FtableLk s) (\<lambda>s.
       if f_ref (ftable s ! f) < 1 then Inl (Panic ''filedup'')
       else bindE (release FtableLk (upd_file f (\<lambda>x. x\<lparr>f_ref := f_ref x + 1\<rparr>) s)) (\<lambda>s. Inr (f, s)))"

definition fileclose :: "nat \<Rightarrow> kernel \<Rightarrow> kstep" where
  "fileclose f s =
     bindE (acquire FtableLk s) (\<lambda>s.
       if f_ref (ftable s ! f) < 1 then Inl (Panic ''fileclose'')
       else
         let s = upd_file f (\<lambda>x. x\<lparr>f_ref := f_ref x - 1\<rparr>) s in
         if f_ref (ftable s ! f) > 0 then release FtableLk s
         else
           let ff = ftable s ! f;
               s = upd_file f (\<lambda>x. x\<lparr>f_ref := 0, f_type := FD_NONE\<rparr>) s in
           bindE (release FtableLk s) (\<lambda>s.
             case f_type ff of
               FD_PIPE \<Rightarrow> pipeclose (f_pipe ff) (f_writable ff) s
             | FD_NONE \<Rightarrow> Inr s
             | _ \<Rightarrow> bindE (begin_op s) (\<lambda>s. bindE (iput (f_ip ff) s) end_op)))"

text \<open>The bytes of a \<^verbatim>\<open>struct stat\<close> of 24 bytes; the padding keeps the contents \<open>pad\<close> of the stack.\<close>

definition stat_bytes :: "kstat \<Rightarrow> bytes \<Rightarrow> bytes" where
  "stat_bytes st pad =
     (let d = store32 pad 0 (st_dev st);
          d = store32 d 4 (st_ino st);
          d = store16 d 8 (st_type st);
          d = store16 d 10 (st_nlink st)
      in store64 d 16 (st_size st))"

definition filestat :: "nat \<Rightarrow> u64 \<Rightarrow> kernel \<Rightarrow> int kres" where
  "filestat f addr s =
     bindE (myproc s) (\<lambda>p.
       let x = ftable s ! f in
       if f_type x = FD_INODE \<or> f_type x = FD_DEVICE then
         bindE (ilock (f_ip x) s) (\<lambda>s.
           let st = stati (f_ip x) s in
           bindE (iunlock (f_ip x) s) (\<lambda>s.
           bindE (copyout (p_pagetable (procs s ! p)) addr
                    (stat_bytes st (\<lambda>k. mem s (unat (local_addr s) + k))) 24 s) (\<lambda>(r, s).
             if r < 0 then Inr (-1, s) else Inr (0, s))))
       else Inr (-1, s))"

definition devsw_read :: "u16 \<Rightarrow> (bool \<Rightarrow> u64 \<Rightarrow> int \<Rightarrow> kernel \<Rightarrow> int kres) option" where
  "devsw_read mj = (if mj = of_nat CONSOLE then Some consoleread else None)"

definition devsw_write :: "u16 \<Rightarrow> (bool \<Rightarrow> u64 \<Rightarrow> int \<Rightarrow> kernel \<Rightarrow> int kres) option" where
  "devsw_write mj = (if mj = of_nat CONSOLE then Some consolewrite else None)"

definition fileread :: "nat \<Rightarrow> u64 \<Rightarrow> int \<Rightarrow> kernel \<Rightarrow> int kres" where
  "fileread f addr n s =
     (let x = ftable s ! f in
      if \<not> f_readable x then Inr (-1, s)
      else case f_type x of
        FD_PIPE \<Rightarrow> piperead (f_pipe x) addr n s
      | FD_DEVICE \<Rightarrow>
          if sint (f_major x) < 0 \<or> sint (f_major x) \<ge> int NDEV then Inr (-1, s)
          else (case devsw_read (f_major x) of None \<Rightarrow> Inr (-1, s) | Some rd \<Rightarrow> rd True addr n s)
      | FD_INODE \<Rightarrow>
          bindE (ilock (f_ip x) s) (\<lambda>s.
          bindE (readi (f_ip x) True addr (f_off (ftable s ! f)) (of_int n) s) (\<lambda>(r, s).
            let s = (if r > 0 then upd_file f (\<lambda>x. x\<lparr>f_off := f_off x + of_int r\<rparr>) s else s) in
            bindE (iunlock (f_ip x) s) (\<lambda>s. Inr (r, s))))
      | FD_NONE \<Rightarrow> Inl (Panic ''fileread''))"

text \<open>One round of the loop of \<open>filewrite\<close>: at most \<open>filewrite_max\<close> bytes in one transaction.\<close>

definition filewrite_max :: int where
  "filewrite_max = ((int MAXOPBLOCKS - 1 - 1 - 2) div 2) * int BSIZE"

definition filewrite_round :: "nat \<Rightarrow> u64 \<Rightarrow> int \<Rightarrow> kernel \<Rightarrow> int kres" where
  "filewrite_round f addr n1 s =
     (let ip = f_ip (ftable s ! f) in
      bindE (begin_op s) (\<lambda>s.
      bindE (ilock ip s) (\<lambda>s.
      bindE (writei ip True addr (f_off (ftable s ! f)) (of_int n1) s) (\<lambda>(r, s).
        let s = (if r > 0 then upd_file f (\<lambda>x. x\<lparr>f_off := f_off x + of_int r\<rparr>) s else s) in
        bindE (iunlock ip s) (\<lambda>s.
        bindE (end_op s) (\<lambda>s. Inr (r, s)))))))"

text \<open>The result is \<^verbatim>\<open>i\<close> when the loop ends.\<close>

function filewrite_loop :: "nat \<Rightarrow> u64 \<Rightarrow> int \<Rightarrow> int \<Rightarrow> kernel \<Rightarrow> int kres" where
  "filewrite_loop f addr n i s =
     (if i < n then
        let n1 = (if n - i > filewrite_max then filewrite_max else n - i) in
        bindE (filewrite_round f (addr + of_int i) n1 s) (\<lambda>(r, s).
          if r < 0 then Inr (i, s)
          else if r \<noteq> n1 then Inl (Panic ''short filewrite'')
          else filewrite_loop f addr n (i + r) s)
      else Inr (i, s))"
  by pat_completeness auto
termination
  by (relation "measure (\<lambda>(_, _, n, i, _). nat (n - i))")
     (auto simp: filewrite_max_def MAXOPBLOCKS_def BSIZE_def)

declare filewrite_loop.simps [simp del]

definition filewrite :: "nat \<Rightarrow> u64 \<Rightarrow> int \<Rightarrow> kernel \<Rightarrow> int kres" where
  "filewrite f addr n s =
     (let x = ftable s ! f in
      if \<not> f_writable x then Inr (-1, s)
      else case f_type x of
        FD_PIPE \<Rightarrow> pipewrite (f_pipe x) addr n s
      | FD_DEVICE \<Rightarrow>
          if sint (f_major x) < 0 \<or> sint (f_major x) \<ge> int NDEV then Inr (-1, s)
          else (case devsw_write (f_major x) of None \<Rightarrow> Inr (-1, s) | Some wr \<Rightarrow> wr True addr n s)
      | FD_INODE \<Rightarrow>
          bindE (filewrite_loop f addr n 0 s) (\<lambda>(i, s). Inr (if i = n then n else -1, s))
      | FD_NONE \<Rightarrow> Inl (Panic ''filewrite''))"

section \<open>pipealloc\<close>

definition close_if :: "nat option \<Rightarrow> kernel \<Rightarrow> kstep" where
  "close_if f s = (case f of None \<Rightarrow> Inr s | Some f \<Rightarrow> fileclose f s)"

text \<open>The two files on success, \<open>None\<close> for the result -1.\<close>

definition pipealloc :: "kernel \<Rightarrow> ((nat \<times> nat) option) kres" where
  "pipealloc s =
     bindE (filealloc s) (\<lambda>(f0, s).
     bindE (if f0 = None then Inr (None, s) else filealloc s) (\<lambda>(f1, s).
     bindE (if f0 = None \<or> f1 = None then Inr (0, s) else kalloc s) (\<lambda>(pi, s).
       case (f0, f1) of
         (Some a, Some b) \<Rightarrow>
           if pi = 0 then bindE (close_if f0 s) (\<lambda>s. bindE (close_if f1 s) (\<lambda>s. Inr (None, s)))
           else
             let s = upd_pipe pi (\<lambda>p. p\<lparr>pi_readopen := True, pi_writeopen := True, pi_nwrite := 0, pi_nread := 0\<rparr>) s;
                 s = upd_file a (\<lambda>x. x\<lparr>f_type := FD_PIPE, f_readable := True, f_writable := False, f_pipe := pi\<rparr>) s;
                 s = upd_file b (\<lambda>x. x\<lparr>f_type := FD_PIPE, f_readable := False, f_writable := True, f_pipe := pi\<rparr>) s
             in Inr (Some (a, b), s)
       | _ \<Rightarrow> bindE (close_if f0 s) (\<lambda>s. bindE (close_if f1 s) (\<lambda>s. Inr (None, s))))))"

end
