(* ===== verification/Proc.thy ===== *)
theory Proc
  imports File
begin

text \<open>
  Processes, \<^verbatim>\<open>kernel/proc.c\<close>. A \<^verbatim>\<open>struct proc*\<close> is an index into \<open>procs\<close>; the trapframe is
  the page at \<open>p_trapframe\<close>, read and written at the offsets of \<^verbatim>\<open>proc.h\<close>. \<^verbatim>\<open>wakeup\<close>,
  \<^verbatim>\<open>sched\<close> and \<^verbatim>\<open>sleep\<close> are in the theory \<^verbatim>\<open>Sleeplock\<close>, \<^verbatim>\<open>either_copyout\<close> and
  \<^verbatim>\<open>either_copyin\<close> in \<^verbatim>\<open>Vm\<close>, \<^verbatim>\<open>procdump\<close> in \<^verbatim>\<open>Uart\<close> and \<^verbatim>\<open>forkret\<close> in \<^verbatim>\<open>Trap\<close>.
\<close>

section \<open>Boot\<close>

definition procinit_one :: "nat \<Rightarrow> kernel \<Rightarrow> kstep" where
  "procinit_one i s =
     bindE (kalloc s) (\<lambda>(pa, s).
       if pa = 0 then Inl (Panic ''kalloc'')
       else
         let va = KSTACK i in
         bindE (kvmmap va pa 4096 (PTE_R OR PTE_W) s) (\<lambda>s.
           Inr (upd_proc i (\<lambda>p. p\<lparr>p_kstack := va\<rparr>) s)))"

definition MAKE_SATP :: "u64 \<Rightarrow> u64" where
  "MAKE_SATP pagetable = push_bit 60 8 OR drop_bit 12 pagetable"

definition kvminithart :: "kernel \<Rightarrow> kernel" where
  "kvminithart s = s\<lparr>csr := (csr s)\<lparr>satp := MAKE_SATP (kernel_pagetable s)\<rparr>\<rparr>"

definition procinit :: "kernel \<Rightarrow> kstep" where
  "procinit s = bindE (foldE procinit_one [0..<NPROC] s) (\<lambda>s. Inr (kvminithart s))"

section \<open>Allocating and freeing processes\<close>

definition allocpid :: "kernel \<Rightarrow> int kres" where
  "allocpid s =
     bindE (acquire PidLk s) (\<lambda>s.
       let pid = nextpid s in
       bindE (release PidLk (s\<lparr>nextpid := nextpid s + 1\<rparr>)) (\<lambda>s. Inr (pid, s)))"

text \<open>The page table, or 0.\<close>

definition proc_pagetable :: "nat \<Rightarrow> kernel \<Rightarrow> u64 kres" where
  "proc_pagetable i s =
     bindE (uvmcreate s) (\<lambda>(pagetable, s).
       if pagetable = 0 then Inr (0, s)
       else
         bindE (mappages pagetable TRAMPOLINE 4096 (k_trampoline s) (PTE_R OR PTE_X) s) (\<lambda>(r, s).
           if r < 0 then bindE (uvmfree pagetable 0 s) (\<lambda>s. Inr (0, s))
           else
             bindE (mappages pagetable TRAPFRAME 4096 (p_trapframe (procs s ! i)) (PTE_R OR PTE_W) s) (\<lambda>(r, s).
               if r < 0 then
                 bindE (uvmunmap pagetable TRAMPOLINE 1 False s) (\<lambda>s.
                 bindE (uvmfree pagetable 0 s) (\<lambda>s. Inr (0, s)))
               else Inr (pagetable, s))))"

definition proc_freepagetable :: "u64 \<Rightarrow> u64 \<Rightarrow> kernel \<Rightarrow> kstep" where
  "proc_freepagetable pagetable sz s =
     bindE (uvmunmap pagetable TRAMPOLINE 1 False s) (\<lambda>s.
     bindE (uvmunmap pagetable TRAPFRAME 1 False s) (uvmfree pagetable sz))"

definition freeproc :: "nat \<Rightarrow> kernel \<Rightarrow> kstep" where
  "freeproc i s =
     (let p = procs s ! i in
      bindE (if p_trapframe p \<noteq> 0 then kfree (p_trapframe p) s else Inr s) (\<lambda>s.
        let s = upd_proc i (\<lambda>p. p\<lparr>p_trapframe := 0\<rparr>) s in
        bindE (if p_pagetable p \<noteq> 0 then proc_freepagetable (p_pagetable p) (p_sz p) s else Inr s) (\<lambda>s.
          Inr (upd_proc i (\<lambda>p. p\<lparr>p_pagetable := 0, p_sz := 0, p_pid := 0, p_parent := None,
            p_name := (p_name p)(0 := 0), p_chan := None, p_killed := False, p_xstate := 0,
            p_state := UNUSED\<rparr>) s))))"

text \<open>The scan for an unused slot, whose lock stays held.\<close>

fun allocproc_scan :: "nat list \<Rightarrow> kernel \<Rightarrow> (nat option) kres" where
  "allocproc_scan [] s = Inr (None, s)"
| "allocproc_scan (i # is) s =
     bindE (acquire (ProcLk i) s) (\<lambda>s.
       if p_state (procs s ! i) = UNUSED then Inr (Some i, s)
       else bindE (release (ProcLk i) s) (allocproc_scan is))"

definition allocproc :: "kernel \<Rightarrow> (nat option) kres" where
  "allocproc s =
     bindE (allocproc_scan [0..<NPROC] s) (\<lambda>(r, s).
       case r of
         None \<Rightarrow> Inr (None, s)
       | Some i \<Rightarrow>
           bindE (allocpid s) (\<lambda>(pid, s).
             let s = upd_proc i (\<lambda>p. p\<lparr>p_pid := pid\<rparr>) s in
             bindE (kalloc s) (\<lambda>(tf, s).
               let s = upd_proc i (\<lambda>p. p\<lparr>p_trapframe := tf\<rparr>) s in
               if tf = 0 then bindE (release (ProcLk i) s) (\<lambda>s. Inr (None, s))
               else
                 bindE (proc_pagetable i s) (\<lambda>(pt, s).
                   let s = upd_proc i (\<lambda>p. p\<lparr>p_pagetable := pt\<rparr>) s in
                   if pt = 0 then
                     bindE (freeproc i s) (\<lambda>s.
                     bindE (release (ProcLk i) s) (\<lambda>s. Inr (None, s)))
                   else
                     Inr (Some i, upd_proc i (\<lambda>p. p\<lparr>p_context := context0\<lparr>ctx_ra := sym_forkret (k_syms s),
                       ctx_sp := p_kstack p + 4096\<rparr>\<rparr>) s)))))"

definition initcode :: "u8 list" where
  "initcode = [
     0x17, 0x05, 0x00, 0x00, 0x13, 0x05, 0x45, 0x02,
     0x97, 0x05, 0x00, 0x00, 0x93, 0x85, 0x35, 0x02,
     0x93, 0x08, 0x70, 0x00, 0x73, 0x00, 0x00, 0x00,
     0x93, 0x08, 0x20, 0x00, 0x73, 0x00, 0x00, 0x00,
     0xef, 0xf0, 0x9f, 0xff, 0x2f, 0x69, 0x6e, 0x69,
     0x74, 0x00, 0x00, 0x24, 0x00, 0x00, 0x00, 0x00,
     0x00, 0x00, 0x00, 0x00]"

text \<open>Offsets in \<open>struct trapframe\<close>, and access to a field of process \<open>i\<close>'s trapframe.\<close>

definition tf_get :: "nat \<Rightarrow> nat \<Rightarrow> kernel \<Rightarrow> u64" where
  "tf_get i off s = load64 (mem s) (unat (p_trapframe (procs s ! i)) + off)"

definition tf_set :: "nat \<Rightarrow> nat \<Rightarrow> u64 \<Rightarrow> kernel \<Rightarrow> kernel" where
  "tf_set i off v s = set_mem (\<lambda>m. store64 m (unat (p_trapframe (procs s ! i)) + off) v) s"

definition tf_kernel_satp :: nat where "tf_kernel_satp = 0"
definition tf_kernel_sp :: nat where "tf_kernel_sp = 8"
definition tf_kernel_trap :: nat where "tf_kernel_trap = 16"
definition tf_epc :: nat where "tf_epc = 24"
definition tf_kernel_hartid :: nat where "tf_kernel_hartid = 32"
definition tf_sp :: nat where "tf_sp = 48"
definition tf_a :: "nat \<Rightarrow> nat" where "tf_a n = 112 + 8 * n"

definition str_bytes :: "u8 list \<Rightarrow> bytes" where
  "str_bytes cs = (\<lambda>i. if i < length cs then cs ! i else 0)"

definition userinit :: "kernel \<Rightarrow> kstep" where
  "userinit s =
     bindE (allocproc s) (\<lambda>(r, s).
       let s = s\<lparr>initproc := r\<rparr> in
       case r of
         None \<Rightarrow> Inl Fault
       | Some i \<Rightarrow>
           bindE (uvminit (p_pagetable (procs s ! i)) (str_bytes initcode) (of_nat (length initcode)) s) (\<lambda>s.
             let s = upd_proc i (\<lambda>p. p\<lparr>p_sz := 4096\<rparr>) s;
                 s = tf_set i tf_epc 0 s;
                 s = tf_set i tf_sp 4096 s;
                 s = upd_proc i (\<lambda>p. p\<lparr>p_name := safestrcpy (p_name p) (str_bytes (ascii ''initcode'')) 16\<rparr>) s in
             bindE (namei [slash] s) (\<lambda>(cwd, s).
               release (ProcLk i) (upd_proc i (\<lambda>p. p\<lparr>p_cwd := cwd, p_state := RUNNABLE\<rparr>) s))))"

text \<open>\<^verbatim>\<open>uint sz\<close>: the size passes through 32 bits.\<close>

definition growproc :: "int \<Rightarrow> kernel \<Rightarrow> int kres" where
  "growproc n s =
     bindE (myproc s) (\<lambda>i.
       let p = procs s ! i; sz = (ucast (p_sz p) :: u32) in
       if n > 0 then
         bindE (uvmalloc (p_pagetable p) (ucast sz) (ucast (sz + of_int n)) s) (\<lambda>(r, s).
           let sz = (ucast r :: u32) in
           if sz = 0 then Inr (-1, s)
           else Inr (0, upd_proc i (\<lambda>p. p\<lparr>p_sz := ucast sz\<rparr>) s))
       else if n < 0 then
         bindE (uvmdealloc (p_pagetable p) (ucast sz) (ucast (sz + of_int n)) s) (\<lambda>(r, s).
           Inr (0, upd_proc i (\<lambda>p. p\<lparr>p_sz := ucast (ucast r :: u32)\<rparr>) s))
       else Inr (0, upd_proc i (\<lambda>p. p\<lparr>p_sz := ucast sz\<rparr>) s))"

section \<open>fork, exit, wait\<close>

definition fork_files :: "nat \<Rightarrow> nat \<Rightarrow> nat \<Rightarrow> kernel \<Rightarrow> kstep" where
  "fork_files i np fd s =
     (case p_ofile (procs s ! i) ! fd of
        None \<Rightarrow> Inr s
      | Some f \<Rightarrow>
          bindE (filedup f s) (\<lambda>(f, s).
            Inr (upd_proc np (\<lambda>p. p\<lparr>p_ofile := (p_ofile p)[fd := Some f]\<rparr>) s)))"

definition fork :: "kernel \<Rightarrow> int kres" where
  "fork s =
     bindE (myproc s) (\<lambda>i.
     bindE (allocproc s) (\<lambda>(r, s).
       case r of
         None \<Rightarrow> Inr (-1, s)
       | Some np \<Rightarrow>
           bindE (uvmcopy (p_pagetable (procs s ! i)) (p_pagetable (procs s ! np)) (p_sz (procs s ! i)) s) (\<lambda>(r, s).
             if r < 0 then
               bindE (freeproc np s) (\<lambda>s.
               bindE (release (ProcLk np) s) (\<lambda>s. Inr (-1, s)))
             else
               let s = upd_proc np (\<lambda>p. p\<lparr>p_sz := p_sz (procs s ! i), p_parent := Some i\<rparr>) s;
                   s = set_mem (\<lambda>m. memmove m (unat (p_trapframe (procs s ! np)))
                                      (unat (p_trapframe (procs s ! i))) 288) s;
                   s = tf_set np (tf_a 0) 0 s in
               bindE (foldE (fork_files i np) [0..<NOFILE] s) (\<lambda>s.
                 case p_cwd (procs s ! i) of
                   None \<Rightarrow> Inl Fault
                 | Some cwd \<Rightarrow>
                     bindE (idup cwd s) (\<lambda>(cwd, s).
                       let s = upd_proc np (\<lambda>p. p\<lparr>p_cwd := Some cwd,
                                 p_name := safestrcpy (p_name p) (p_name (procs s ! i)) 16\<rparr>) s;
                           pid = p_pid (procs s ! np);
                           s = upd_proc np (\<lambda>p. p\<lparr>p_state := RUNNABLE\<rparr>) s in
                       bindE (release (ProcLk np) s) (\<lambda>s. Inr (pid, s)))))))"

definition reparent :: "nat \<Rightarrow> kernel \<Rightarrow> kstep" where
  "reparent i s =
     foldE (\<lambda>j s. if p_parent (procs s ! j) = Some i then
         bindE (acquire (ProcLk j) s) (\<lambda>s.
           release (ProcLk j) (upd_proc j (\<lambda>p. p\<lparr>p_parent := initproc s\<rparr>) s))
       else Inr s) [0..<NPROC] s"

definition wakeup1 :: "nat \<Rightarrow> kernel \<Rightarrow> kstep" where
  "wakeup1 i s =
     (if ProcLk i \<notin> held s then Inl (Panic ''wakeup1'')
      else if p_chan (procs s ! i) = Some (ChProc i) \<and> p_state (procs s ! i) = SLEEPING
      then Inr (upd_proc i (\<lambda>p. p\<lparr>p_state := RUNNABLE\<rparr>) s)
      else Inr s)"

definition exit_files :: "nat \<Rightarrow> nat \<Rightarrow> kernel \<Rightarrow> kstep" where
  "exit_files i fd s =
     (case p_ofile (procs s ! i) ! fd of
        None \<Rightarrow> Inr s
      | Some f \<Rightarrow>
          bindE (fileclose f s) (\<lambda>s. Inr (upd_proc i (\<lambda>p. p\<lparr>p_ofile := (p_ofile p)[fd := None]\<rparr>) s)))"

text \<open>The result is the state in which \<^verbatim>\<open>exit\<close> switches to the scheduler, for good.\<close>

definition exit :: "int \<Rightarrow> kernel \<Rightarrow> kstep" where
  "exit status s =
     bindE (myproc s) (\<lambda>i.
       if initproc s = Some i then Inl (Panic ''init exiting'')
       else
         bindE (foldE (exit_files i) [0..<NOFILE] s) (\<lambda>s.
         bindE (begin_op s) (\<lambda>s.
         bindE (case p_cwd (procs s ! i) of None \<Rightarrow> Inl Fault | Some cwd \<Rightarrow> iput cwd s) (\<lambda>s.
         bindE (end_op s) (\<lambda>s.
           let s = upd_proc i (\<lambda>p. p\<lparr>p_cwd := None\<rparr>) s in
           case initproc s of
             None \<Rightarrow> Inl Fault
           | Some ini \<Rightarrow>
               bindE (acquire (ProcLk ini) s) (\<lambda>s.
               bindE (wakeup1 ini s) (\<lambda>s.
               bindE (release (ProcLk ini) s) (\<lambda>s.
               bindE (acquire (ProcLk i) s) (\<lambda>s.
                 let original_parent = p_parent (procs s ! i) in
                 bindE (release (ProcLk i) s) (\<lambda>s.
                   case original_parent of
                     None \<Rightarrow> Inl Fault
                   | Some par \<Rightarrow>
                       bindE (acquire (ProcLk par) s) (\<lambda>s.
                       bindE (acquire (ProcLk i) s) (\<lambda>s.
                       bindE (reparent i s) (\<lambda>s.
                       bindE (wakeup1 par s) (\<lambda>s.
                         let s = upd_proc i (\<lambda>p. p\<lparr>p_xstate := status, p_state := ZOMBIE\<rparr>) s in
                         bindE (release (ProcLk par) s) sched))))))))))))))"

text \<open>The scan of \<open>wait\<close>: \<open>Inl\<close> the result, or \<open>Inr\<close> whether there are children.\<close>

fun wait_scan :: "nat \<Rightarrow> u64 \<Rightarrow> bool \<Rightarrow> nat list \<Rightarrow> kernel \<Rightarrow> (int + bool) kres" where
  "wait_scan i addr havekids [] s = Inr (Inr havekids, s)"
| "wait_scan i addr havekids (np # nps) s =
     (if p_parent (procs s ! np) = Some i then
        bindE (acquire (ProcLk np) s) (\<lambda>s.
          if p_state (procs s ! np) = ZOMBIE then
            let pid = p_pid (procs s ! np) in
            bindE (if addr \<noteq> 0
                   then copyout (p_pagetable (procs s ! i)) addr
                          (store32 (\<lambda>_. 0) 0 (of_int (p_xstate (procs s ! np)))) 4 s
                   else Inr (0, s)) (\<lambda>(r, s).
              if r < 0 then
                bindE (release (ProcLk np) s) (\<lambda>s.
                bindE (release (ProcLk i) s) (\<lambda>s. Inr (Inl (-1), s)))
              else
                bindE (freeproc np s) (\<lambda>s.
                bindE (release (ProcLk np) s) (\<lambda>s.
                bindE (release (ProcLk i) s) (\<lambda>s. Inr (Inl pid, s)))))
          else bindE (release (ProcLk np) s) (wait_scan i addr True nps))
      else wait_scan i addr havekids nps s)"

text \<open>One round of the loop, with \<open>p->lock\<close> held: \<open>None\<close> means that it has to sleep.\<close>

definition wait_round :: "nat \<Rightarrow> u64 \<Rightarrow> kernel \<Rightarrow> (int option) kres" where
  "wait_round i addr s =
     bindE (wait_scan i addr False [0..<NPROC] s) (\<lambda>(r, s).
       case r of
         Inl v \<Rightarrow> Inr (Some v, s)
       | Inr havekids \<Rightarrow>
           if \<not> havekids \<or> p_killed (procs s ! i)
           then bindE (release (ProcLk i) s) (\<lambda>s. Inr (Some (-1), s))
           else Inr (None, s))"

definition wait :: "u64 \<Rightarrow> kernel \<Rightarrow> int kres" where
  "wait addr s =
     bindE (myproc s) (\<lambda>i.
     bindE (acquire (ProcLk i) s) (\<lambda>s.
     bindE (wait_round i addr s) (\<lambda>(r, s).
       case r of
         Some v \<Rightarrow> Inr (v, s)
       | None \<Rightarrow> sleep (ChProc i) (ProcLk i) s)))"

section \<open>Scheduling\<close>

text \<open>
  One iteration of the scheduler's inner loop and one pass over the table. \<open>run\<close> is what the chosen
  process does between the two switches. The first component counts the processes in use; the
  result of a pass says whether the scheduler then waits for an interrupt (\<^verbatim>\<open>wfi\<close>).
\<close>

definition scheduler_step :: "(nat \<Rightarrow> kernel \<Rightarrow> kstep) \<Rightarrow> nat \<Rightarrow> nat \<times> kernel \<Rightarrow> exn + nat \<times> kernel" where
  "scheduler_step run i st =
     (case st of (nproc, s) \<Rightarrow>
      bindE (acquire (ProcLk i) s) (\<lambda>s.
        let nproc = (if p_state (procs s ! i) \<noteq> UNUSED then nproc + 1 else nproc) in
        bindE (if p_state (procs s ! i) = RUNNABLE
               then bindE (run i (upd_proc i (\<lambda>p. p\<lparr>p_state := RUNNING\<rparr>) (s\<lparr>curproc := Some i\<rparr>)))
                      (\<lambda>s. Inr (s\<lparr>curproc := None\<rparr>))
               else Inr s) (\<lambda>s.
        bindE (release (ProcLk i) s) (\<lambda>s. Inr (nproc, s)))))"

definition scheduler_pass :: "(nat \<Rightarrow> kernel \<Rightarrow> kstep) \<Rightarrow> kernel \<Rightarrow> bool kres" where
  "scheduler_pass run s =
     bindE (foldE (scheduler_step run) [0..<NPROC] (0, s\<lparr>curproc := None\<rparr>)) (\<lambda>(nproc, s). Inr (nproc \<le> 2, s))"

text \<open>\<^verbatim>\<open>yield\<close> up to the switch, and after it.\<close>

definition yield_enter :: "kernel \<Rightarrow> kstep" where
  "yield_enter s =
     bindE (myproc s) (\<lambda>i.
     bindE (acquire (ProcLk i) s) (\<lambda>s.
       sched (upd_proc i (\<lambda>p. p\<lparr>p_state := RUNNABLE\<rparr>) s)))"

definition yield_return :: "kernel \<Rightarrow> kstep" where
  "yield_return s = bindE (myproc s) (\<lambda>i. release (ProcLk i) s)"

fun kill_scan :: "int \<Rightarrow> nat list \<Rightarrow> kernel \<Rightarrow> int kres" where
  "kill_scan pid [] s = Inr (-1, s)"
| "kill_scan pid (i # is) s =
     bindE (acquire (ProcLk i) s) (\<lambda>s.
       if p_pid (procs s ! i) = pid then
         let s = upd_proc i (\<lambda>p. p\<lparr>p_killed := True\<rparr>) s;
             s = (if p_state (procs s ! i) = SLEEPING then upd_proc i (\<lambda>p. p\<lparr>p_state := RUNNABLE\<rparr>) s else s)
         in bindE (release (ProcLk i) s) (\<lambda>s. Inr (0, s))
       else bindE (release (ProcLk i) s) (kill_scan pid is))"

definition kill :: "int \<Rightarrow> kernel \<Rightarrow> int kres" where
  "kill pid s = kill_scan pid [0..<NPROC] s"

end
