(* ===== verification/Exec.thy ===== *)
theory Exec
  imports Proc
begin

text \<open>
  The system-call argument routines of \<^verbatim>\<open>kernel/syscall.c\<close> and \<^verbatim>\<open>kernel/exec.c\<close>. The argument
  registers are the words \<^verbatim>\<open>a0\<close> to \<^verbatim>\<open>a5\<close> of the trapframe. \<^verbatim>\<open>struct elfhdr\<close> and
  \<^verbatim>\<open>struct proghdr\<close> are read from the kernel stack at the offsets of \<^verbatim>\<open>elf.h\<close>; \<open>argv\<close> is the list of
  the kernel pages with the argument strings.
\<close>

section \<open>System-call arguments\<close>

definition fetchaddr :: "u64 \<Rightarrow> kernel \<Rightarrow> (int \<times> u64) kres" where
  "fetchaddr addr s =
     bindE (myproc s) (\<lambda>i.
       let p = procs s ! i in
       if addr \<ge> p_sz p \<or> addr + 8 > p_sz p then Inr ((-1, 0), s)
       else
         bindE (copyin (p_pagetable p) (\<lambda>_. 0) addr 8 s) (\<lambda>((r, d), s).
           if r \<noteq> 0 then Inr ((-1, load64 d 0), s) else Inr ((0, load64 d 0), s)))"

definition fetchstr :: "u64 \<Rightarrow> bytes \<Rightarrow> int \<Rightarrow> kernel \<Rightarrow> (int \<times> bytes) kres" where
  "fetchstr addr buf mx s =
     bindE (myproc s) (\<lambda>i.
     bindE (copyinstr (p_pagetable (procs s ! i)) buf addr (of_int mx) s) (\<lambda>((err, buf), s).
       if err < 0 then Inr ((err, buf), s)
       else case strlen buf of None \<Rightarrow> Inl Spin | Some l \<Rightarrow> Inr ((int l, buf), s)))"

definition argraw :: "nat \<Rightarrow> kernel \<Rightarrow> exn + u64" where
  "argraw n s =
     bindE (myproc s) (\<lambda>i. if n \<le> 5 then Inr (tf_get i (tf_a n) s) else Inl (Panic ''argraw''))"

definition argint :: "nat \<Rightarrow> kernel \<Rightarrow> exn + int" where
  "argint n s = bindE (argraw n s) (\<lambda>v. Inr (sint (ucast v :: u32)))"

definition argaddr :: "nat \<Rightarrow> kernel \<Rightarrow> exn + u64" where
  "argaddr n s = argraw n s"

definition argstr :: "nat \<Rightarrow> bytes \<Rightarrow> int \<Rightarrow> kernel \<Rightarrow> (int \<times> bytes) kres" where
  "argstr n buf mx s = bindE (argaddr n s) (\<lambda>addr. fetchstr addr buf mx s)"

section \<open>exec\<close>

definition ELF_MAGIC :: u32 where "ELF_MAGIC = 0x464C457F"

record elfhdr =
  e_magic :: u32
  e_entry :: u64
  e_phoff :: u64
  e_phnum :: u16

record proghdr =
  ph_type :: u32
  ph_off :: u64
  ph_vaddr :: u64
  ph_filesz :: u64
  ph_memsz :: u64

definition get_elfhdr :: "bytes \<Rightarrow> nat \<Rightarrow> elfhdr" where
  "get_elfhdr m a = \<lparr>e_magic = load32 m a, e_entry = load64 m (a + 24), e_phoff = load64 m (a + 32),
     e_phnum = load16 m (a + 56)\<rparr>"

definition get_proghdr :: "bytes \<Rightarrow> nat \<Rightarrow> proghdr" where
  "get_proghdr m a = \<lparr>ph_type = load32 m a, ph_off = load64 m (a + 8), ph_vaddr = load64 m (a + 16),
     ph_filesz = load64 m (a + 32), ph_memsz = load64 m (a + 40)\<rparr>"

text \<open>
  The loop of \<open>loadseg\<close> over the page offsets. Its 32-bit counter would wrap around and never
  end for a segment above \<^verbatim>\<open>0xFFFFF000\<close> bytes.
\<close>

fun loadseg_pages :: "u64 \<Rightarrow> u64 \<Rightarrow> nat \<Rightarrow> u32 \<Rightarrow> u32 \<Rightarrow> u32 list \<Rightarrow> kernel \<Rightarrow> int kres" where
  "loadseg_pages pagetable va ip offset sz [] s =
     (if sz > 0xFFFFF000 then Inl Spin else Inr (0, s))"
| "loadseg_pages pagetable va ip offset sz (i # is) s =
     bindE (walkaddr pagetable (va + ucast i) s) (\<lambda>(pa, s).
       if pa = 0 then Inl (Panic ''loadseg: address should exist'')
       else
         let n = (if sz - i < 4096 then sz - i else 4096) in
         bindE (readi ip False pa (offset + i) n s) (\<lambda>(r, s).
           if r \<noteq> uint n then Inr (-1, s) else loadseg_pages pagetable va ip offset sz is s))"

definition loadseg :: "u64 \<Rightarrow> u64 \<Rightarrow> nat \<Rightarrow> u32 \<Rightarrow> u32 \<Rightarrow> kernel \<Rightarrow> int kres" where
  "loadseg pagetable va ip offset sz s =
     (if va mod 4096 \<noteq> 0 then Inl (Panic ''loadseg: va must be page aligned'')
      else loadseg_pages pagetable va ip offset sz
             (map (\<lambda>k. of_nat (4096 * k)) [0..<(unat sz + 4095) div 4096]) s)"

text \<open>
  The program-header loop with \<open>k\<close> headers to go: whether all segments were loaded, and the
  size \<^verbatim>\<open>sz\<close> reached.
\<close>

fun exec_load :: "u64 \<Rightarrow> nat \<Rightarrow> nat \<Rightarrow> u32 \<Rightarrow> u64 \<Rightarrow> kernel \<Rightarrow> (bool \<times> u64) kres" where
  "exec_load pagetable ip 0 off sz s = Inr ((True, sz), s)"
| "exec_load pagetable ip (Suc k) off sz s =
     (let a = local_addr s + 64 in
      bindE (readi ip False a off 56 s) (\<lambda>(r, s).
        if r \<noteq> 56 then Inr ((False, sz), s)
        else
          let ph = get_proghdr (mem s) (unat a) in
          if ph_type ph \<noteq> 1 then exec_load pagetable ip k (off + 56) sz s
          else if ph_memsz ph < ph_filesz ph then Inr ((False, sz), s)
          else if ph_vaddr ph + ph_memsz ph < ph_vaddr ph then Inr ((False, sz), s)
          else
            bindE (uvmalloc pagetable sz (ph_vaddr ph + ph_memsz ph) s) (\<lambda>(sz1, s).
              if sz1 = 0 then Inr ((False, sz), s)
              else if ph_vaddr ph mod 4096 \<noteq> 0 then Inr ((False, sz1), s)
              else
                bindE (loadseg pagetable (ph_vaddr ph) ip (ucast (ph_off ph)) (ucast (ph_filesz ph)) s) (\<lambda>(r, s).
                  if r < 0 then Inr ((False, sz1), s)
                  else exec_load pagetable ip k (off + 56) sz1 s))))"

text \<open>
  Pushing the argument strings: \<open>None\<close> is \<^verbatim>\<open>goto bad\<close>, otherwise the addresses pushed and
  the stack pointer.
\<close>

fun exec_push :: "u64 \<Rightarrow> u64 \<Rightarrow> u64 list \<Rightarrow> u64 list \<Rightarrow> u64 \<Rightarrow> kernel \<Rightarrow> ((u64 list \<times> u64) option) kres" where
  "exec_push pagetable stackbase [] ustack sp s = Inr (Some (ustack, sp), s)"
| "exec_push pagetable stackbase (a # argv) ustack sp s =
     (if length ustack \<ge> MAXARG then Inr (None, s)
      else
        let str = (\<lambda>k. mem s (unat a + k)) in
        case strlen str of
          None \<Rightarrow> Inl Spin
        | Some l \<Rightarrow>
            let sp = sp - of_nat (l + 1);
                sp = sp - sp mod 16 in
            if sp < stackbase then Inr (None, s)
            else
              bindE (copyout pagetable sp str (of_nat (l + 1)) s) (\<lambda>(r, s).
                if r < 0 then Inr (None, s)
                else exec_push pagetable stackbase argv (ustack @ [sp]) sp s))"

definition exec_bad :: "u64 \<Rightarrow> u64 \<Rightarrow> nat option \<Rightarrow> kernel \<Rightarrow> int kres" where
  "exec_bad pagetable sz ip s =
     bindE (if pagetable \<noteq> 0 then proc_freepagetable pagetable sz s else Inr s) (\<lambda>s.
       case ip of
         None \<Rightarrow> Inr (-1, s)
       | Some ip \<Rightarrow> bindE (iunlockput ip s) (\<lambda>s. bindE (end_op s) (\<lambda>s. Inr (-1, s))))"

definition words_bytes :: "u64 list \<Rightarrow> bytes" where
  "words_bytes ws = fold (\<lambda>k d. store64 d (8 * k) (ws ! k)) [0..<length ws] (\<lambda>_. 0)"

definition path_last :: "u8 list \<Rightarrow> u8 list" where
  "path_last path = rev (takeWhile (\<lambda>c. c \<noteq> slash) (rev path))"

text \<open>The second half of \<open>exec\<close>: the stack, the arguments, and the commit to the new image.\<close>

definition exec_commit :: "u8 list \<Rightarrow> u64 list \<Rightarrow> elfhdr \<Rightarrow> u64 \<Rightarrow> u64 \<Rightarrow> kernel \<Rightarrow> int kres" where
  "exec_commit path argv elf pagetable sz s =
     bindE (myproc s) (\<lambda>i.
       let oldsz = p_sz (procs s ! i);
           sz = PGROUNDUP sz in
       bindE (uvmalloc pagetable sz (sz + 2 * 4096) s) (\<lambda>(sz1, s).
         if sz1 = 0 then exec_bad pagetable sz None s
         else
           let sz = sz1 in
           bindE (uvmclear pagetable (sz - 2 * 4096) s) (\<lambda>s.
             let stackbase = sz - 4096 in
             bindE (exec_push pagetable stackbase argv [] sz s) (\<lambda>(r, s).
               case r of
                 None \<Rightarrow> exec_bad pagetable sz None s
               | Some (ustack, sp) \<Rightarrow>
                   let argc = length ustack;
                       sp = sp - of_nat ((argc + 1) * 8);
                       sp = sp - sp mod 16 in
                   if sp < stackbase then exec_bad pagetable sz None s
                   else
                     bindE (copyout pagetable sp (words_bytes (ustack @ [0])) (of_nat ((argc + 1) * 8)) s) (\<lambda>(r, s).
                       if r < 0 then exec_bad pagetable sz None s
                       else
                         let s = tf_set i (tf_a 1) sp s;
                             s = upd_proc i (\<lambda>p. p\<lparr>p_name := safestrcpy (p_name p) (str_bytes (path_last path)) 16\<rparr>) s;
                             oldpagetable = p_pagetable (procs s ! i);
                             s = upd_proc i (\<lambda>p. p\<lparr>p_pagetable := pagetable, p_sz := sz\<rparr>) s;
                             s = tf_set i tf_epc (e_entry elf) s;
                             s = tf_set i tf_sp sp s in
                         bindE (proc_freepagetable oldpagetable oldsz s) (\<lambda>s. Inr (int argc, s)))))))"

definition exec :: "u8 list \<Rightarrow> u64 list \<Rightarrow> kernel \<Rightarrow> int kres" where
  "exec path argv s =
     bindE (myproc s) (\<lambda>i.
     bindE (begin_op s) (\<lambda>s.
     bindE (namei path s) (\<lambda>(r, s).
       case r of
         None \<Rightarrow> bindE (end_op s) (\<lambda>s. Inr (-1, s))
       | Some ip \<Rightarrow>
           bindE (ilock ip s) (\<lambda>s.
             let a = local_addr s in
             bindE (readi ip False a 0 64 s) (\<lambda>(r, s).
               let elf = get_elfhdr (mem s) (unat a) in
               if r \<noteq> 64 then exec_bad 0 0 (Some ip) s
               else if e_magic elf \<noteq> ELF_MAGIC then exec_bad 0 0 (Some ip) s
               else
                 bindE (proc_pagetable i s) (\<lambda>(pagetable, s).
                   if pagetable = 0 then exec_bad 0 0 (Some ip) s
                   else
                     bindE (exec_load pagetable ip (unat (e_phnum elf)) (ucast (e_phoff elf)) 0 s) (\<lambda>((ok, sz), s).
                       if \<not> ok then exec_bad pagetable sz (Some ip) s
                       else
                         bindE (iunlockput ip s) (\<lambda>s.
                         bindE (end_op s) (exec_commit path argv elf pagetable sz)))))))))"

end
