(* ===== verification/Sysfile.thy ===== *)
theory Sysfile
  imports Exec
begin

text \<open>
  The file-system calls, \<^verbatim>\<open>kernel/sysfile.c\<close>. Each takes its arguments from the trapframe of
  the calling process and returns what the call leaves in \<^verbatim>\<open>a0\<close>, as the C function's int. The
  path buffers are the bytes that \<^verbatim>\<open>argstr\<close> fills.
\<close>

section \<open>Descriptors\<close>

text \<open>The descriptor and the file, or \<open>None\<close> for -1.\<close>

definition argfd :: "nat \<Rightarrow> kernel \<Rightarrow> exn + (int \<times> nat) option" where
  "argfd n s =
     bindE (argint n s) (\<lambda>fd.
     bindE (myproc s) (\<lambda>i.
       if fd < 0 \<or> fd \<ge> int NOFILE then Inr None
       else case p_ofile (procs s ! i) ! nat fd of
         None \<Rightarrow> Inr None
       | Some f \<Rightarrow> Inr (Some (fd, f))))"

definition fdalloc :: "nat \<Rightarrow> kernel \<Rightarrow> int kres" where
  "fdalloc f s =
     bindE (myproc s) (\<lambda>i.
       case find (\<lambda>fd. p_ofile (procs s ! i) ! fd = None) [0..<NOFILE] of
         Some fd \<Rightarrow> Inr (int fd, upd_proc i (\<lambda>p. p\<lparr>p_ofile := (p_ofile p)[fd := Some f]\<rparr>) s)
       | None \<Rightarrow> Inr (-1, s))"

definition set_ofile :: "nat \<Rightarrow> nat \<Rightarrow> nat option \<Rightarrow> kernel \<Rightarrow> kernel" where
  "set_ofile i fd v s = upd_proc i (\<lambda>p. p\<lparr>p_ofile := (p_ofile p)[fd := v]\<rparr>) s"

definition sys_dup :: "kernel \<Rightarrow> int kres" where
  "sys_dup s =
     bindE (argfd 0 s) (\<lambda>r. case r of
       None \<Rightarrow> Inr (-1, s)
     | Some (_, f) \<Rightarrow>
         bindE (fdalloc f s) (\<lambda>(fd, s).
           if fd < 0 then Inr (-1, s)
           else bindE (filedup f s) (\<lambda>(_, s). Inr (fd, s))))"

definition sys_read :: "kernel \<Rightarrow> int kres" where
  "sys_read s =
     bindE (argfd 0 s) (\<lambda>r. case r of
       None \<Rightarrow> Inr (-1, s)
     | Some (_, f) \<Rightarrow>
         bindE (argint 2 s) (\<lambda>n. bindE (argaddr 1 s) (\<lambda>p. fileread f p n s)))"

definition sys_write :: "kernel \<Rightarrow> int kres" where
  "sys_write s =
     bindE (argfd 0 s) (\<lambda>r. case r of
       None \<Rightarrow> Inr (-1, s)
     | Some (_, f) \<Rightarrow>
         bindE (argint 2 s) (\<lambda>n. bindE (argaddr 1 s) (\<lambda>p. filewrite f p n s)))"

definition sys_close :: "kernel \<Rightarrow> int kres" where
  "sys_close s =
     bindE (argfd 0 s) (\<lambda>r. case r of
       None \<Rightarrow> Inr (-1, s)
     | Some (fd, f) \<Rightarrow>
         bindE (myproc s) (\<lambda>i.
         bindE (fileclose f (set_ofile i (nat fd) None s)) (\<lambda>s. Inr (0, s))))"

definition sys_fstat :: "kernel \<Rightarrow> int kres" where
  "sys_fstat s =
     bindE (argfd 0 s) (\<lambda>r. case r of
       None \<Rightarrow> Inr (-1, s)
     | Some (_, f) \<Rightarrow> bindE (argaddr 1 s) (\<lambda>st. filestat f st s))"

section \<open>Links\<close>

definition arg_path :: "nat \<Rightarrow> kernel \<Rightarrow> (u8 list option) kres" where
  "arg_path n s =
     bindE (argstr n (\<lambda>_. 0) (int MAXPATH) s) (\<lambda>((r, buf), s).
       if r < 0 then Inr (None, s) else Inr (Some (cstr MAXPATH buf), s))"

definition end_with :: "int \<Rightarrow> kernel \<Rightarrow> int kres" where
  "end_with r s = bindE (end_op s) (\<lambda>s. Inr (r, s))"

definition add_nlink :: "u16 \<Rightarrow> nat \<Rightarrow> kernel \<Rightarrow> kstep" where
  "add_nlink d ip s = iupdate ip (upd_inode ip (\<lambda>x. x\<lparr>i_nlink := i_nlink x + d\<rparr>) s)"

definition sys_link_bad :: "nat \<Rightarrow> kernel \<Rightarrow> int kres" where
  "sys_link_bad ip s =
     bindE (ilock ip s) (\<lambda>s.
     bindE (add_nlink (-1) ip s) (\<lambda>s.
     bindE (iunlockput ip s) (end_with (-1))))"

definition sys_link :: "kernel \<Rightarrow> int kres" where
  "sys_link s =
     bindE (arg_path 0 s) (\<lambda>(r, s). case r of
       None \<Rightarrow> Inr (-1, s)
     | Some old \<Rightarrow>
       bindE (arg_path 1 s) (\<lambda>(r, s). case r of
         None \<Rightarrow> Inr (-1, s)
       | Some new \<Rightarrow>
         bindE (begin_op s) (\<lambda>s.
         bindE (namei old s) (\<lambda>(r, s). case r of
           None \<Rightarrow> end_with (-1) s
         | Some ip \<Rightarrow>
           bindE (ilock ip s) (\<lambda>s.
             if i_type (icache s ! ip) = T_DIR then bindE (iunlockput ip s) (end_with (-1))
             else
               bindE (add_nlink 1 ip s) (\<lambda>s.
               bindE (iunlock ip s) (\<lambda>s.
               bindE (nameiparent new (\<lambda>_. 0) s) (\<lambda>((r, name), s). case r of
                 None \<Rightarrow> sys_link_bad ip s
               | Some dp \<Rightarrow>
                 bindE (ilock dp s) (\<lambda>s.
                 bindE (if i_dev (icache s ! dp) \<noteq> i_dev (icache s ! ip) then Inr (-1, s)
                        else dirlink dp name (i_inum (icache s ! ip)) s) (\<lambda>(r, s).
                   if r < 0 then bindE (iunlockput dp s) (sys_link_bad ip)
                   else
                     bindE (iunlockput dp s) (\<lambda>s.
                     bindE (iput ip s) (end_with 0)))))))))))) "

fun isdirempty_scan :: "nat \<Rightarrow> u32 list \<Rightarrow> kernel \<Rightarrow> bool kres" where
  "isdirempty_scan dp [] s = Inr (True, s)"
| "isdirempty_scan dp (off # offs) s =
     (let de = local_addr s in
      bindE (readi dp False de off 16 s) (\<lambda>(r, s).
        if r \<noteq> 16 then Inl (Panic ''isdirempty: readi'')
        else if load16 (mem s) (unat de) \<noteq> 0 then Inr (False, s)
        else isdirempty_scan dp offs s))"

definition isdirempty :: "nat \<Rightarrow> kernel \<Rightarrow> bool kres" where
  "isdirempty dp s = isdirempty_scan dp (drop 2 (dirent_offs (i_size (icache s ! dp)))) s"

definition sys_unlink_bad :: "nat \<Rightarrow> kernel \<Rightarrow> int kres" where
  "sys_unlink_bad dp s = bindE (iunlockput dp s) (end_with (-1))"

text \<open>From the found entry on: \<open>ip\<close> the inode of the entry at offset \<open>off\<close> of \<open>dp\<close>, both locked.\<close>

definition unlink_entry :: "nat \<Rightarrow> nat \<Rightarrow> u32 \<Rightarrow> kernel \<Rightarrow> int kres" where
  "unlink_entry dp ip off s =
     (let de = local_addr s;
          s = set_mem (\<lambda>m. memset m (unat de) 0 16) s in
      bindE (writei dp False de off 16 s) (\<lambda>(r, s).
        if r \<noteq> 16 then Inl (Panic ''unlink: writei'')
        else
          bindE (if i_type (icache s ! ip) = T_DIR then add_nlink (-1) dp s else Inr s) (\<lambda>s.
          bindE (iunlockput dp s) (\<lambda>s.
          bindE (add_nlink (-1) ip s) (\<lambda>s.
          bindE (iunlockput ip s) (end_with 0))))))"

definition sys_unlink :: "kernel \<Rightarrow> int kres" where
  "sys_unlink s =
     bindE (arg_path 0 s) (\<lambda>(r, s). case r of
       None \<Rightarrow> Inr (-1, s)
     | Some path \<Rightarrow>
       bindE (begin_op s) (\<lambda>s.
       bindE (nameiparent path (\<lambda>_. 0) s) (\<lambda>((r, name), s). case r of
         None \<Rightarrow> end_with (-1) s
       | Some dp \<Rightarrow>
         bindE (ilock dp s) (\<lambda>s.
           if namecmp name (str_bytes (ascii ''.'')) = 0 \<or> namecmp name (str_bytes (ascii ''..'')) = 0
           then sys_unlink_bad dp s
           else
             bindE (dirlookup dp name s) (\<lambda>(r, s). case r of
               None \<Rightarrow> sys_unlink_bad dp s
             | Some (ip, off) \<Rightarrow>
               bindE (ilock ip s) (\<lambda>s.
                 if sint (i_nlink (icache s ! ip)) < 1 then Inl (Panic ''unlink: nlink < 1'')
                 else
                   bindE (if i_type (icache s ! ip) = T_DIR then isdirempty ip s else Inr (True, s)) (\<lambda>(e, s).
                     if \<not> e then bindE (iunlockput ip s) (sys_unlink_bad dp)
                     else unlink_entry dp ip off s))))))) "

section \<open>Creating and opening\<close>

definition create :: "u8 list \<Rightarrow> u16 \<Rightarrow> u16 \<Rightarrow> u16 \<Rightarrow> kernel \<Rightarrow> (nat option) kres" where
  "create path type major minor s =
     bindE (nameiparent path (\<lambda>_. 0) s) (\<lambda>((r, name), s). case r of
       None \<Rightarrow> Inr (None, s)
     | Some dp \<Rightarrow>
       bindE (ilock dp s) (\<lambda>s.
       bindE (dirlookup dp name s) (\<lambda>(r, s). case r of
         Some (ip, _) \<Rightarrow>
           bindE (iunlockput dp s) (\<lambda>s.
           bindE (ilock ip s) (\<lambda>s.
             let t = i_type (icache s ! ip) in
             if type = T_FILE \<and> (t = T_FILE \<or> t = T_DEVICE) then Inr (Some ip, s)
             else bindE (iunlockput ip s) (\<lambda>s. Inr (None, s))))
       | None \<Rightarrow>
           bindE (ialloc (i_dev (icache s ! dp)) type s) (\<lambda>(ip, s).
           bindE (ilock ip s) (\<lambda>s.
           bindE (iupdate ip (upd_inode ip (\<lambda>x. x\<lparr>i_major := major, i_minor := minor, i_nlink := 1\<rparr>) s)) (\<lambda>s.
           bindE (if type = T_DIR then
                    bindE (add_nlink 1 dp s) (\<lambda>s.
                    bindE (dirlink ip (str_bytes (ascii ''.'')) (i_inum (icache s ! ip)) s) (\<lambda>(r, s).
                      if r < 0 then Inl (Panic ''create dots'')
                      else
                        bindE (dirlink ip (str_bytes (ascii ''..'')) (i_inum (icache s ! dp)) s) (\<lambda>(r, s).
                          if r < 0 then Inl (Panic ''create dots'') else Inr s)))
                  else Inr s) (\<lambda>s.
           bindE (dirlink dp name (i_inum (icache s ! ip)) s) (\<lambda>(r, s).
             if r < 0 then Inl (Panic ''create: dirlink'')
             else bindE (iunlockput dp s) (\<lambda>s. Inr (Some ip, s))))))))))"

definition O_WRONLY :: u32 where "O_WRONLY = 0x001"
definition O_RDWR :: u32 where "O_RDWR = 0x002"
definition O_CREATE :: u32 where "O_CREATE = 0x200"
definition O_TRUNC :: u32 where "O_TRUNC = 0x400"

text \<open>The inode that \<open>sys_open\<close> opens, locked; \<open>None\<close> when the transaction has ended with -1.\<close>

definition open_inode :: "u8 list \<Rightarrow> u32 \<Rightarrow> kernel \<Rightarrow> (nat option) kres" where
  "open_inode path omode s =
     (if omode AND O_CREATE \<noteq> 0 then
        bindE (create path T_FILE 0 0 s) (\<lambda>(r, s). case r of
          None \<Rightarrow> bindE (end_op s) (\<lambda>s. Inr (None, s))
        | Some ip \<Rightarrow> Inr (Some ip, s))
      else
        bindE (namei path s) (\<lambda>(r, s). case r of
          None \<Rightarrow> bindE (end_op s) (\<lambda>s. Inr (None, s))
        | Some ip \<Rightarrow>
            bindE (ilock ip s) (\<lambda>s.
              if i_type (icache s ! ip) = T_DIR \<and> omode \<noteq> 0
              then bindE (iunlockput ip s) (\<lambda>s. bindE (end_op s) (\<lambda>s. Inr (None, s)))
              else Inr (Some ip, s))))"

text \<open>Filling in the new file.\<close>

definition open_file :: "inode \<Rightarrow> nat \<Rightarrow> u32 \<Rightarrow> kfile \<Rightarrow> kfile" where
  "open_file x ip omode f =
     (if i_type x = T_DEVICE then f\<lparr>f_type := FD_DEVICE, f_major := i_major x\<rparr>
      else f\<lparr>f_type := FD_INODE, f_off := 0\<rparr>)
     \<lparr>f_ip := ip, f_readable := (omode AND O_WRONLY = 0),
      f_writable := (omode AND O_WRONLY \<noteq> 0 \<or> omode AND O_RDWR \<noteq> 0)\<rparr>"

definition sys_open :: "kernel \<Rightarrow> int kres" where
  "sys_open s =
     bindE (arg_path 0 s) (\<lambda>(r, s). case r of
       None \<Rightarrow> Inr (-1, s)
     | Some path \<Rightarrow>
       bindE (argint 1 s) (\<lambda>om.
         let omode = of_int om in
         bindE (begin_op s) (\<lambda>s.
         bindE (open_inode path omode s) (\<lambda>(r, s). case r of
           None \<Rightarrow> Inr (-1, s)
         | Some ip \<Rightarrow>
           let x = icache s ! ip in
           if i_type x = T_DEVICE \<and> (sint (i_major x) < 0 \<or> sint (i_major x) \<ge> int NDEV)
           then bindE (iunlockput ip s) (end_with (-1))
           else
             bindE (filealloc s) (\<lambda>(r, s). case r of
               None \<Rightarrow> bindE (iunlockput ip s) (end_with (-1))
             | Some f \<Rightarrow>
               bindE (fdalloc f s) (\<lambda>(fd, s).
                 if fd < 0 then
                   bindE (fileclose f s) (\<lambda>s. bindE (iunlockput ip s) (end_with (-1)))
                 else
                   let s = upd_file f (open_file x ip omode) s in
                   bindE (if omode AND O_TRUNC \<noteq> 0 \<and> i_type x = T_FILE then itrunc ip s else Inr s) (\<lambda>s.
                   bindE (iunlock ip s) (end_with fd))))))))"

definition sys_mkdir :: "kernel \<Rightarrow> int kres" where
  "sys_mkdir s =
     bindE (begin_op s) (\<lambda>s.
     bindE (arg_path 0 s) (\<lambda>(r, s). case r of
       None \<Rightarrow> end_with (-1) s
     | Some path \<Rightarrow>
       bindE (create path T_DIR 0 0 s) (\<lambda>(r, s). case r of
         None \<Rightarrow> end_with (-1) s
       | Some ip \<Rightarrow> bindE (iunlockput ip s) (end_with 0))))"

definition sys_mknod :: "kernel \<Rightarrow> int kres" where
  "sys_mknod s =
     bindE (begin_op s) (\<lambda>s.
     bindE (arg_path 0 s) (\<lambda>(r, s). case r of
       None \<Rightarrow> end_with (-1) s
     | Some path \<Rightarrow>
       bindE (argint 1 s) (\<lambda>major.
       bindE (argint 2 s) (\<lambda>minor.
       bindE (create path T_DEVICE (of_int major) (of_int minor) s) (\<lambda>(r, s). case r of
         None \<Rightarrow> end_with (-1) s
       | Some ip \<Rightarrow> bindE (iunlockput ip s) (end_with 0))))))"

definition sys_chdir :: "kernel \<Rightarrow> int kres" where
  "sys_chdir s =
     bindE (myproc s) (\<lambda>i.
     bindE (begin_op s) (\<lambda>s.
     bindE (arg_path 0 s) (\<lambda>(r, s). case r of
       None \<Rightarrow> end_with (-1) s
     | Some path \<Rightarrow>
       bindE (namei path s) (\<lambda>(r, s). case r of
         None \<Rightarrow> end_with (-1) s
       | Some ip \<Rightarrow>
         bindE (ilock ip s) (\<lambda>s.
           if i_type (icache s ! ip) \<noteq> T_DIR then bindE (iunlockput ip s) (end_with (-1))
           else
             bindE (iunlock ip s) (\<lambda>s.
               case p_cwd (procs s ! i) of
                 None \<Rightarrow> Inl Fault
               | Some cwd \<Rightarrow>
                   bindE (iput cwd s) (\<lambda>s.
                   bindE (end_op s) (\<lambda>s. Inr (0, upd_proc i (\<lambda>p. p\<lparr>p_cwd := Some ip\<rparr>) s)))))))))"

section \<open>exec and pipe\<close>

text \<open>
  Fetching the arguments with \<open>k\<close> places of \<^verbatim>\<open>argv\<close> to go: whether all were fetched, and the
  pages allocated so far.
\<close>

fun exec_args :: "nat \<Rightarrow> u64 \<Rightarrow> u64 list \<Rightarrow> kernel \<Rightarrow> (bool \<times> u64 list) kres" where
  "exec_args 0 uargv argv s = Inr ((False, argv), s)"
| "exec_args (Suc k) uargv argv s =
     bindE (fetchaddr (uargv + 8 * of_nat (length argv)) s) (\<lambda>((r, uarg), s).
       if r < 0 then Inr ((False, argv), s)
       else if uarg = 0 then Inr ((True, argv), s)
       else
         bindE (kalloc s) (\<lambda>(pg, s).
           if pg = 0 then Inr ((False, argv), s)
           else
             bindE (fetchstr uarg (\<lambda>k. mem s (unat pg + k)) 4096 s) (\<lambda>((r, buf), s).
               let s = set_mem (\<lambda>m. blit m (unat pg) buf 0 PGSIZE) s in
               if r < 0 then Inr ((False, argv @ [pg]), s)
               else exec_args k uargv (argv @ [pg]) s)))"

definition sys_exec :: "kernel \<Rightarrow> int kres" where
  "sys_exec s =
     bindE (arg_path 0 s) (\<lambda>(r, s). case r of
       None \<Rightarrow> Inr (-1, s)
     | Some path \<Rightarrow>
       bindE (argaddr 1 s) (\<lambda>uargv.
       bindE (exec_args MAXARG uargv [] s) (\<lambda>((ok, argv), s).
       bindE (if ok then exec path argv s else Inr (-1, s)) (\<lambda>(ret, s).
       bindE (foldE kfree argv s) (\<lambda>s. Inr (ret, s))))))"

definition sys_pipe :: "kernel \<Rightarrow> int kres" where
  "sys_pipe s =
     bindE (myproc s) (\<lambda>i.
     bindE (argaddr 0 s) (\<lambda>fdarray.
     bindE (pipealloc s) (\<lambda>(r, s). case r of
       None \<Rightarrow> Inr (-1, s)
     | Some (rdf, wrf) \<Rightarrow>
       bindE (fdalloc rdf s) (\<lambda>(fd0, s).
       bindE (if fd0 < 0 then Inr (-1, s) else fdalloc wrf s) (\<lambda>(fd1, s).
         if fd0 < 0 \<or> fd1 < 0 then
           let s = (if fd0 \<ge> 0 then set_ofile i (nat fd0) None s else s) in
           bindE (fileclose rdf s) (\<lambda>s. bindE (fileclose wrf s) (\<lambda>s. Inr (-1, s)))
         else
           bindE (copyout (p_pagetable (procs s ! i)) fdarray (store32 (\<lambda>_. 0) 0 (of_int fd0)) 4 s) (\<lambda>(r0, s).
           bindE (if r0 < 0 then Inr (-1, s)
                  else copyout (p_pagetable (procs s ! i)) (fdarray + 4) (store32 (\<lambda>_. 0) 0 (of_int fd1)) 4 s) (\<lambda>(r1, s).
             if r1 < 0 then
               let s = set_ofile i (nat fd1) None (set_ofile i (nat fd0) None s) in
               bindE (fileclose rdf s) (\<lambda>s. bindE (fileclose wrf s) (\<lambda>s. Inr (-1, s)))
             else Inr (0, s))))))))"

end
