(* ===== verification/Trap.thy ===== *)
theory Trap
  imports Sysfile
begin

text \<open>
  The process system calls of \<^verbatim>\<open>kernel/sysproc.c\<close>, the dispatcher \<^verbatim>\<open>syscall\<close> of
  \<^verbatim>\<open>syscall.c\<close>, the trap handlers of \<^verbatim>\<open>kernel/trap.c\<close>, and \<^verbatim>\<open>forkret\<close> of \<^verbatim>\<open>proc.c\<close>. The
  control registers are the fields of \<open>csr\<close>. The interrupt number that \<^verbatim>\<open>plic_claim\<close> reads from
  the PLIC and the handler of the disk interrupt are parameters.
\<close>

section \<open>sysproc.c\<close>

definition sys_exit :: "kernel \<Rightarrow> kstep" where
  "sys_exit s = bindE (argint 0 s) (\<lambda>n. exit n s)"

definition sys_getpid :: "kernel \<Rightarrow> int kres" where
  "sys_getpid s = bindE (myproc s) (\<lambda>i. Inr (p_pid (procs s ! i), s))"

definition sys_fork :: "kernel \<Rightarrow> int kres" where
  "sys_fork s = fork s"

definition sys_wait :: "kernel \<Rightarrow> int kres" where
  "sys_wait s = bindE (argaddr 0 s) (\<lambda>p. wait p s)"

text \<open>\<^verbatim>\<open>int addr\<close>: the old size passes through a signed 32-bit variable.\<close>

definition sys_sbrk :: "kernel \<Rightarrow> int kres" where
  "sys_sbrk s =
     bindE (argint 0 s) (\<lambda>n.
     bindE (myproc s) (\<lambda>i.
       let addr = sint (ucast (p_sz (procs s ! i)) :: u32) in
       if n > 0 then Inr (addr, upd_proc i (\<lambda>p. p\<lparr>p_sz := p_sz p + of_int n\<rparr>) s)
       else
         bindE (growproc n s) (\<lambda>(r, s). if r < 0 then Inr (-1, s) else Inr (addr, s))))"

text \<open>One round of the loop of \<open>sys_sleep\<close>, with \<^verbatim>\<open>tickslock\<close> held: \<open>None\<close> when it has to sleep.\<close>

definition sys_sleep_round :: "int \<Rightarrow> u32 \<Rightarrow> kernel \<Rightarrow> (int option) kres" where
  "sys_sleep_round n ticks0 s =
     bindE (myproc s) (\<lambda>i.
       if ticks s - ticks0 < of_int n then
         if p_killed (procs s ! i) then bindE (release TicksLk s) (\<lambda>s. Inr (Some (-1), s))
         else Inr (None, s)
       else bindE (release TicksLk s) (\<lambda>s. Inr (Some 0, s)))"

definition sys_sleep :: "kernel \<Rightarrow> int kres" where
  "sys_sleep s =
     bindE (argint 0 s) (\<lambda>n.
     bindE (acquire TicksLk s) (\<lambda>s.
     bindE (sys_sleep_round n (ticks s) s) (\<lambda>(r, s).
       case r of Some v \<Rightarrow> Inr (v, s) | None \<Rightarrow> sleep ChTicks TicksLk s)))"

definition sys_kill :: "kernel \<Rightarrow> int kres" where
  "sys_kill s = bindE (argint 0 s) (\<lambda>pid. kill pid s)"

definition sys_uptime :: "kernel \<Rightarrow> int kres" where
  "sys_uptime s =
     bindE (acquire TicksLk s) (\<lambda>s.
       let xticks = ticks s in
       bindE (release TicksLk s) (\<lambda>s. Inr (uint xticks, s)))"

section \<open>syscall.c\<close>

text \<open>
  The table of system calls, by number. \<^verbatim>\<open>sys_exit\<close> does not return: its result is the state
  handed to the scheduler, \<open>None\<close>.
\<close>

definition returns :: "int kres \<Rightarrow> (int option) kres" where
  "returns r = bindE r (\<lambda>(v, s). Inr (Some v, s))"

definition syscalls :: "int \<Rightarrow> (kernel \<Rightarrow> (int option) kres) option" where
  "syscalls num =
     (if num = 1 then Some (\<lambda>s. returns (sys_fork s))
      else if num = 2 then Some (\<lambda>s. bindE (sys_exit s) (\<lambda>s. Inr (None, s)))
      else if num = 3 then Some (\<lambda>s. returns (sys_wait s))
      else if num = 4 then Some (\<lambda>s. returns (sys_pipe s))
      else if num = 5 then Some (\<lambda>s. returns (sys_read s))
      else if num = 6 then Some (\<lambda>s. returns (sys_kill s))
      else if num = 7 then Some (\<lambda>s. returns (sys_exec s))
      else if num = 8 then Some (\<lambda>s. returns (sys_fstat s))
      else if num = 9 then Some (\<lambda>s. returns (sys_chdir s))
      else if num = 10 then Some (\<lambda>s. returns (sys_dup s))
      else if num = 11 then Some (\<lambda>s. returns (sys_getpid s))
      else if num = 12 then Some (\<lambda>s. returns (sys_sbrk s))
      else if num = 13 then Some (\<lambda>s. returns (sys_sleep s))
      else if num = 14 then Some (\<lambda>s. returns (sys_uptime s))
      else if num = 15 then Some (\<lambda>s. returns (sys_open s))
      else if num = 16 then Some (\<lambda>s. returns (sys_write s))
      else if num = 17 then Some (\<lambda>s. returns (sys_mknod s))
      else if num = 18 then Some (\<lambda>s. returns (sys_unlink s))
      else if num = 19 then Some (\<lambda>s. returns (sys_link s))
      else if num = 20 then Some (\<lambda>s. returns (sys_mkdir s))
      else if num = 21 then Some (\<lambda>s. returns (sys_close s))
      else None)"

text \<open>\<open>False\<close>: the process has exited.\<close>

definition syscall :: "kernel \<Rightarrow> bool kres" where
  "syscall s =
     bindE (myproc s) (\<lambda>i.
       let num = sint (ucast (tf_get i (tf_a 7) s) :: u32) in
       case syscalls num of
         Some f \<Rightarrow>
           bindE (f s) (\<lambda>(r, s). case r of
             None \<Rightarrow> Inr (False, s)
           | Some v \<Rightarrow> Inr (True, tf_set i (tf_a 0) (of_int v) s))
       | None \<Rightarrow>
           bindE (printf (Some (ascii ''%d %s: unknown sys call %d'' @ [10]))
                    [ArgInt (of_int (p_pid (procs s ! i))), ArgStr (Some (cstr 16 (p_name (procs s ! i)))),
                     ArgInt (of_int num)] s) (\<lambda>s.
             Inr (True, tf_set i (tf_a 0) (-1) s)))"

section \<open>trap.c\<close>

definition SSTATUS_SPP :: u64 where "SSTATUS_SPP = push_bit 8 1"
definition SSTATUS_SPIE :: u64 where "SSTATUS_SPIE = push_bit 5 1"
definition SSTATUS_SIE :: u64 where "SSTATUS_SIE = push_bit 1 1"

definition upd_csr :: "(csrs \<Rightarrow> csrs) \<Rightarrow> kernel \<Rightarrow> kernel" where
  "upd_csr f s = s\<lparr>csr := f (csr s)\<rparr>"

definition intr_on :: "kernel \<Rightarrow> kernel" where
  "intr_on s = upd_csr (\<lambda>c. c\<lparr>sstatus := sstatus c OR SSTATUS_SIE\<rparr>) s"

definition intr_off :: "kernel \<Rightarrow> kernel" where
  "intr_off s = upd_csr (\<lambda>c. c\<lparr>sstatus := sstatus c AND NOT SSTATUS_SIE\<rparr>) s"

definition trapinithart :: "kernel \<Rightarrow> kernel" where
  "trapinithart s = upd_csr (\<lambda>c. c\<lparr>stvec := sym_kernelvec (k_syms s)\<rparr>) s"

text \<open>
  The state in which \<open>usertrapret\<close> jumps to \<^verbatim>\<open>userret\<close> in the trampoline, with the address
  jumped to and the two arguments.
\<close>

definition usertrapret :: "kernel \<Rightarrow> (u64 \<times> u64 \<times> u64) kres" where
  "usertrapret s =
     bindE (myproc s) (\<lambda>i.
       let s = intr_off s;
           s = upd_csr (\<lambda>c. c\<lparr>stvec := TRAMPOLINE + (sym_uservec (k_syms s) - k_trampoline s)\<rparr>) s;
           s = tf_set i tf_kernel_satp (satp (csr s)) s;
           s = tf_set i tf_kernel_sp (p_kstack (procs s ! i) + 4096) s;
           s = tf_set i tf_kernel_trap (sym_usertrap (k_syms s)) s;
           s = tf_set i tf_kernel_hartid (tp (csr s)) s;
           s = upd_csr (\<lambda>c. c\<lparr>sstatus := (sstatus c AND NOT SSTATUS_SPP) OR SSTATUS_SPIE\<rparr>) s;
           s = upd_csr (\<lambda>c. c\<lparr>sepc := tf_get i tf_epc s\<rparr>) s
       in Inr ((TRAMPOLINE + (sym_userret (k_syms s) - k_trampoline s), TRAPFRAME,
                MAKE_SATP (p_pagetable (procs s ! i))), s))"

definition clockintr :: "kernel \<Rightarrow> kstep" where
  "clockintr s =
     bindE (acquire TicksLk s) (\<lambda>s.
     bindE (wakeup ChTicks (s\<lparr>ticks := ticks s + 1\<rparr>)) (release TicksLk))"

text \<open>
  \<open>irq\<close> is what \<^verbatim>\<open>plic_claim\<close> returns, \<open>disk_intr\<close> is \<^verbatim>\<open>virtio_disk_intr\<close>; \<^verbatim>\<open>cpuid()\<close> is
  the \<open>tp\<close> register.
\<close>

definition devintr :: "nat \<Rightarrow> (kernel \<Rightarrow> kstep) \<Rightarrow> kernel \<Rightarrow> int kres" where
  "devintr irq disk_intr s =
     (let sc = scause (csr s) in
      if sc AND 0x8000000000000000 \<noteq> 0 \<and> sc AND 0xff = 9 then
        bindE (if irq = 10 then uartintr s
               else if irq = 1 then disk_intr s
               else if irq \<noteq> 0
               then printf (Some (ascii ''unexpected interrupt irq=%d'' @ [10])) [ArgInt (of_nat irq)] s
               else Inr s) (\<lambda>s. Inr (1, s))
      else if sc = 0x8000000000000001 then
        bindE (if ucast (tp (csr s)) = (0 :: u32) then clockintr s else Inr s) (\<lambda>s.
          Inr (2, upd_csr (\<lambda>c. c\<lparr>sip := sip c AND NOT 2\<rparr>) s))
      else Inr (0, s))"

definition set_killed :: "nat \<Rightarrow> kernel \<Rightarrow> kernel" where
  "set_killed i s = upd_proc i (\<lambda>p. p\<lparr>p_killed := True\<rparr>) s"

text \<open>The lazy allocation of a faulting page.\<close>

definition pagefault :: "nat \<Rightarrow> kernel \<Rightarrow> kstep" where
  "pagefault i s =
     (let va = stval (csr s); sp = tf_get i tf_sp s in
      if va \<ge> p_sz (procs s ! i) \<or> va < PGROUNDDOWN sp then Inr (set_killed i s)
      else
        bindE (kalloc s) (\<lambda>(pa, s).
          if pa = 0 then Inr (set_killed i s)
          else
            bindE (mappages (p_pagetable (procs s ! i)) (PGROUNDDOWN va) 4096 pa (PTE_W OR PTE_R OR PTE_U)
                     (set_mem (\<lambda>m. memset m (unat pa) 0 PGSIZE) s)) (\<lambda>(r, s).
              if r \<noteq> 0 then bindE (kfree pa s) (\<lambda>s. Inr (set_killed i s)) else Inr s)))"

text \<open>How a trap from user space ends: back to user space, the process exited, or it yields.\<close>

datatype trap_end = ToUser u64 u64 u64 | Exited | Yields

definition usertrap_finish :: "nat \<Rightarrow> int \<Rightarrow> kernel \<Rightarrow> trap_end kres" where
  "usertrap_finish i which_dev s =
     (if p_killed (procs s ! i) then bindE (exit (-1) s) (\<lambda>s. Inr (Exited, s))
      else if which_dev = 2 then bindE (yield_enter s) (\<lambda>s. Inr (Yields, s))
      else bindE (usertrapret s) (\<lambda>((fn, tf, sp), s). Inr (ToUser fn tf sp, s)))"

definition usertrap :: "nat \<Rightarrow> (kernel \<Rightarrow> kstep) \<Rightarrow> kernel \<Rightarrow> trap_end kres" where
  "usertrap irq disk_intr s =
     (if sstatus (csr s) AND SSTATUS_SPP \<noteq> 0 then Inl (Panic ''usertrap: not from user mode'')
      else
        let s = trapinithart s in
        bindE (myproc s) (\<lambda>i.
          let s = tf_set i tf_epc (sepc (csr s)) s in
          if scause (csr s) = 8 then
            if p_killed (procs s ! i) then bindE (exit (-1) s) (\<lambda>s. Inr (Exited, s))
            else
              bindE (syscall (intr_on (tf_set i tf_epc (tf_get i tf_epc s + 4) s))) (\<lambda>(alive, s).
                if alive then usertrap_finish i 0 s else Inr (Exited, s))
          else
            bindE (devintr irq disk_intr s) (\<lambda>(which_dev, s).
              if which_dev \<noteq> 0 then usertrap_finish i which_dev s
              else if scause (csr s) = 13 \<or> scause (csr s) = 15
              then bindE (pagefault i s) (usertrap_finish i 0)
              else
                bindE (printf (Some (ascii ''usertrap(): unexpected scause %p pid=%d'' @ [10]))
                         [ArgPtr (scause (csr s)), ArgInt (of_int (p_pid (procs s ! i)))] s) (\<lambda>s.
                bindE (printf (Some (ascii ''            sepc=%p stval=%p'' @ [10]))
                         [ArgPtr (sepc (csr s)), ArgPtr (stval (csr s))] s) (\<lambda>s.
                  usertrap_finish i 0 (set_killed i s))))))"

text \<open>
  \<open>kerneltrap\<close> up to the yield (\<open>True\<close>: it yields, and restores \<^verbatim>\<open>sepc\<close> and \<^verbatim>\<open>sstatus\<close> when
  it runs again).
\<close>

definition kerneltrap :: "nat \<Rightarrow> (kernel \<Rightarrow> kstep) \<Rightarrow> kernel \<Rightarrow> bool kres" where
  "kerneltrap irq disk_intr s =
     (let c0 = csr s in
      if sstatus c0 AND SSTATUS_SPP = 0 then Inl (Panic ''kerneltrap: not from supervisor mode'')
      else if sstatus c0 AND SSTATUS_SIE \<noteq> 0 then Inl (Panic ''kerneltrap: interrupts enabled'')
      else
        bindE (devintr irq disk_intr s) (\<lambda>(which_dev, s).
          if which_dev = 0 then
            bindE (printf (Some (ascii ''scause %p'' @ [10])) [ArgPtr (scause c0)] s) (\<lambda>s.
            bindE (printf (Some (ascii ''sepc=%p stval=%p'' @ [10])) [ArgPtr (sepc (csr s)), ArgPtr (stval (csr s))] s) (\<lambda>s.
              Inl (Panic ''kerneltrap'')))
          else
            case curproc s of
              Some i \<Rightarrow>
                if which_dev = 2 \<and> p_state (procs s ! i) = RUNNING
                then bindE (yield_enter s) (\<lambda>s. Inr (True, s))
                else Inr (False, upd_csr (\<lambda>c. c\<lparr>sepc := sepc c0, sstatus := sstatus c0\<rparr>) s)
            | None \<Rightarrow> Inr (False, upd_csr (\<lambda>c. c\<lparr>sepc := sepc c0, sstatus := sstatus c0\<rparr>) s)))"

definition forkret :: "kernel \<Rightarrow> (u64 \<times> u64 \<times> u64) kres" where
  "forkret s =
     bindE (myproc s) (\<lambda>i.
     bindE (release (ProcLk i) s) (\<lambda>s.
     bindE (if fork_first s then fsinit ROOTDEV (s\<lparr>fork_first := False\<rparr>) else Inr s) usertrapret))"

end
