(* ===== verification/Proc_Table.thy ===== *)
theory Proc_Table
  imports Proc
begin

text \<open>
  The process table: the scheduler reaches every runnable process in one pass, and \<^verbatim>\<open>kill\<close> finds
  the process it is asked for (\<^verbatim>\<open>kernel/proc.c\<close>).
\<close>

section \<open>The scheduler\<close>

text \<open>
  What the scheduler relies on from a process between the two switches: it comes back with the locks
  it was given, \<^verbatim>\<open>p->lock\<close> among them, and does not take another runnable process off the list.
\<close>

definition run_ok :: "(nat \<Rightarrow> kernel \<Rightarrow> kstep) \<Rightarrow> bool" where
  "run_ok run \<longleftrightarrow> (\<forall>i s. ProcLk i \<in> held s \<longrightarrow> curproc s = Some i \<longrightarrow>
     (\<exists>s'. run i s = Inr s' \<and> held s' = held s \<and> length (procs s') = length (procs s) \<and>
       (\<forall>j. j \<noteq> i \<longrightarrow> p_state (procs s ! j) = RUNNABLE \<longrightarrow> p_state (procs s' ! j) = RUNNABLE)))"

lemma upd_proc_simps [simp]:
  "held (upd_proc i f s) = held s" "curproc (upd_proc i f s) = curproc s" "length (procs (upd_proc i f s)) = length (procs s)"
  by (simp_all add: upd_proc_def)

lemma scheduler_step_ok:
  assumes r: "run_ok run" and s: "no_proc_lock s"
  shows "\<exists>n' s'. scheduler_step run i (n, s) = Inr (n', s') \<and> no_proc_lock s' \<and> length (procs s') = length (procs s) \<and>
    (\<forall>j. j \<noteq> i \<longrightarrow> p_state (procs s ! j) = RUNNABLE \<longrightarrow> p_state (procs s' ! j) = RUNNABLE)"
proof -
  have a: "ProcLk i \<notin> held s" using s by (simp add: no_proc_lock_def)
  let ?a = "s\<lparr>held := insert (ProcLk i) (held s)\<rparr>"
  have d: "insert (ProcLk i) (held s) - {ProcLk i} = held s" using a by simp
  show ?thesis
  proof (cases "p_state (procs s ! i) = RUNNABLE")
    case True
    let ?t = "upd_proc i (\<lambda>p. p\<lparr>p_state := RUNNING\<rparr>) (?a\<lparr>curproc := Some i\<rparr>)"
    have "ProcLk i \<in> held ?t" "curproc ?t = Some i" by simp_all
    then obtain s' where s': "run i ?t = Inr s'" "held s' = held ?t" "length (procs s') = length (procs ?t)"
      "\<forall>j. j \<noteq> i \<longrightarrow> p_state (procs ?t ! j) = RUNNABLE \<longrightarrow> p_state (procs s' ! j) = RUNNABLE"
      using r unfolding run_ok_def by blast
    have e: "scheduler_step run i (n, s) = Inr (n + 1, s'\<lparr>curproc := None, held := held s\<rparr>)"
      using a True s'(1,2) d by (simp add: scheduler_step_def)
    have "p_state (procs ?t ! j) = p_state (procs s ! j)" if "j \<noteq> i" for j using that by (simp add: upd_proc_def)
    then show ?thesis using e s s'(3,4) by (intro exI[of _ "n + 1"] exI[of _ "s'\<lparr>curproc := None, held := held s\<rparr>"]) (simp add: no_proc_lock_def)
  next
    case False
    then show ?thesis using a s d by (simp add: scheduler_step_def no_proc_lock_def)
  qed
qed

lemma scheduler_loop:
  assumes "run_ok run" "no_proc_lock s"
  shows "\<exists>n' s'. foldE (scheduler_step run) [a..<b] (n, s) = Inr (n', s') \<and> no_proc_lock s' \<and> length (procs s') = length (procs s) \<and>
    (\<forall>j. j \<notin> {a..<b} \<longrightarrow> p_state (procs s ! j) = RUNNABLE \<longrightarrow> p_state (procs s' ! j) = RUNNABLE)"
proof (induction b)
  case (Suc b)
  show ?case
  proof (cases "a \<le> b")
    case True
    from Suc obtain n1 s1 where s1: "foldE (scheduler_step run) [a..<b] (n, s) = Inr (n1, s1)" "no_proc_lock s1" "length (procs s1) = length (procs s)"
      "\<forall>j. j \<notin> {a..<b} \<longrightarrow> p_state (procs s ! j) = RUNNABLE \<longrightarrow> p_state (procs s1 ! j) = RUNNABLE" by blast
    from scheduler_step_ok[OF assms(1) s1(2), of b n1] obtain n2 s2 where s2: "scheduler_step run b (n1, s1) = Inr (n2, s2)" "no_proc_lock s2"
      "length (procs s2) = length (procs s1)" "\<forall>j. j \<noteq> b \<longrightarrow> p_state (procs s1 ! j) = RUNNABLE \<longrightarrow> p_state (procs s2 ! j) = RUNNABLE" by blast
    have "\<forall>j. j \<notin> {a..<Suc b} \<longrightarrow> p_state (procs s ! j) = RUNNABLE \<longrightarrow> p_state (procs s2 ! j) = RUNNABLE"
      using True s1(4) s2(4) by (metis atLeastLessThan_iff less_Suc_eq)
    then show ?thesis using True s1 s2 by (intro exI[of _ n2] exI[of _ s2]) (simp add: foldE_append)
  qed (use assms in simp)
qed (use assms in simp)

lemma scheduler_runs_ok:
  assumes r: "run_ok run" and s: "no_proc_lock s" and j: "j < NPROC" "p_state (procs s ! j) = RUNNABLE"
  shows "\<exists>n t w u. foldE (scheduler_step run) [0..<j] (0, s\<lparr>curproc := None\<rparr>) = Inr (n, t) \<and> p_state (procs t ! j) = RUNNABLE \<and>
    no_proc_lock t \<and> scheduler_step run j (n, t) =
      bindE (run j (upd_proc j (\<lambda>p. p\<lparr>p_state := RUNNING\<rparr>) (t\<lparr>held := insert (ProcLk j) (held t), curproc := Some j\<rparr>)))
        (\<lambda>s. bindE (release (ProcLk j) (s\<lparr>curproc := None\<rparr>)) (\<lambda>s. Inr (n + 1, s))) \<and>
    scheduler_pass run s = Inr (w, u) \<and> no_proc_lock u"
proof -
  let ?s = "s\<lparr>curproc := None\<rparr>"
  have s0: "no_proc_lock ?s" using s by (simp add: no_proc_lock_def)
  obtain n t where t: "foldE (scheduler_step run) [0..<j] (0, ?s) = Inr (n, t)" "no_proc_lock t" "p_state (procs t ! j) = RUNNABLE"
    using scheduler_loop[OF r s0, of 0 j 0] j(2) by auto
  have "ProcLk j \<notin> held t" using t(2) by (simp add: no_proc_lock_def)
  then have "scheduler_step run j (n, t) =
      bindE (run j (upd_proc j (\<lambda>p. p\<lparr>p_state := RUNNING\<rparr>) (t\<lparr>held := insert (ProcLk j) (held t), curproc := Some j\<rparr>)))
        (\<lambda>s. bindE (release (ProcLk j) (s\<lparr>curproc := None\<rparr>)) (\<lambda>s. Inr (n + 1, s)))"
    using t(3) by (simp add: scheduler_step_def bindE_assoc)
  moreover obtain m u where "foldE (scheduler_step run) [0..<NPROC] (0, ?s) = Inr (m, u)" "no_proc_lock u"
    using scheduler_loop[OF r s0, of 0 NPROC 0] by blast
  then have "\<exists>w. scheduler_pass run s = Inr (w, u) \<and> no_proc_lock u" by (simp add: scheduler_pass_def)
  ultimately show ?thesis using t by blast
qed

text \<open>A process that gives up the processor at once, by \<open>yield\<close>.\<close>

definition run_yield :: "nat \<Rightarrow> kernel \<Rightarrow> kstep" where
  "run_yield i s = Inr (upd_proc i (\<lambda>p. p\<lparr>p_state := RUNNABLE\<rparr>) s)"

lemma run_yield_ok: "run_ok run_yield"
  unfolding run_ok_def run_yield_def by (simp add: upd_proc_def nth_list_update)

section \<open>kill\<close>

definition killed :: "proc \<Rightarrow> proc" where
  "killed p = p\<lparr>p_killed := True, p_state := (if p_state p = SLEEPING then RUNNABLE else p_state p)\<rparr>"

lemma kill_scan_eq:
  assumes "no_proc_lock s" "\<forall>i\<in>set is. i < length (procs s)"
  shows "kill_scan pid is s = (case find (\<lambda>i. p_pid (procs s ! i) = pid) is of
     None \<Rightarrow> Inr (-1, s) | Some i \<Rightarrow> Inr (0, s\<lparr>procs := (procs s)[i := killed (procs s ! i)]\<rparr>))"
  using assms
proof (induction "is")
  case (Cons i "is")
  have h: "ProcLk i \<notin> held s" and d: "insert (ProcLk i) (held s) - {ProcLk i} = held s"
    using Cons.prems(1) by (auto simp: no_proc_lock_def)
  have l: "i < length (procs s)" using Cons.prems(2) by simp
  have x: "s\<lparr>held := held s\<rparr> = s" by simp
  show ?case
  proof (cases "p_pid (procs s ! i) = pid")
    case True
    then show ?thesis using h d l by (auto simp: upd_proc_def killed_def)
  next
    case False
    then show ?thesis using h d Cons by simp
  qed
qed simp

end
