(* ===== verification/Sleep_Wakeup.thy ===== *)
theory Sleep_Wakeup
  imports Proc
begin

text \<open>
  \<^verbatim>\<open>sleep\<close> and \<^verbatim>\<open>wakeup\<close> of \<^verbatim>\<open>kernel/proc.c\<close> under interleaving. Processes share a condition protected
  by a spinlock \<^verbatim>\<open>lk\<close>: a sleeper takes \<^verbatim>\<open>lk\<close>, tests the condition and calls \<^verbatim>\<open>sleep\<close> while it is
  false; a waker takes \<^verbatim>\<open>lk\<close>, makes it true and calls \<^verbatim>\<open>wakeup\<close>. This is how sleep-locks, pipes, the
  log and the disk driver use the pair. A step is what one process does between two lock operations,
  and steps of different processes interleave in any order.

  The theorem: no wakeup is lost. While the condition holds, a process asleep on the channel is still
  ahead of a \<^verbatim>\<open>wakeup\<close> in progress; once no \<^verbatim>\<open>wakeup\<close> is in progress, nobody is asleep.
\<close>

section \<open>The machine\<close>

text \<open>
  Where a process is: outside; waiting for \<^verbatim>\<open>lk\<close>; holding it; in \<^verbatim>\<open>sleep\<close> before and after
  \<^verbatim>\<open>acquire(&p->lock)\<close> and after \<^verbatim>\<open>release(lk)\<close>; switching in \<^verbatim>\<open>sched\<close>; switched away; back from
  \<^verbatim>\<open>sched\<close>; in \<^verbatim>\<open>wakeup\<close> before and after the \<^verbatim>\<open>acquire\<close> for table entry \<open>k\<close>.
\<close>

datatype swpc = Out | Want | Has | SleepAcq | SleepRel | SleepSet | Sched | Away | Back | Scan nat | Visit nat

record sw =
  sw_lk :: "nat option"
  sw_pl :: "nat \<Rightarrow> nat option"
  sw_state :: "nat \<Rightarrow> procstate"
  sw_chan :: "nat \<Rightarrow> bool"
  sw_cond :: bool
  sw_pc :: "nat \<Rightarrow> swpc"

definition goto :: "nat \<Rightarrow> swpc \<Rightarrow> sw \<Rightarrow> sw" where
  "goto p l s = s\<lparr>sw_pc := (sw_pc s)(p := l)\<rparr>"

definition set_pl :: "nat \<Rightarrow> nat option \<Rightarrow> sw \<Rightarrow> sw" where
  "set_pl p o' s = s\<lparr>sw_pl := (sw_pl s)(p := o')\<rparr>"

text \<open>\<^verbatim>\<open>sleep\<close>, step by step: \<^verbatim>\<open>acquire(&p->lock)\<close>; \<^verbatim>\<open>release(lk)\<close>; the assignments; \<^verbatim>\<open>sched\<close>.\<close>

definition sleep_acq :: "nat \<Rightarrow> sw \<Rightarrow> sw" where
  "sleep_acq p s = goto p SleepRel (set_pl p (Some p) s)"

definition sleep_rel :: "nat \<Rightarrow> sw \<Rightarrow> sw" where
  "sleep_rel p s = goto p SleepSet (s\<lparr>sw_lk := None\<rparr>)"

definition sleep_set :: "nat \<Rightarrow> sw \<Rightarrow> sw" where
  "sleep_set p s = goto p Sched (s\<lparr>sw_chan := (sw_chan s)(p := True), sw_state := (sw_state s)(p := SLEEPING)\<rparr>)"

text \<open>The scheduler, on the other side of the switch, releases \<^verbatim>\<open>p->lock\<close>; later it may run the process again.\<close>

definition sched_away :: "nat \<Rightarrow> sw \<Rightarrow> sw" where
  "sched_away p s = goto p Away (set_pl p None s)"

definition sched_run :: "nat \<Rightarrow> sw \<Rightarrow> sw" where
  "sched_run p s = goto p Back (set_pl p (Some p) (s\<lparr>sw_state := (sw_state s)(p := RUNNING)\<rparr>))"

definition sleep_tidy :: "nat \<Rightarrow> sw \<Rightarrow> sw" where
  "sleep_tidy p s = goto p Want (set_pl p None (s\<lparr>sw_chan := (sw_chan s)(p := False)\<rparr>))"

text \<open>\<^verbatim>\<open>wakeup\<close>: one table entry after the other.\<close>

definition wakeup_acq :: "nat \<Rightarrow> nat \<Rightarrow> sw \<Rightarrow> sw" where
  "wakeup_acq p k s = goto p (Visit k) (set_pl k (Some p) s)"

definition wakeup_visit :: "nat \<Rightarrow> nat \<Rightarrow> sw \<Rightarrow> sw" where
  "wakeup_visit p k s =
     goto p (Scan (Suc k)) (set_pl k None
       (if sw_state s k = SLEEPING \<and> sw_chan s k then s\<lparr>sw_state := (sw_state s)(k := RUNNABLE)\<rparr> else s))"

text \<open>
  One step of process \<open>p\<close>. \<open>use\<close> is the sleeper's end of the wait, which may make the condition
  false again, as \<^verbatim>\<open>acquiresleep\<close> does; \<open>signal\<close> is the waker.
\<close>

inductive sw_step :: "nat \<Rightarrow> sw \<Rightarrow> sw \<Rightarrow> bool" where
  want: "sw_pc s p = Out \<Longrightarrow> sw_step p s (goto p Want s)"
| lock: "sw_pc s p = Want \<Longrightarrow> sw_lk s = None \<Longrightarrow> sw_step p s (goto p Has (s\<lparr>sw_lk := Some p\<rparr>))"
| wait: "sw_pc s p = Has \<Longrightarrow> \<not> sw_cond s \<Longrightarrow> sw_step p s (goto p SleepAcq s)"
| use: "sw_pc s p = Has \<Longrightarrow> sw_cond s \<Longrightarrow> sw_step p s (goto p Out (s\<lparr>sw_cond := b, sw_lk := None\<rparr>))"
| acq: "sw_pc s p = SleepAcq \<Longrightarrow> sw_pl s p = None \<Longrightarrow> sw_step p s (sleep_acq p s)"
| rel: "sw_pc s p = SleepRel \<Longrightarrow> sw_step p s (sleep_rel p s)"
| set: "sw_pc s p = SleepSet \<Longrightarrow> sw_step p s (sleep_set p s)"
| away: "sw_pc s p = Sched \<Longrightarrow> sw_step p s (sched_away p s)"
| run: "sw_pc s p = Away \<Longrightarrow> sw_state s p = RUNNABLE \<Longrightarrow> sw_pl s p = None \<Longrightarrow> sw_step p s (sched_run p s)"
| tidy: "sw_pc s p = Back \<Longrightarrow> sw_step p s (sleep_tidy p s)"
| signal: "sw_pc s p = Has \<Longrightarrow> sw_step p s (goto p (Scan 0) (s\<lparr>sw_cond := True\<rparr>))"
| scan: "sw_pc s p = Scan k \<Longrightarrow> k < NPROC \<Longrightarrow> sw_pl s k = None \<Longrightarrow> sw_step p s (wakeup_acq p k s)"
| visit: "sw_pc s p = Visit k \<Longrightarrow> sw_step p s (wakeup_visit p k s)"
| unlock: "sw_pc s p = Scan NPROC \<Longrightarrow> sw_step p s (goto p Out (s\<lparr>sw_lk := None\<rparr>))"

inductive_cases sw_stepE: "sw_step p s s'"

definition sw_init :: sw where
  "sw_init = \<lparr>sw_lk = None, sw_pl = \<lambda>_. None, sw_state = \<lambda>_. RUNNING, sw_chan = \<lambda>_. False, sw_cond = False, sw_pc = \<lambda>_. Out\<rparr>"

text \<open>The processes are those of the table.\<close>

inductive sw_reach :: "sw \<Rightarrow> bool" where
  sw_start: "sw_reach sw_init"
| sw_next: "sw_reach s \<Longrightarrow> sw_step p s s' \<Longrightarrow> p < NPROC \<Longrightarrow> sw_reach s'"

section \<open>The invariant\<close>

text \<open>
  The locks are where the program counters say; a process asleep, or on its way, has the condition
  false or a \<^verbatim>\<open>wakeup\<close> still to come past it.
\<close>

definition holds_lk :: "swpc \<Rightarrow> bool" where
  "holds_lk l \<longleftrightarrow> l \<in> {Has, SleepAcq, SleepRel} \<or> (\<exists>k. l = Scan k \<or> l = Visit k)"

definition lk_inv :: "sw \<Rightarrow> bool" where
  "lk_inv s \<longleftrightarrow> (\<forall>p. holds_lk (sw_pc s p) \<longleftrightarrow> sw_lk s = Some p)"

definition holds_pl :: "nat \<Rightarrow> nat \<Rightarrow> swpc \<Rightarrow> bool" where
  "holds_pl p k l \<longleftrightarrow> l = Visit k \<or> p = k \<and> l \<in> {SleepRel, SleepSet, Sched, Back}"

definition pl_inv :: "sw \<Rightarrow> bool" where
  "pl_inv s \<longleftrightarrow> (\<forall>p k. holds_pl p k (sw_pc s p) \<longleftrightarrow> sw_pl s k = Some p)"

definition coming :: "sw \<Rightarrow> nat \<Rightarrow> bool" where
  "coming s q \<longleftrightarrow> (\<exists>w k. (sw_pc s w = Scan k \<or> sw_pc s w = Visit k) \<and> k \<le> q)"

definition sleeper :: "sw \<Rightarrow> nat \<Rightarrow> bool" where
  "sleeper s q \<longleftrightarrow> sw_pc s q \<in> {SleepAcq, SleepRel, SleepSet, Sched} \<or> sw_pc s q = Away \<and> sw_state s q = SLEEPING"

definition sleep_inv :: "sw \<Rightarrow> bool" where
  "sleep_inv s \<longleftrightarrow> (\<forall>q. sleeper s q \<longrightarrow> q < NPROC \<and> (sw_cond s \<longrightarrow> coming s q)) \<and>
     (\<forall>q. sw_pc s q \<in> {Sched, Away} \<longrightarrow> sw_chan s q) \<and>
     (\<forall>q. sw_pc s q = Sched \<longrightarrow> sw_state s q = SLEEPING) \<and> (\<forall>q. sw_pc s q = Away \<longrightarrow> sw_state s q \<in> {SLEEPING, RUNNABLE})"

definition sw_inv :: "sw \<Rightarrow> bool" where
  "sw_inv s \<longleftrightarrow> lk_inv s \<and> pl_inv s \<and> sleep_inv s"

lemmas sw_ops = goto_def set_pl_def sleep_acq_def sleep_rel_def sleep_set_def sched_away_def sched_run_def
  sleep_tidy_def wakeup_acq_def wakeup_visit_def

lemma holds_simps [simp]:
  "holds_lk Has" "holds_lk SleepAcq" "holds_lk SleepRel" "holds_lk (Scan k)" "holds_lk (Visit k)" "\<not> holds_lk Out" "\<not> holds_lk Want"
  "\<not> holds_lk SleepSet" "\<not> holds_lk Sched" "\<not> holds_lk Away" "\<not> holds_lk Back"
  "\<not> holds_pl p q Out" "\<not> holds_pl p q Want" "\<not> holds_pl p q Has" "\<not> holds_pl p q SleepAcq" "\<not> holds_pl p q Away" "\<not> holds_pl p q (Scan k)"
  "holds_pl p q SleepRel \<longleftrightarrow> p = q" "holds_pl p q SleepSet \<longleftrightarrow> p = q" "holds_pl p q Sched \<longleftrightarrow> p = q" "holds_pl p q Back \<longleftrightarrow> p = q"
  "holds_pl p q (Visit k) \<longleftrightarrow> q = k"
  by (auto simp: holds_lk_def holds_pl_def)

text \<open>A step keeps the locks of its process, takes a free one, or gives one up.\<close>

lemma lk_move:
  assumes "lk_inv s" "sw_pc s' = (sw_pc s)(p := l)"
    and "sw_lk s' = sw_lk s \<and> (holds_lk l \<longleftrightarrow> holds_lk (sw_pc s p)) \<or> sw_lk s = None \<and> sw_lk s' = Some p \<and> holds_lk l \<or>
      holds_lk (sw_pc s p) \<and> sw_lk s' = None \<and> \<not> holds_lk l"
  shows "lk_inv s'"
  unfolding lk_inv_def
proof
  fix q
  have i: "holds_lk (sw_pc s q) \<longleftrightarrow> sw_lk s = Some q" "holds_lk (sw_pc s p) \<longleftrightarrow> sw_lk s = Some p" using assms(1) unfolding lk_inv_def by blast+
  from assms(3) show "holds_lk (sw_pc s' q) \<longleftrightarrow> sw_lk s' = Some q"
    by (elim disjE conjE; cases "q = p") (use i in \<open>simp_all add: assms(2)\<close>)
qed

lemma pl_keep:
  assumes "pl_inv s" "sw_pc s' = (sw_pc s)(p := l)" "sw_pl s' = sw_pl s" "\<And>k. holds_pl p k l \<longleftrightarrow> holds_pl p k (sw_pc s p)"
  shows "pl_inv s'"
  using assms unfolding pl_inv_def by (metis fun_upd_other fun_upd_same)

lemma pl_take:
  assumes "pl_inv s" "sw_pc s' = (sw_pc s)(p := l)" "sw_pl s' = (sw_pl s)(k := Some p)" "sw_pl s k = None"
    and "\<And>j. \<not> holds_pl p j (sw_pc s p)" "\<And>j. holds_pl p j l \<longleftrightarrow> j = k"
  shows "pl_inv s'"
  unfolding pl_inv_def
proof (intro allI)
  fix q j
  have "holds_pl q j (sw_pc s q) \<longleftrightarrow> sw_pl s j = Some q" "holds_pl p j (sw_pc s p) \<longleftrightarrow> sw_pl s j = Some p"
    "holds_pl q k (sw_pc s q) \<longleftrightarrow> sw_pl s k = Some q" "holds_pl p k (sw_pc s p) \<longleftrightarrow> sw_pl s k = Some p" using assms(1) unfolding pl_inv_def by blast+
  then show "holds_pl q j (sw_pc s' q) \<longleftrightarrow> sw_pl s' j = Some q"
    using assms(4-) by (cases "q = p"; cases "j = k") (simp_all add: assms(2,3))
qed

lemma pl_drop:
  assumes "pl_inv s" "sw_pc s' = (sw_pc s)(p := l)" "sw_pl s' = (sw_pl s)(k := None)"
    and "\<And>j. holds_pl p j (sw_pc s p) \<longleftrightarrow> j = k" "\<And>j. \<not> holds_pl p j l"
  shows "pl_inv s'"
  unfolding pl_inv_def
proof (intro allI)
  fix q j
  have "holds_pl q j (sw_pc s q) \<longleftrightarrow> sw_pl s j = Some q" "holds_pl p j (sw_pc s p) \<longleftrightarrow> sw_pl s j = Some p"
    "holds_pl q k (sw_pc s q) \<longleftrightarrow> sw_pl s k = Some q" "holds_pl p k (sw_pc s p) \<longleftrightarrow> sw_pl s k = Some p" using assms(1) unfolding pl_inv_def by blast+
  then show "holds_pl q j (sw_pc s' q) \<longleftrightarrow> sw_pl s' j = Some q"
    using assms(4-) by (cases "q = p"; cases "j = k") (simp_all add: assms(2,3))
qed

lemma visit_fields:
  "sw_pc (wakeup_visit p k s) = (sw_pc s)(p := Scan (Suc k))" "sw_chan (wakeup_visit p k s) = sw_chan s"
  "sw_cond (wakeup_visit p k s) = sw_cond s" "sw_lk (wakeup_visit p k s) = sw_lk s" "sw_pl (wakeup_visit p k s) = (sw_pl s)(k := None)"
  "sw_state (wakeup_visit p k s) q = (if q = k \<and> sw_state s k = SLEEPING \<and> sw_chan s k then RUNNABLE else sw_state s q)"
  by (simp_all add: wakeup_visit_def goto_def set_pl_def)

lemma lk_step: "sw_step p s s' \<Longrightarrow> lk_inv s \<Longrightarrow> lk_inv s'"
proof (induction rule: sw_step.induct)
  case (visit s p k)
  then show ?case by - (rule lk_move[of s _ p "Scan (Suc k)"]; simp add: visit_fields)
qed (erule lk_move, simp add: sw_ops, simp add: sw_ops)+

lemma pl_step: "sw_step p s s' \<Longrightarrow> pl_inv s \<Longrightarrow> pl_inv s'"
proof (induction rule: sw_step.induct)
  case (acq s p)
  then show ?case by - (rule pl_take[of s _ p SleepRel p]; auto simp: sw_ops)
next
  case (run s p)
  then show ?case by - (rule pl_take[of s _ p Back p]; auto simp: sw_ops)
next
  case (scan s p k)
  then show ?case by - (rule pl_take[of s _ p "Visit k" k]; auto simp: sw_ops)
next
  case (away s p)
  then show ?case by - (rule pl_drop[of s _ p Away p]; auto simp: sw_ops)
next
  case (tidy s p)
  then show ?case by - (rule pl_drop[of s _ p Want p]; auto simp: sw_ops)
next
  case (visit s p k)
  then show ?case by - (rule pl_drop[of s _ p "Scan (Suc k)" k]; simp add: visit_fields)
qed (erule pl_keep, simp add: sw_ops, simp add: sw_ops, simp add: sw_ops)+

text \<open>Only the holder of \<^verbatim>\<open>lk\<close> scans.\<close>

lemma one_holder: "lk_inv s \<Longrightarrow> holds_lk (sw_pc s p) \<Longrightarrow> holds_lk (sw_pc s q) \<Longrightarrow> p = q"
  unfolding lk_inv_def by (metis option.inject)

lemma coming_of:
  assumes "lk_inv s" "sw_pc s p = Scan k \<or> sw_pc s p = Visit k" "coming s q"
  shows "k \<le> q"
proof -
  obtain w j where w: "sw_pc s w = Scan j \<or> sw_pc s w = Visit j" "j \<le> q" using assms(3) unfolding coming_def by blast
  then have "w = p" using one_holder[OF assms(1), of w p] assms(2) by auto
  then show ?thesis using w assms(2) by auto
qed

definition waking :: "swpc \<Rightarrow> bool" where
  "waking l \<longleftrightarrow> (\<exists>k. l = Scan k \<or> l = Visit k)"

lemma waking_simps [simp]: "\<not> waking Out" "\<not> waking Want" "\<not> waking Has" "\<not> waking SleepAcq" "\<not> waking SleepRel" "\<not> waking SleepSet"
  "\<not> waking Sched" "\<not> waking Away" "\<not> waking Back" "waking (Scan k)" "waking (Visit k)"
  by (auto simp: waking_def)

lemma coming_keep: "sw_pc s' = (sw_pc s)(p := l) \<Longrightarrow> \<not> waking (sw_pc s p) \<Longrightarrow> coming s q \<Longrightarrow> coming s' q"
  unfolding coming_def waking_def by (metis fun_upd_other)

text \<open>A step of a process that is not scanning keeps the invariant if the process itself is in order.\<close>

lemma sleep_keep:
  assumes "sleep_inv s" "sw_pc s' = (sw_pc s)(p := l)" "\<not> waking (sw_pc s p)" "sw_cond s' \<longrightarrow> sw_cond s"
    and "\<forall>q. q \<noteq> p \<longrightarrow> sw_chan s' q = sw_chan s q \<and> sw_state s' q = sw_state s q"
    and "sleeper s' p \<longrightarrow> p < NPROC \<and> (sw_cond s \<longrightarrow> coming s p)" "l \<in> {Sched, Away} \<longrightarrow> sw_chan s' p" "l = Sched \<longrightarrow> sw_state s' p = SLEEPING"
    "l = Away \<longrightarrow> sw_state s' p \<in> {SLEEPING, RUNNABLE}"
  shows "sleep_inv s'"
proof -
  have s: "sleeper s' q \<longrightarrow> q < NPROC \<and> (sw_cond s' \<longrightarrow> coming s' q)" for q
  proof (cases "q = p")
    case False
    then have "sleeper s' q = sleeper s q" using assms(2,5) by (simp add: sleeper_def)
    then show ?thesis using assms(1,4) coming_keep[OF assms(2,3)] unfolding sleep_inv_def by blast
  qed (use assms(4,6) coming_keep[OF assms(2,3)] in blast)
  have c: "sw_pc s' q \<in> {Sched, Away} \<longrightarrow> sw_chan s' q" "sw_pc s' q = Sched \<longrightarrow> sw_state s' q = SLEEPING"
    "sw_pc s' q = Away \<longrightarrow> sw_state s' q \<in> {SLEEPING, RUNNABLE}" for q
    using assms(1,2,5,7,8,9) unfolding sleep_inv_def by (cases "q = p"; simp)+
  show ?thesis using s c unfolding sleep_inv_def by blast
qed

lemma sleeper_own: "sleep_inv s \<Longrightarrow> sw_pc s p \<in> {SleepAcq, SleepRel, SleepSet, Sched} \<Longrightarrow> p < NPROC \<and> (sw_cond s \<longrightarrow> coming s p)"
  unfolding sleep_inv_def sleeper_def by blast

lemma sched_own: "sleep_inv s \<Longrightarrow> sw_pc s p = Sched \<Longrightarrow> sw_chan s p \<and> sw_state s p = SLEEPING"
  unfolding sleep_inv_def by blast

lemma sleep_visit:
  assumes i: "lk_inv s" "pl_inv s" "sleep_inv s" and v: "sw_pc s p = Visit k"
  shows "sleep_inv (wakeup_visit p k s)"
proof -
  let ?s = "wakeup_visit p k s"
  note pc = visit_fields(1-3)[of p k s] visit_fields(6)[of p k s]
  have own: "sw_pl s k = Some p" using i(2) v unfolding pl_inv_def by (metis holds_simps(22))
  have sl: "sleeper s q \<and> q \<noteq> k" if q: "sleeper ?s q" for q
  proof
    have np: "q \<noteq> p" using q by (auto simp: sleeper_def pc)
    show "sleeper s q" using q np by (auto simp: sleeper_def pc split: if_splits)
    show "q \<noteq> k"
    proof
      assume k: "q = k"
      have "\<not> holds_pl k k (sw_pc s k)" using i(2) own np k unfolding pl_inv_def by (metis option.inject)
      then have "sw_pc s k \<notin> {SleepRel, SleepSet, Sched}" by auto
      moreover have "sw_pc s k \<noteq> SleepAcq" using one_holder[OF i(1), of k p] v np k by auto
      ultimately have "sw_pc s k = Away" "sw_state ?s k = SLEEPING" using q np k by (auto simp: sleeper_def pc(1))
      then show False using i(3) unfolding sleep_inv_def pc(4) by (auto split: if_splits)
    qed
  qed
  have s: "sleeper ?s q \<longrightarrow> q < NPROC \<and> (sw_cond ?s \<longrightarrow> coming ?s q)" for q
  proof (intro impI conjI)
    assume "sleeper ?s q"
    from sl[OF this] have q: "sleeper s q" "q \<noteq> k" by blast+
    then show "q < NPROC" using i(3) unfolding sleep_inv_def by blast
    assume "sw_cond ?s"
    then have "k \<le> q" using q i(3) coming_of[OF i(1)] v unfolding sleep_inv_def pc by blast
    then have "Suc k \<le> q" using q(2) by simp
    moreover have "sw_pc ?s p = Scan (Suc k)" by (simp add: pc)
    ultimately show "coming ?s q" unfolding coming_def by blast
  qed
  have c: "sw_pc ?s q \<in> {Sched, Away} \<longrightarrow> sw_chan ?s q" "sw_pc ?s q = Sched \<longrightarrow> sw_state ?s q = SLEEPING"
    "sw_pc ?s q = Away \<longrightarrow> sw_state ?s q \<in> {SLEEPING, RUNNABLE}" for q
  proof -
    show "sw_pc ?s q = Away \<longrightarrow> sw_state ?s q \<in> {SLEEPING, RUNNABLE}" using i(3) unfolding sleep_inv_def by (simp add: pc)
    show "sw_pc ?s q \<in> {Sched, Away} \<longrightarrow> sw_chan ?s q" using i(3) unfolding sleep_inv_def by (simp add: pc)
    have "sw_pc s k = Sched \<Longrightarrow> k = p" using i(2) own unfolding pl_inv_def by (metis holds_simps(20) option.inject)
    then show "sw_pc ?s q = Sched \<longrightarrow> sw_state ?s q = SLEEPING" using i(3) unfolding sleep_inv_def by (auto simp: pc)
  qed
  show ?thesis using s c unfolding sleep_inv_def by blast
qed

lemma sw_invD: "sw_inv s \<Longrightarrow> sleep_inv s"
  by (simp add: sw_inv_def)

lemma sleep_step: "sw_step p s s' \<Longrightarrow> p < NPROC \<Longrightarrow> sw_inv s \<Longrightarrow> sleep_inv s'"
proof (induction rule: sw_step.induct)
  case (signal s p)
  let ?s = "goto p (Scan 0) (s\<lparr>sw_cond := True\<rparr>)"
  have "sw_pc ?s p = Scan 0" by (simp add: goto_def)
  then have "coming ?s q" for q unfolding coming_def by blast
  then show ?case using signal unfolding sw_inv_def sleep_inv_def sleeper_def by (auto simp: goto_def split: if_splits)
next
  case (scan s p k)
  let ?s = "wakeup_acq p k s"
  have "coming ?s q" if "coming s q" for q
  proof -
    have "k \<le> q" using coming_of[of s p k q] scan that unfolding sw_inv_def by blast
    moreover have "sw_pc ?s p = Visit k" by (simp add: wakeup_acq_def goto_def)
    ultimately show ?thesis unfolding coming_def by blast
  qed
  then show ?case using scan unfolding sw_inv_def sleep_inv_def sleeper_def by (auto simp: sw_ops split: if_splits)
next
  case (unlock s p)
  have "\<not> coming s q" if "q < NPROC" for q using coming_of[of s p NPROC q] unlock that unfolding sw_inv_def by auto
  then show ?case using unlock unfolding sw_inv_def sleep_inv_def sleeper_def by (auto simp: sw_ops split: if_splits)
next
  case (visit s p k)
  then show ?case using sleep_visit unfolding sw_inv_def by blast
qed (drule sw_invD, rule sleep_keep, assumption, simp add: sw_ops, (auto simp: sw_ops sleeper_def dest: sleeper_own sched_own)[7])+

lemma sw_reach_inv: "sw_reach s \<Longrightarrow> sw_inv s"
proof (induction rule: sw_reach.induct)
  case sw_start
  then show ?case by (simp add: sw_inv_def sw_init_def lk_inv_def pl_inv_def sleep_inv_def sleeper_def)
next
  case (sw_next s p s')
  then show ?case using lk_step pl_step sleep_step unfolding sw_inv_def by blast
qed

lemma woken_can_run:
  assumes r: "sw_reach s" and c: "sw_cond s" and w: "\<forall>w. \<not> waking (sw_pc s w)" and q: "sw_pc s q = Away"
  shows "sw_state s q = RUNNABLE \<and> sw_step q s (sched_run q s)"
proof -
  have i: "pl_inv s" "sleep_inv s" using sw_reach_inv[OF r] by (simp_all add: sw_inv_def)
  have "\<not> coming s q" using w unfolding coming_def waking_def by blast
  then have "\<not> sleeper s q" using i(2) c unfolding sleep_inv_def by blast
  then have a: "sw_state s q = RUNNABLE" using i(2) q unfolding sleep_inv_def sleeper_def by blast
  have "\<not> holds_pl p q (sw_pc s p)" for p
    using w[rule_format, of p] q by (cases "sw_pc s p"; cases "p = q") auto
  then have "sw_pl s q = None" using i(1) unfolding pl_inv_def by (metis not_Some_eq)
  then show ?thesis using a q sw_step.run by blast
qed

text \<open>A \<^verbatim>\<open>wakeup\<close> that finds the table's locks free runs to its end.\<close>

lemma wakeup_finishes:
  assumes "sw_reach s" "p < NPROC" "sw_pc s p = Scan k" "k \<le> NPROC" "\<forall>j. sw_pl s j = None"
  shows "\<exists>s'. sw_reach s' \<and> sw_pc s' = (sw_pc s)(p := Scan NPROC) \<and> sw_cond s' = sw_cond s"
  using assms
proof (induction "NPROC - k" arbitrary: s k)
  case 0
  then show ?case by (metis diff_is_0_eq fun_upd_triv le_antisym)
next
  case (Suc n)
  let ?a = "wakeup_acq p k s" and ?b = "wakeup_visit p k (wakeup_acq p k s)"
  have "k < NPROC" using Suc.hyps(2) by simp
  then have a: "sw_reach ?a" using Suc.prems by (intro sw_next[OF _ sw_step.scan]) auto
  have b: "sw_reach ?b" by (rule sw_next[OF a sw_step.visit Suc.prems(2)]) (simp add: sw_ops)
  have f: "sw_pc ?b p = Scan (Suc k)" "\<forall>j. sw_pl ?b j = None" "sw_cond ?b = sw_cond s" "(sw_pc ?b)(p := l) = (sw_pc s)(p := l)" for l
    using Suc.prems(5) by (simp_all add: visit_fields) (simp_all add: wakeup_acq_def goto_def set_pl_def)
  have "n = NPROC - Suc k" "Suc k \<le> NPROC" using Suc.hyps(2) by simp_all
  from Suc.hyps(1)[OF this(1) b Suc.prems(2) f(1) this(2) f(2)] show ?case by (simp add: f(3,4))
qed

text \<open>Process 1 goes to sleep, then process 2 signals.\<close>

definition asleep1 :: sw where
  "asleep1 = sched_away 1 (sleep_set 1 (sleep_rel 1 (sleep_acq 1 (goto 1 SleepAcq (goto 1 Has ((goto 1 Want sw_init)\<lparr>sw_lk := Some 1\<rparr>))))))"

definition signalled :: sw where
  "signalled = goto 2 (Scan 0) ((goto 2 Has ((goto 2 Want asleep1)\<lparr>sw_lk := Some 2\<rparr>))\<lparr>sw_cond := True\<rparr>)"

lemma asleep1_reach: "sw_reach asleep1"
  unfolding asleep1_def
  by (rule sw_next[OF sw_next[OF sw_next[OF sw_next[OF sw_next[OF sw_next[OF sw_next[OF sw_start sw_step.want] sw_step.lock] sw_step.wait]
      sw_step.acq] sw_step.rel] sw_step.set] sw_step.away]) (simp_all add: sw_ops sw_init_def NPROC_def)

lemma signalled_reach: "sw_reach signalled"
  unfolding signalled_def
  by (rule sw_next[OF sw_next[OF sw_next[OF asleep1_reach sw_step.want] sw_step.lock] sw_step.signal])
     (simp_all add: asleep1_def sw_ops sw_init_def NPROC_def)

lemma signalled_fields: "sw_pc signalled = (\<lambda>_. Out)(1 := Away, 2 := Scan 0)" "sw_cond signalled" "\<forall>j. sw_pl signalled j = None"
  by (simp_all add: signalled_def asleep1_def sw_ops sw_init_def)

lemma woken_reach: "\<exists>s. sw_reach s \<and> sw_pc s = (\<lambda>_. Out)(1 := Away) \<and> sw_cond s"
proof -
  obtain s where s: "sw_reach s" "sw_pc s = (sw_pc signalled)(2 := Scan NPROC)" "sw_cond s"
    using wakeup_finishes[OF signalled_reach, of 2 0] signalled_fields by (auto simp: NPROC_def)
  let ?t = "goto 2 Out (s\<lparr>sw_lk := None\<rparr>)"
  have "sw_reach ?t" by (rule sw_next[OF s(1) sw_step.unlock]) (simp_all add: s(2) NPROC_def)
  moreover have "sw_pc ?t = (\<lambda>_. Out)(1 := Away)" by (simp add: goto_def s(2) signalled_fields fun_eq_iff)
  ultimately show ?thesis using s(3) by (auto simp: goto_def)
qed

end
