(* ===== verification/Spinlock.thy ===== *)
theory Spinlock
  imports Kernel_State
begin

text \<open>
  Spinlocks, \<^verbatim>\<open>kernel/spinlock.c\<close>, on a machine of several harts. Each hart runs its own code;
  the steps of different harts interleave in any order. A step is what one hart does between two
  accesses to memory the others can write: \<open>acquire\<close> is the check, the atomic swap repeated until
  it reads 0, and the store to \<^verbatim>\<open>lk->cpu\<close>; \<open>release\<close> is the check with the store to
  \<^verbatim>\<open>lk->cpu\<close>, the store to \<^verbatim>\<open>lk->locked\<close>, and \<open>pop_off\<close>. The fields of \<^verbatim>\<open>struct cpu\<close> and the
  interrupt-enable bit belong to the hart alone.

  The theorems: no two harts are inside the critical section of the same lock; a hart with a lock
  has interrupts off; \<open>pop_off\<close> never panics after a \<open>release\<close>; and what one hart sees of its
  own locks is the view \<open>held\<close> of the rest of the development, whatever the other harts do.
\<close>

section \<open>The machine and the operations\<close>

record spinlock =
  lk_locked :: u32
  lk_cpu :: "nat option"

record cpu =
  noff :: int
  intena :: bool

text \<open>Where a hart is: outside the lock routines, between two of their steps, or stopped by a panic.\<close>

datatype pc = Idle | Spinning lockid | Taken lockid | Clearing lockid | Popping | Stuck string

record smp =
  slocks :: "lockid \<Rightarrow> spinlock"
  cpus :: "nat \<Rightarrow> cpu"
  sie :: "nat \<Rightarrow> bool"
  pcs :: "nat \<Rightarrow> pc"

definition set_lock :: "lockid \<Rightarrow> (spinlock \<Rightarrow> spinlock) \<Rightarrow> smp \<Rightarrow> smp" where
  "set_lock lk f s = s\<lparr>slocks := (slocks s)(lk := f (slocks s lk))\<rparr>"

definition set_cpu :: "nat \<Rightarrow> (cpu \<Rightarrow> cpu) \<Rightarrow> smp \<Rightarrow> smp" where
  "set_cpu h f s = s\<lparr>cpus := (cpus s)(h := f (cpus s h))\<rparr>"

definition set_sie :: "nat \<Rightarrow> bool \<Rightarrow> smp \<Rightarrow> smp" where
  "set_sie h b s = s\<lparr>sie := (sie s)(h := b)\<rparr>"

definition set_pc :: "nat \<Rightarrow> pc \<Rightarrow> smp \<Rightarrow> smp" where
  "set_pc h p s = s\<lparr>pcs := (pcs s)(h := p)\<rparr>"

definition initlock :: "lockid \<Rightarrow> smp \<Rightarrow> smp" where
  "initlock lk s = set_lock lk (\<lambda>l. l\<lparr>lk_locked := 0, lk_cpu := None\<rparr>) s"

definition intr_get :: "nat \<Rightarrow> smp \<Rightarrow> bool" where
  "intr_get h s = sie s h"

definition push_off :: "nat \<Rightarrow> smp \<Rightarrow> smp" where
  "push_off h s =
     (let old = intr_get h s;
          s = set_sie h False s;
          s = (if noff (cpus s h) = 0 then set_cpu h (\<lambda>c. c\<lparr>intena := old\<rparr>) s else s)
      in set_cpu h (\<lambda>c. c\<lparr>noff := noff c + 1\<rparr>) s)"

definition pop_off :: "nat \<Rightarrow> smp \<Rightarrow> string + smp" where
  "pop_off h s =
     (if intr_get h s then Inl ''pop_off - interruptible''
      else if noff (cpus s h) < 1 then Inl ''pop_off''
      else
        let s = set_cpu h (\<lambda>c. c\<lparr>noff := noff c - 1\<rparr>) s
        in Inr (if noff (cpus s h) = 0 \<and> intena (cpus s h) then set_sie h True s else s))"

definition holding :: "nat \<Rightarrow> lockid \<Rightarrow> smp \<Rightarrow> bool" where
  "holding h lk s \<longleftrightarrow> lk_locked (slocks s lk) \<noteq> 0 \<and> lk_cpu (slocks s lk) = Some h"

definition acquire_enter :: "nat \<Rightarrow> lockid \<Rightarrow> smp \<Rightarrow> smp" where
  "acquire_enter h lk s =
     (let s = push_off h s
      in if holding h lk s then set_pc h (Stuck ''acquire'') s else set_pc h (Spinning lk) s)"

definition acquire_swap :: "nat \<Rightarrow> lockid \<Rightarrow> smp \<Rightarrow> smp" where
  "acquire_swap h lk s =
     (let old = lk_locked (slocks s lk);
          s = set_lock lk (\<lambda>l. l\<lparr>lk_locked := 1\<rparr>) s
      in if old \<noteq> 0 then s else set_pc h (Taken lk) s)"

definition acquire_record :: "nat \<Rightarrow> lockid \<Rightarrow> smp \<Rightarrow> smp" where
  "acquire_record h lk s = set_pc h Idle (set_lock lk (\<lambda>l. l\<lparr>lk_cpu := Some h\<rparr>) s)"

definition release_enter :: "nat \<Rightarrow> lockid \<Rightarrow> smp \<Rightarrow> smp" where
  "release_enter h lk s =
     (if \<not> holding h lk s then set_pc h (Stuck ''release'') s
      else set_pc h (Clearing lk) (set_lock lk (\<lambda>l. l\<lparr>lk_cpu := None\<rparr>) s))"

definition release_clear :: "nat \<Rightarrow> lockid \<Rightarrow> smp \<Rightarrow> smp" where
  "release_clear h lk s = set_pc h Popping (set_lock lk (\<lambda>l. l\<lparr>lk_locked := 0\<rparr>) s)"

definition release_pop :: "nat \<Rightarrow> smp \<Rightarrow> smp" where
  "release_pop h s = (case pop_off h s of Inl e \<Rightarrow> set_pc h (Stuck e) s | Inr s \<Rightarrow> set_pc h Idle s)"

text \<open>
  One step of hart \<open>h\<close>. Outside the lock routines the kernel turns interrupts on only while no
  \<open>push_off\<close> is pending (\<^verbatim>\<open>scheduler\<close>, \<^verbatim>\<open>usertrap\<close>).
\<close>

inductive smp_step :: "nat \<Rightarrow> smp \<Rightarrow> smp \<Rightarrow> bool" where
  acq_enter: "pcs s h = Idle \<Longrightarrow> smp_step h s (acquire_enter h lk s)"
| acq_swap: "pcs s h = Spinning lk \<Longrightarrow> smp_step h s (acquire_swap h lk s)"
| acq_record: "pcs s h = Taken lk \<Longrightarrow> smp_step h s (acquire_record h lk s)"
| rel_enter: "pcs s h = Idle \<Longrightarrow> smp_step h s (release_enter h lk s)"
| rel_clear: "pcs s h = Clearing lk \<Longrightarrow> smp_step h s (release_clear h lk s)"
| rel_pop: "pcs s h = Popping \<Longrightarrow> smp_step h s (release_pop h s)"
| set_on: "pcs s h = Idle \<Longrightarrow> noff (cpus s h) = 0 \<Longrightarrow> smp_step h s (set_sie h True s)"
| set_off: "pcs s h = Idle \<Longrightarrow> smp_step h s (set_sie h False s)"

inductive_cases smp_stepE: "smp_step h s s'"

definition smp_init :: smp where
  "smp_init = \<lparr>slocks = \<lambda>_. \<lparr>lk_locked = 0, lk_cpu = None\<rparr>, cpus = \<lambda>_. \<lparr>noff = 0, intena = False\<rparr>,
     sie = \<lambda>_. False, pcs = \<lambda>_. Idle\<rparr>"

inductive reachable :: "smp \<Rightarrow> bool" where
  reach_init: "reachable smp_init"
| reach_step: "reachable s \<Longrightarrow> smp_step h s s' \<Longrightarrow> reachable s'"

lemma set_simps [simp]:
  "slocks (set_lock lk f s) = (slocks s)(lk := f (slocks s lk))" "cpus (set_lock lk f s) = cpus s" "sie (set_lock lk f s) = sie s" "pcs (set_lock lk f s) = pcs s"
  "slocks (set_cpu h g s) = slocks s" "cpus (set_cpu h g s) = (cpus s)(h := g (cpus s h))" "sie (set_cpu h g s) = sie s" "pcs (set_cpu h g s) = pcs s"
  "slocks (set_sie h b s) = slocks s" "cpus (set_sie h b s) = cpus s" "sie (set_sie h b s) = (sie s)(h := b)" "pcs (set_sie h b s) = pcs s"
  "slocks (set_pc h p s) = slocks s" "cpus (set_pc h p s) = cpus s" "sie (set_pc h p s) = sie s" "pcs (set_pc h p s) = (pcs s)(h := p)"
  by (simp_all add: set_lock_def set_cpu_def set_sie_def set_pc_def)

lemma push_off_simps [simp]:
  "slocks (push_off h s) = slocks s" "pcs (push_off h s) = pcs s" "sie (push_off h s) = (sie s)(h := False)"
  "noff (cpus (push_off h s) i) = (if i = h then noff (cpus s h) + 1 else noff (cpus s i))"
  by (simp_all add: push_off_def Let_def)

lemma push_off_other: "i \<noteq> h \<Longrightarrow> cpus (push_off h s) i = cpus s i"
  by (simp add: push_off_def Let_def)

lemma pop_off_Inr:
  assumes "pop_off h s = Inr t"
  shows "slocks t = slocks s" "pcs t = pcs s" "noff (cpus t i) = (if i = h then noff (cpus s h) - 1 else noff (cpus s i))"
    "1 \<le> noff (cpus s h)" "i \<noteq> h \<Longrightarrow> sie t i = sie s i" "sie t h \<Longrightarrow> noff (cpus t h) = 0" "\<not> sie s h"
  using assms by (auto simp: pop_off_def Let_def intr_get_def split: if_splits)

lemma holding_cong: "slocks t = slocks s \<Longrightarrow> holding h lk t = holding h lk s"
  by (simp add: holding_def)

section \<open>The invariant\<close>

text \<open>From a successful swap to the clearing store, the lock is the hart's.\<close>

definition owns_lock :: "smp \<Rightarrow> nat \<Rightarrow> lockid \<Rightarrow> bool" where
  "owns_lock s h lk \<longleftrightarrow> lk_cpu (slocks s lk) = Some h \<or> pcs s h = Taken lk \<or> pcs s h = Clearing lk"

definition my_locks :: "nat \<Rightarrow> smp \<Rightarrow> lockid set" where
  "my_locks h s = {lk. lk_cpu (slocks s lk) = Some h}"

definition lock_excl :: "smp \<Rightarrow> bool" where
  "lock_excl s \<longleftrightarrow> (\<forall>lk. (lk_locked (slocks s lk) \<noteq> 0) = (\<exists>h. owns_lock s h lk)) \<and>
     (\<forall>lk h h'. owns_lock s h lk \<longrightarrow> owns_lock s h' lk \<longrightarrow> h = h') \<and>
     (\<forall>lk h. lk_cpu (slocks s lk) = Some h \<longrightarrow> pcs s h \<noteq> Taken lk \<and> pcs s h \<noteq> Clearing lk)"

fun pending :: "pc \<Rightarrow> int" where
  "pending (Spinning _) = 1"
| "pending (Taken _) = 1"
| "pending (Clearing _) = 1"
| "pending Popping = 1"
| "pending _ = 0"

definition off_count :: "smp \<Rightarrow> nat \<Rightarrow> bool" where
  "off_count s h \<longleftrightarrow> finite (my_locks h s) \<and> (0 < noff (cpus s h) \<longrightarrow> \<not> sie s h) \<and>
     ((\<forall>e. pcs s h \<noteq> Stuck e) \<longrightarrow> noff (cpus s h) = int (card (my_locks h s)) + pending (pcs s h)) \<and>
     int (card (my_locks h s)) \<le> noff (cpus s h) \<and> (\<forall>e. pcs s h = Stuck e \<longrightarrow> e = ''acquire'' \<or> e = ''release'')"

lemma lock_excl_same:
  assumes "lock_excl s" "\<And>i l. owns_lock t i l = owns_lock s i l" "\<And>l. (lk_locked (slocks t l) \<noteq> 0) = (lk_locked (slocks s l) \<noteq> 0)"
    and "\<And>l i. lk_cpu (slocks t l) = Some i \<Longrightarrow> pcs t i \<noteq> Taken l \<and> pcs t i \<noteq> Clearing l"
  shows "lock_excl t"
  using assms(1,4) unfolding lock_excl_def assms(2,3) by blast

lemma lock_exclD:
  assumes "lock_excl s"
  shows "lk_locked (slocks s lk) \<noteq> 0 \<longleftrightarrow> (\<exists>h. owns_lock s h lk)" "owns_lock s h lk \<Longrightarrow> owns_lock s i lk \<longleftrightarrow> i = h"
    "lk_cpu (slocks s lk) = Some h \<Longrightarrow> pcs s h \<noteq> Taken lk \<and> pcs s h \<noteq> Clearing lk"
  using assms unfolding lock_excl_def by blast+

lemma lock_excl_local:
  assumes "lock_excl s" "slocks t = slocks s" "pcs t = (pcs s)(h := p)" "\<forall>lk. p \<noteq> Taken lk \<and> p \<noteq> Clearing lk"
    and "\<forall>lk. pcs s h \<noteq> Taken lk \<and> pcs s h \<noteq> Clearing lk"
  shows "lock_excl t"
proof -
  have "owns_lock t i lk = owns_lock s i lk" for i lk using assms(2-5) by (auto simp: owns_lock_def)
  then show ?thesis using assms(1,2,3,4) by (auto simp: lock_excl_def)
qed

lemma lock_excl_swap:
  assumes x: "lock_excl s" and p: "pcs s h = Spinning lk"
  shows "lock_excl (acquire_swap h lk s)"
proof (cases "lk_locked (slocks s lk) = 0")
  case True
  then have no: "\<not> owns_lock s i lk" for i using x unfolding lock_excl_def by blast
  then have n: "pcs s i \<noteq> Taken lk" "pcs s i \<noteq> Clearing lk" "lk_cpu (slocks s lk) \<noteq> Some i" for i
    unfolding owns_lock_def by blast+
  let ?t = "acquire_swap h lk s"
  have "owns_lock ?t i l = (if l = lk then i = h else owns_lock s i l)" for i l
    using True n p by (auto simp: owns_lock_def acquire_swap_def)
  then show ?thesis using x True n p unfolding lock_excl_def by (auto simp: acquire_swap_def)
next
  case False
  let ?t = "acquire_swap h lk s"
  have o: "owns_lock ?t i l = owns_lock s i l" for i l using False by (auto simp: owns_lock_def acquire_swap_def)
  show ?thesis using False lock_exclD(3)[OF x] by (intro lock_excl_same[OF x o]) (auto simp: acquire_swap_def split: if_splits)
qed

lemma lock_excl_record:
  assumes x: "lock_excl s" and p: "pcs s h = Taken lk"
  shows "lock_excl (acquire_record h lk s)"
proof -
  let ?t = "acquire_record h lk s"
  have "owns_lock s h lk" using p by (simp add: owns_lock_def)
  then have u: "owns_lock s i lk \<longleftrightarrow> i = h" for i by (rule lock_exclD(2)[OF x])
  have o: "owns_lock ?t i l = owns_lock s i l" for i l
    using u[of i] p by (auto simp: owns_lock_def acquire_record_def)
  show ?thesis using lock_exclD(3)[OF x] by (intro lock_excl_same[OF x o]) (auto simp: acquire_record_def split: if_splits)
qed

lemma lock_excl_release:
  assumes x: "lock_excl s" and p: "pcs s h = Idle"
  shows "lock_excl (release_enter h lk s)"
proof (cases "holding h lk s")
  case True
  let ?t = "release_enter h lk s"
  have "owns_lock s h lk" using True by (simp add: owns_lock_def holding_def)
  then have u: "owns_lock s i lk \<longleftrightarrow> i = h" for i by (rule lock_exclD(2)[OF x])
  have o: "owns_lock ?t i l = owns_lock s i l" for i l
    using u[of i] p True by (auto simp: owns_lock_def release_enter_def holding_def)
  show ?thesis using True lock_exclD(3)[OF x] by (intro lock_excl_same[OF x o]) (auto simp: release_enter_def split: if_splits)
next
  case False
  then show ?thesis using p by (intro lock_excl_local[OF x, of _ h "Stuck ''release''"]) (simp_all add: release_enter_def)
qed

lemma lock_excl_clear:
  assumes x: "lock_excl s" and p: "pcs s h = Clearing lk"
  shows "lock_excl (release_clear h lk s)"
proof -
  let ?t = "release_clear h lk s"
  have "owns_lock s h lk" using p by (simp add: owns_lock_def)
  then have u: "owns_lock s i lk \<longleftrightarrow> i = h" for i by (rule lock_exclD(2)[OF x])
  have c: "lk_cpu (slocks s lk) = None"
  proof (cases "lk_cpu (slocks s lk)")
    case (Some i)
    then have "i = h" using u[of i] by (simp add: owns_lock_def)
    then show ?thesis using lock_exclD(3)[OF x Some] p by simp
  qed
  have o: "owns_lock ?t i l = (l \<noteq> lk \<and> owns_lock s i l)" for i l
    using u[of i] p c by (auto simp: owns_lock_def release_clear_def)
  show ?thesis using x c unfolding lock_excl_def o by (auto simp: release_clear_def)
qed

lemma lock_excl_step:
  assumes "smp_step h s s'" "lock_excl s"
  shows "lock_excl s'"
  using assms
proof (induction rule: smp_step.induct)
  case (acq_enter s h lk)
  then show ?case
    by (intro lock_excl_local[OF acq_enter(2), of _ h "pcs (acquire_enter h lk s) h"]) (auto simp: acquire_enter_def Let_def)
next
  case (rel_pop s h)
  then show ?case
    by (intro lock_excl_local[OF rel_pop(2), of _ h "pcs (release_pop h s) h"])
       (auto simp: release_pop_def pop_off_Inr split: sum.splits)
next
  case (set_on s h)
  then show ?case by (intro lock_excl_local[OF set_on(3), of _ h Idle]) auto
next
  case (set_off s h)
  then show ?case by (intro lock_excl_local[OF set_off(2), of _ h Idle]) auto
qed (simp_all add: lock_excl_swap lock_excl_record lock_excl_release lock_excl_clear)

lemma off_count_other:
  assumes "off_count s i" "my_locks i t = my_locks i s" "cpus t i = cpus s i" "sie t i = sie s i" "pcs t i = pcs s i"
  shows "off_count t i"
  using assms by (simp add: off_count_def)

lemma off_countD:
  assumes "off_count s h" "\<And>e. pcs s h \<noteq> Stuck e"
  shows "finite (my_locks h s)" "noff (cpus s h) = int (card (my_locks h s)) + pending (pcs s h)"
    "0 < noff (cpus s h) \<Longrightarrow> \<not> sie s h"
  using assms unfolding off_count_def by blast+

lemma off_countI:
  assumes "finite (my_locks h s)" "noff (cpus s h) = int (card (my_locks h s)) + pending (pcs s h)"
    "0 < noff (cpus s h) \<Longrightarrow> \<not> sie s h" "\<And>e. pcs s h \<noteq> Stuck e"
  shows "off_count s h"
proof -
  have "0 \<le> pending (pcs s h)" by (cases "pcs s h") simp_all
  then show ?thesis using assms unfolding off_count_def by auto
qed

lemma off_count_step:
  assumes "smp_step h s s'" "lock_excl s" "\<forall>i. off_count s i"
  shows "off_count s' i"
  using assms
proof (induction rule: smp_step.induct)
  case (acq_enter s h lk)
  have m: "my_locks i (acquire_enter h lk s) = my_locks i s" by (auto simp: my_locks_def acquire_enter_def Let_def)
  show ?case
  proof (cases "i = h")
    case True
    have "off_count s h" using acq_enter by blast
    then have "finite (my_locks h s)" "noff (cpus s h) = int (card (my_locks h s))"
      using off_countD[of s h] acq_enter(1) by simp_all
    moreover have "noff (cpus (acquire_enter h lk s) h) = noff (cpus s h) + 1" "\<not> sie (acquire_enter h lk s) h"
      "pcs (acquire_enter h lk s) h = (if holding h lk (push_off h s) then Stuck ''acquire'' else Spinning lk)"
      by (simp_all add: acquire_enter_def Let_def)
    ultimately show ?thesis using m True unfolding off_count_def by (simp split: if_split)
  next
    case False
    have oc: "off_count s i" using acq_enter(3) by blast
    show ?thesis by (rule off_count_other[OF oc m]) (use False in \<open>simp_all add: acquire_enter_def Let_def push_off_other\<close>)
  qed
next
  case (acq_swap s h lk)
  have m: "my_locks i (acquire_swap h lk s) = my_locks i s" by (auto simp: my_locks_def acquire_swap_def Let_def)
  have "off_count s i" "off_count s h" using acq_swap by blast+
  then show ?case using acq_swap(1) m unfolding off_count_def by (auto simp: acquire_swap_def Let_def)
next
  case (acq_record s h lk)
  let ?t = "acquire_record h lk s"
  have o: "owns_lock s h lk" using acq_record(1) by (simp add: owns_lock_def)
  have n: "lk_cpu (slocks s lk) \<noteq> Some j" for j
    using lock_exclD(2)[OF acq_record(2) o, of j] lock_exclD(3)[OF acq_record(2), of lk j] acq_record(1) by (auto simp: owns_lock_def)
  then have "lk_cpu (slocks s lk) = None" by (metis option.exhaust)
  then have m: "my_locks i ?t = (if i = h then insert lk (my_locks h s) else my_locks i s)" "lk \<notin> my_locks h s"
    by (auto simp: my_locks_def acquire_record_def split: if_splits)
  have "off_count s i" "off_count s h" using acq_record by blast+
  then show ?case using acq_record(1) m unfolding off_count_def by (cases "i = h") (auto simp: acquire_record_def)
next
  case (rel_enter s h lk)
  let ?t = "release_enter h lk s"
  have m: "my_locks i ?t = (if i = h \<and> holding h lk s then my_locks h s - {lk} else my_locks i s)" "holding h lk s \<Longrightarrow> lk \<in> my_locks h s"
    by (auto simp: my_locks_def release_enter_def holding_def split: if_splits)
  have "off_count s i" "off_count s h" using rel_enter by blast+
  moreover have "int (card (my_locks h s - {lk})) + 1 = int (card (my_locks h s))" if "holding h lk s"
  proof -
    have "finite (my_locks h s)" using \<open>off_count s h\<close> by (simp add: off_count_def)
    from card_Suc_Diff1[OF this m(2)[OF that]] show ?thesis by linarith
  qed
  ultimately show ?case using rel_enter(1) m(1) unfolding off_count_def
    by (cases "i = h"; cases "holding h lk s") (auto simp: release_enter_def)
next
  case (rel_clear s h lk)
  have m: "my_locks i (release_clear h lk s) = my_locks i s" by (auto simp: my_locks_def release_clear_def)
  have "off_count s i" "off_count s h" using rel_clear by blast+
  then show ?case using rel_clear(1) m unfolding off_count_def by (auto simp: release_clear_def)
next
  case (rel_pop s h)
  have oc: "off_count s i" "off_count s h" using rel_pop by blast+
  then have "\<not> sie s h" "1 \<le> noff (cpus s h)" using rel_pop(1) by (auto simp: off_count_def)
  then obtain t where t: "pop_off h s = Inr t" by (simp add: pop_off_def intr_get_def Let_def)
  note P = pop_off_Inr[OF t]
  have e: "release_pop h s = set_pc h Idle t" by (simp add: release_pop_def t)
  have m: "my_locks i (set_pc h Idle t) = my_locks i s" by (simp add: my_locks_def P)
  show ?case unfolding e
  proof (cases "i = h")
    case True
    then show "off_count (set_pc h Idle t) i"
      using off_countD[OF oc(2)] rel_pop(1) P(3)[of h] P(6) m by (intro off_countI) auto
  next
    case False
    then show "off_count (set_pc h Idle t) i" using oc(1) m P(2) P(3)[of i] P(5) unfolding off_count_def by simp
  qed
next
  case (set_on s h)
  have "off_count s i" "off_count s h" using set_on by blast+
  then show ?case using set_on(1,2) unfolding off_count_def by (auto simp: my_locks_def)
next
  case (set_off s h)
  have "off_count s i" "off_count s h" using set_off by blast+
  then show ?case using set_off(1) unfolding off_count_def by (auto simp: my_locks_def)
qed

theorem reachable_inv:
  assumes "reachable s"
  shows "lock_excl s \<and> (\<forall>h. off_count s h)"
  using assms
proof induction
  case reach_init
  show ?case by (simp add: smp_init_def lock_excl_def owns_lock_def off_count_def my_locks_def)
next
  case (reach_step s h s')
  then show ?case using lock_excl_step off_count_step by blast
qed

section \<open>The view of one hart\<close>

text \<open>
  The locks a hart holds change only by its own steps: \<open>acquire\<close> adds the lock it was called on
  when it succeeds and panics exactly on a lock the hart has, \<open>release\<close> removes it and panics
  exactly on a lock the hart does not have. This is what \<open>Kernel_State.acquire\<close> and
  \<open>Kernel_State.release\<close> do to \<open>held\<close>.
\<close>

lemma holding_my_locks: "lock_excl s \<Longrightarrow> holding h lk s \<longleftrightarrow> lk \<in> my_locks h s"
  using lock_exclD(1)[of s lk] by (auto simp: holding_def my_locks_def owns_lock_def)

lemma my_locks_step:
  assumes "smp_step h s s'" "lock_excl s" "i \<noteq> h"
  shows "my_locks i s' = my_locks i s"
  using assms
proof (induction rule: smp_step.induct)
  case (acq_record s h lk)
  have o: "owns_lock s h lk" using acq_record(1) by (simp add: owns_lock_def)
  have "lk_cpu (slocks s lk) \<noteq> Some i" using lock_exclD(2)[OF acq_record(2) o, of i] acq_record(3) by (auto simp: owns_lock_def)
  then show ?case using acq_record(3) by (auto simp: my_locks_def acquire_record_def)
next
  case (rel_pop s h)
  then show ?case by (auto simp: my_locks_def release_pop_def pop_off_Inr split: sum.splits)
qed (auto simp: my_locks_def acquire_enter_def acquire_swap_def release_enter_def release_clear_def holding_def Let_def split: if_splits)

lemma acquire_view:
  assumes x: "lock_excl s"
  shows "pcs s h = Idle \<Longrightarrow> my_locks h (acquire_enter h lk s) = my_locks h s"
    "pcs s h = Idle \<Longrightarrow> pcs (acquire_enter h lk s) h = (if lk \<in> my_locks h s then Stuck ''acquire'' else Spinning lk)"
    "pcs s h = Spinning lk \<Longrightarrow> my_locks h (acquire_swap h lk s) = my_locks h s"
    "pcs s h = Taken lk \<Longrightarrow> my_locks h (acquire_record h lk s) = insert lk (my_locks h s)"
    "pcs s h = Idle \<Longrightarrow> my_locks h (release_enter h lk s) = my_locks h s - {lk}"
    "pcs s h = Idle \<Longrightarrow> pcs (release_enter h lk s) h = (if lk \<in> my_locks h s then Clearing lk else Stuck ''release'')"
    "pcs s h = Clearing lk \<Longrightarrow> my_locks h (release_clear h lk s) = my_locks h s"
proof -
  have e: "holding h lk (push_off h s) = holding h lk s" by (rule holding_cong) simp
  show "pcs (acquire_enter h lk s) h = (if lk \<in> my_locks h s then Stuck ''acquire'' else Spinning lk)"
    by (simp add: acquire_enter_def Let_def e holding_my_locks[OF x])
  show "pcs (release_enter h lk s) h = (if lk \<in> my_locks h s then Clearing lk else Stuck ''release'')"
    by (simp add: release_enter_def holding_my_locks[OF x])
  show "my_locks h (release_enter h lk s) = my_locks h s - {lk}"
    using holding_my_locks[OF x, of h lk] by (auto simp: my_locks_def release_enter_def split: if_splits)
qed (auto simp: my_locks_def acquire_enter_def acquire_swap_def acquire_record_def release_clear_def Let_def)

text \<open>An uncontended \<open>acquire\<close> takes three steps of the hart, \<open>release\<close> another three.\<close>

definition acquire_run :: "nat \<Rightarrow> lockid \<Rightarrow> smp \<Rightarrow> smp" where
  "acquire_run h lk s = acquire_record h lk (acquire_swap h lk (acquire_enter h lk s))"

definition release_run :: "nat \<Rightarrow> lockid \<Rightarrow> smp \<Rightarrow> smp" where
  "release_run h lk s = release_pop h (release_clear h lk (release_enter h lk s))"

lemma acquire_run_ok:
  assumes x: "lock_excl s" and p: "pcs s h = Idle" and f: "lk_locked (slocks s lk) = 0"
  shows "pcs (acquire_run h lk s) h = Idle" "my_locks h (acquire_run h lk s) = insert lk (my_locks h s)"
    "smp_step h s (acquire_enter h lk s)" "smp_step h (acquire_enter h lk s) (acquire_swap h lk (acquire_enter h lk s))"
    "smp_step h (acquire_swap h lk (acquire_enter h lk s)) (acquire_run h lk s)"
proof -
  have n: "lk \<notin> my_locks h s" using lock_exclD(1)[OF x, of lk] f by (auto simp: my_locks_def owns_lock_def)
  show 1: "smp_step h s (acquire_enter h lk s)" using p by (rule acq_enter)
  have p1: "pcs (acquire_enter h lk s) h = Spinning lk" using acquire_view(2)[OF x p, of lk] n by simp
  then show "smp_step h (acquire_enter h lk s) (acquire_swap h lk (acquire_enter h lk s))" by (rule acq_swap)
  have "slocks (acquire_enter h lk s) = slocks s" by (simp add: acquire_enter_def Let_def)
  then have p2: "pcs (acquire_swap h lk (acquire_enter h lk s)) h = Taken lk" using f by (simp add: acquire_swap_def)
  then show "smp_step h (acquire_swap h lk (acquire_enter h lk s)) (acquire_run h lk s)"
    unfolding acquire_run_def by (rule acq_record)
  show "pcs (acquire_run h lk s) h = Idle" by (simp add: acquire_run_def acquire_record_def)
  have x1: "lock_excl (acquire_enter h lk s)" by (rule lock_excl_step[OF 1 x])
  have x2: "lock_excl (acquire_swap h lk (acquire_enter h lk s))" by (rule lock_excl_step[OF acq_swap[OF p1] x1])
  show "my_locks h (acquire_run h lk s) = insert lk (my_locks h s)"
    unfolding acquire_run_def using acquire_view(4)[OF x2 p2] acquire_view(3)[OF x1 p1] acquire_view(1)[OF x p, of lk] by simp
qed

lemma reachable_acquire:
  assumes "reachable s" "pcs s h = Idle" "lk_locked (slocks s lk) = 0"
  shows "reachable (acquire_run h lk s)"
  using acquire_run_ok[OF conjunct1[OF reachable_inv[OF assms(1)]] assms(2,3)] assms(1) by (blast intro: reach_step)

lemma owner_off:
  assumes "reachable s" "owns_lock s h lk" "\<And>e. pcs s h \<noteq> Stuck e"
  shows "\<not> sie s h" "0 < noff (cpus s h)"
proof -
  have o: "off_count s h" using reachable_inv[OF assms(1)] by blast
  note D = off_countD[OF o assms(3)]
  show n: "0 < noff (cpus s h)"
  proof (cases "lk_cpu (slocks s lk) = Some h")
    case True
    then have "my_locks h s \<noteq> {}" by (auto simp: my_locks_def)
    then have "0 < card (my_locks h s)" using D(1) by (simp add: card_gt_0_iff)
    moreover have "0 \<le> pending (pcs s h)" by (cases "pcs s h") simp_all
    ultimately show ?thesis using D(2) by linarith
  next
    case False
    then have "pending (pcs s h) = 1" using assms(2) by (auto simp: owns_lock_def)
    then show ?thesis using D(2) by simp
  qed
  then show "\<not> sie s h" by (rule D(3))
qed

section \<open>Nesting of push\_off and pop\_off\<close>

lemma pop_push_off:
  assumes "0 \<le> noff (cpus s h)" "0 < noff (cpus s h) \<Longrightarrow> \<not> sie s h"
  shows "\<exists>t. pop_off h (push_off h s) = Inr t \<and> sie t = sie s \<and> noff (cpus t h) = noff (cpus s h) \<and>
    (0 < noff (cpus s h) \<longrightarrow> t = s)"
proof (cases "noff (cpus s h) = 0")
  case True
  then show ?thesis by (auto simp: pop_off_def push_off_def Let_def intr_get_def set_cpu_def set_sie_def fun_eq_iff)
next
  case False
  then have "\<not> sie s h" using assms by auto
  then show ?thesis using False assms(1)
    by (auto simp: pop_off_def push_off_def Let_def intr_get_def set_cpu_def set_sie_def fun_upd_idem)
qed

end
