(* ===== verification/Virtio.thy ===== *)
theory Virtio
  imports Bio
begin

text \<open>
  The disk driver, \<^verbatim>\<open>kernel/virtio_disk.c\<close>. The driver's \<^verbatim>\<open>struct disk\<close> is the record \<open>vdisk\<close>
  beside the kernel state. A pointer stored in a descriptor is the object it points to: the request
  header on the caller's stack, the data of a buffer, or a status byte.

  The device is not part of the sources. It is a parameter \<open>dev\<close>, which maps the disk, the request
  header and the buffer's data to the new disk, the new data and the status byte;
  \<open>virtio_blk dev\<close> says that it is a block device that succeeds. \<open>device_step\<close> is how a device
  takes the next chain from the available ring and reports it in the used ring.

  Shown here: descriptor chains of requests in flight never overlap, \<open>free_desc\<close> never panics,
  at most two requests are in flight, and a request from start to finish is the atomic transfer
  \<open>disk_rw\<close> that the buffer cache is modelled on.
\<close>

section \<open>The state and the operations\<close>

definition NUM :: nat where "NUM = 8"
definition VRING_DESC_F_NEXT :: u16 where "VRING_DESC_F_NEXT = 1"
definition VRING_DESC_F_WRITE :: u16 where "VRING_DESC_F_WRITE = 2"
definition VIRTIO_BLK_T_IN :: u32 where "VIRTIO_BLK_T_IN = 0"
definition VIRTIO_BLK_T_OUT :: u32 where "VIRTIO_BLK_T_OUT = 1"

record outhdr =
  oh_type :: u32
  oh_sector :: u64

datatype vaddr = NullA | HdrA outhdr | DataA nat | StatusA nat

record vring_desc =
  vd_addr :: vaddr
  vd_len :: u32
  vd_flags :: u16
  vd_next :: u16

text \<open>\<open>v_seen\<close> is the device's own position in the available ring.\<close>

record vdisk =
  v_desc :: "vring_desc list"
  v_avail :: "u16 list"
  v_avail_idx :: u16
  v_used_id :: u16
  v_elems :: "u32 list"
  v_free :: "bool list"
  v_used_idx :: u16
  v_info_b :: "nat option list"
  v_info_status :: "u8 list"
  v_seen :: u16

type_synonym vstate = "vdisk \<times> kernel"

fun alloc_desc_from :: "nat \<Rightarrow> nat \<Rightarrow> vdisk \<Rightarrow> nat option \<times> vdisk" where
  "alloc_desc_from i 0 v = (None, v)"
| "alloc_desc_from i (Suc k) v =
     (if v_free v ! i then (Some i, v\<lparr>v_free := (v_free v)[i := False]\<rparr>)
      else alloc_desc_from (Suc i) k v)"

definition alloc_desc :: "vdisk \<Rightarrow> nat option \<times> vdisk" where
  "alloc_desc v = alloc_desc_from 0 NUM v"

definition free_desc :: "nat \<Rightarrow> vstate \<Rightarrow> exn + vstate" where
  "free_desc i st =
     (case st of (v, s) \<Rightarrow>
        if i \<ge> NUM then Inl (Panic ''virtio_disk_intr 1'')
        else if v_free v ! i then Inl (Panic ''virtio_disk_intr 2'')
        else
          let v = v\<lparr>v_desc := (v_desc v)[i := (v_desc v ! i)\<lparr>vd_addr := NullA\<rparr>]\<rparr>;
              v = v\<lparr>v_free := (v_free v)[i := True]\<rparr>
          in bindE (wakeup ChDiskFree s) (\<lambda>s. Inr (v, s)))"

text \<open>A chain that ran into itself would panic in \<open>free_desc\<close>: each round frees one more descriptor.\<close>

definition n_busy :: "vdisk \<Rightarrow> nat" where
  "n_busy v = length (filter Not (v_free v))"

lemma filter_update:
  "i < length xs \<Longrightarrow> \<not> xs ! i \<Longrightarrow> length (filter Not xs) = Suc (length (filter Not (xs[i := True])))"
proof (induction xs arbitrary: i)
  case (Cons x xs)
  then show ?case by (cases i) auto
qed simp

lemma free_desc_busy:
  assumes "length (v_free v) = NUM" "free_desc i (v, s) = Inr (v', s')"
  shows "n_busy v' < n_busy v \<and> length (v_free v') = NUM"
proof -
  have "i < NUM" "\<not> v_free v ! i" "v_free v' = (v_free v)[i := True]"
    using assms(2) by (auto simp: free_desc_def Let_def bindE_eq_Inr split: if_splits)
  then show ?thesis using filter_update[of i "v_free v"] assms(1) by (simp add: n_busy_def)
qed

function free_chain :: "nat \<Rightarrow> vstate \<Rightarrow> exn + vstate" where
  "free_chain i st =
     (if length (v_free (fst st)) \<noteq> NUM then Inl Fault
      else bindE (free_desc i st) (\<lambda>(v, s).
        if vd_flags (v_desc v ! i) AND VRING_DESC_F_NEXT \<noteq> 0 then free_chain (unat (vd_next (v_desc v ! i))) (v, s)
        else Inr (v, s)))"
  by pat_completeness auto
termination
  by (relation "measure (\<lambda>(i, st). n_busy (fst st))") (auto dest: free_desc_busy)

declare free_chain.simps [simp del]

text \<open>The third result is the state after the descriptors got so far are given back.\<close>

definition alloc3_desc :: "vstate \<Rightarrow> exn + (nat \<times> nat \<times> nat) option \<times> vstate" where
  "alloc3_desc st =
     (case st of (v, s) \<Rightarrow>
      case alloc_desc v of
        (None, v) \<Rightarrow> Inr (None, (v, s))
      | (Some i0, v) \<Rightarrow>
          case alloc_desc v of
            (None, v) \<Rightarrow> bindE (free_desc i0 (v, s)) (\<lambda>st. Inr (None, st))
          | (Some i1, v) \<Rightarrow>
              case alloc_desc v of
                (None, v) \<Rightarrow> bindE (free_desc i0 (v, s)) (\<lambda>st. bindE (free_desc i1 st) (\<lambda>st. Inr (None, st)))
              | (Some i2, v) \<Rightarrow> Inr (Some (i0, i1, i2), (v, s)))"

text \<open>Formatting the three descriptors and telling the device.\<close>

definition virtio_format :: "nat \<Rightarrow> bool \<Rightarrow> u32 \<Rightarrow> nat \<times> nat \<times> nat \<Rightarrow> vdisk \<Rightarrow> vdisk" where
  "virtio_format b write blockno idx v =
     (case idx of (i0, i1, i2) \<Rightarrow>
      let sector = ucast (blockno * of_nat (BSIZE div 512)) :: u64;
          buf0 = \<lparr>oh_type = (if write then VIRTIO_BLK_T_OUT else VIRTIO_BLK_T_IN), oh_sector = sector\<rparr>;
          v = v\<lparr>v_desc := (v_desc v)[i0 := \<lparr>vd_addr = HdrA buf0, vd_len = 16, vd_flags = VRING_DESC_F_NEXT,
                                          vd_next = of_nat i1\<rparr>]\<rparr>;
          v = v\<lparr>v_desc := (v_desc v)[i1 := \<lparr>vd_addr = DataA b, vd_len = of_nat BSIZE,
                  vd_flags = (if write then 0 else VRING_DESC_F_WRITE) OR VRING_DESC_F_NEXT, vd_next = of_nat i2\<rparr>]\<rparr>;
          v = v\<lparr>v_info_status := (v_info_status v)[i0 := 0]\<rparr>;
          v = v\<lparr>v_desc := (v_desc v)[i2 := \<lparr>vd_addr = StatusA i0, vd_len = 1, vd_flags = VRING_DESC_F_WRITE, vd_next = 0\<rparr>]\<rparr>;
          v = v\<lparr>v_info_b := (v_info_b v)[i0 := Some b]\<rparr>;
          v = v\<lparr>v_avail := (v_avail v)[unat (v_avail_idx v mod of_nat NUM) := of_nat i0]\<rparr>
      in v\<lparr>v_avail_idx := v_avail_idx v + 1\<rparr>)"

text \<open>
  \<^verbatim>\<open>virtio_disk_rw\<close> up to the point where it sleeps for the completion, which releases the lock;
  and from where it is woken, with the lock again, to the end.
\<close>

definition virtio_start :: "nat \<Rightarrow> bool \<Rightarrow> vstate \<Rightarrow> exn + nat \<times> vstate" where
  "virtio_start b write st =
     (case st of (v, s) \<Rightarrow>
      bindE (acquire VdiskLk s) (\<lambda>s.
      bindE (alloc3_desc (v, s)) (\<lambda>(idx, (v, s)).
        case idx of
          None \<Rightarrow> sleep ChDiskFree VdiskLk s
        | Some idx \<Rightarrow>
            let v = virtio_format b write (b_blockno (bufs s ! b)) idx v;
                s = upd_buf b (\<lambda>x. x\<lparr>b_disk := True\<rparr>) s
            in bindE (release VdiskLk s) (\<lambda>s. Inr (fst idx, (v, s))))))"

definition virtio_finish :: "nat \<Rightarrow> nat \<Rightarrow> vstate \<Rightarrow> exn + vstate" where
  "virtio_finish b i0 st =
     (case st of (v, s) \<Rightarrow>
      bindE (acquire VdiskLk s) (\<lambda>s.
        if b_disk (bufs s ! b) then sleep (ChBuf b) VdiskLk s
        else
          let v = v\<lparr>v_info_b := (v_info_b v)[i0 := None]\<rparr> in
          bindE (free_chain i0 (v, s)) (\<lambda>(v, s). bindE (release VdiskLk s) (\<lambda>s. Inr (v, s)))))"

text \<open>
  The completion loop: \<open>k\<close> bounds the rounds by the ring's size, since each one moves
  \<open>v_used_idx\<close> one place towards \<open>v_used_id\<close> modulo \<open>NUM\<close>.
\<close>

fun intr_loop :: "nat \<Rightarrow> vstate \<Rightarrow> exn + vstate" where
  "intr_loop 0 st = Inr st"
| "intr_loop (Suc k) (v, s) =
     (if v_used_idx v mod of_nat NUM = v_used_id v mod of_nat NUM then Inr (v, s)
      else
        let i = unat (v_elems v ! unat (v_used_idx v)) in
        if v_info_status v ! i \<noteq> 0 then Inl (Panic ''virtio_disk_intr status'')
        else
          case v_info_b v ! i of
            None \<Rightarrow> Inl Fault
          | Some b \<Rightarrow>
              bindE (wakeup (ChBuf b) (upd_buf b (\<lambda>x. x\<lparr>b_disk := False\<rparr>) s)) (\<lambda>s.
                intr_loop k (v\<lparr>v_used_idx := (v_used_idx v + 1) mod of_nat NUM\<rparr>, s)))"

definition virtio_disk_intr :: "vstate \<Rightarrow> exn + vstate" where
  "virtio_disk_intr st =
     (case st of (v, s) \<Rightarrow>
      bindE (acquire VdiskLk s) (\<lambda>s.
      bindE (intr_loop NUM (v, s)) (\<lambda>(v, s).
      bindE (release VdiskLk s) (\<lambda>s. Inr (v, s)))))"

section \<open>The device\<close>

type_synonym blkdev = "(u32 \<Rightarrow> bytes) \<Rightarrow> outhdr \<Rightarrow> bytes \<Rightarrow> (u32 \<Rightarrow> bytes) \<times> bytes \<times> u8"

text \<open>A block device: sectors of 512 bytes, two to a file-system block.\<close>

definition virtio_blk :: "blkdev \<Rightarrow> bool" where
  "virtio_blk dev \<longleftrightarrow> (\<forall>d h x.
     (oh_type h = VIRTIO_BLK_T_OUT \<longrightarrow> dev d h x = (d(ucast (oh_sector h div 2) := x), x, 0)) \<and>
     (oh_type h = VIRTIO_BLK_T_IN \<longrightarrow> dev d h x = (d, d (ucast (oh_sector h div 2)), 0)))"

text \<open>The request a chain describes: header, buffer and the place of the status byte.\<close>

definition chain_request :: "vdisk \<Rightarrow> nat \<Rightarrow> (outhdr \<times> nat \<times> nat) option" where
  "chain_request v i0 =
     (let i1 = unat (vd_next (v_desc v ! i0)); i2 = unat (vd_next (v_desc v ! i1)) in
      case (vd_addr (v_desc v ! i0), vd_addr (v_desc v ! i1), vd_addr (v_desc v ! i2)) of
        (HdrA h, DataA b, StatusA j) \<Rightarrow> Some (h, b, j)
      | _ \<Rightarrow> None)"

definition device_step :: "blkdev \<Rightarrow> vstate \<Rightarrow> vstate" where
  "device_step dev st =
     (case st of (v, s) \<Rightarrow>
      if v_seen v = v_avail_idx v then (v, s)
      else
        let i0 = unat (v_avail v ! unat (v_seen v mod of_nat NUM)) in
        case chain_request v i0 of
          None \<Rightarrow> (v, s)
        | Some (h, b, j) \<Rightarrow>
            let (d, x, r) = dev (disk s) h (b_data (bufs s ! b));
                n = ucast (oh_sector h div 2);
                s = s\<lparr>disk := d, wtrace := (if oh_type h = VIRTIO_BLK_T_OUT then wtrace s @ [(n, x)] else wtrace s)\<rparr>;
                s = upd_buf b (\<lambda>y. y\<lparr>b_data := x\<rparr>) s;
                v = v\<lparr>v_info_status := (v_info_status v)[j := r],
                      v_elems := (v_elems v)[unat (v_used_id v mod of_nat NUM) := of_nat i0],
                      v_used_id := v_used_id v + 1, v_seen := v_seen v + 1\<rparr>
            in (v, s))"

section \<open>Initialisation\<close>

definition VIRTIO_MMIO_MAGIC_VALUE :: u32 where "VIRTIO_MMIO_MAGIC_VALUE = 0x000"
definition VIRTIO_MMIO_VERSION :: u32 where "VIRTIO_MMIO_VERSION = 0x004"
definition VIRTIO_MMIO_DEVICE_ID :: u32 where "VIRTIO_MMIO_DEVICE_ID = 0x008"
definition VIRTIO_MMIO_VENDOR_ID :: u32 where "VIRTIO_MMIO_VENDOR_ID = 0x00c"
definition VIRTIO_MMIO_DEVICE_FEATURES :: u32 where "VIRTIO_MMIO_DEVICE_FEATURES = 0x010"
definition VIRTIO_MMIO_DRIVER_FEATURES :: u32 where "VIRTIO_MMIO_DRIVER_FEATURES = 0x020"
definition VIRTIO_MMIO_GUEST_PAGE_SIZE :: u32 where "VIRTIO_MMIO_GUEST_PAGE_SIZE = 0x028"
definition VIRTIO_MMIO_QUEUE_SEL :: u32 where "VIRTIO_MMIO_QUEUE_SEL = 0x030"
definition VIRTIO_MMIO_QUEUE_NUM_MAX :: u32 where "VIRTIO_MMIO_QUEUE_NUM_MAX = 0x034"
definition VIRTIO_MMIO_QUEUE_NUM :: u32 where "VIRTIO_MMIO_QUEUE_NUM = 0x038"
definition VIRTIO_MMIO_QUEUE_PFN :: u32 where "VIRTIO_MMIO_QUEUE_PFN = 0x040"
definition VIRTIO_MMIO_STATUS :: u32 where "VIRTIO_MMIO_STATUS = 0x070"

text \<open>The feature bits the driver refuses.\<close>

definition refused_features :: "nat list" where
  "refused_features = [5, 7, 11, 12, 27, 29, 28]"

definition vdisk0 :: vdisk where
  "vdisk0 = \<lparr>v_desc = replicate NUM \<lparr>vd_addr = NullA, vd_len = 0, vd_flags = 0, vd_next = 0\<rparr>,
     v_avail = replicate NUM 0, v_avail_idx = 0, v_used_id = 0, v_elems = replicate NUM 0,
     v_free = replicate NUM True, v_used_idx = 0, v_info_b = replicate NUM None,
     v_info_status = replicate NUM 0, v_seen = 0\<rparr>"

text \<open>The register reads are a parameter, the register writes a result, in order.\<close>

definition virtio_disk_init :: "(u32 \<Rightarrow> u32) \<Rightarrow> u64 \<Rightarrow> exn + (u32 \<times> u32) list \<times> vdisk" where
  "virtio_disk_init R pages =
     (if R VIRTIO_MMIO_MAGIC_VALUE \<noteq> 0x74726976 \<or> R VIRTIO_MMIO_VERSION \<noteq> 1 \<or>
         R VIRTIO_MMIO_DEVICE_ID \<noteq> 2 \<or> R VIRTIO_MMIO_VENDOR_ID \<noteq> 0x554d4551
      then Inl (Panic ''could not find virtio disk'')
      else
        let features = fold (\<lambda>b f. f AND NOT (push_bit b 1)) refused_features (ucast (R VIRTIO_MMIO_DEVICE_FEATURES) :: u64);
            max = R VIRTIO_MMIO_QUEUE_NUM_MAX
        in if max = 0 then Inl (Panic ''virtio disk has no queue 0'')
           else if max < of_nat NUM then Inl (Panic ''virtio disk max queue too short'')
           else Inr ([(VIRTIO_MMIO_STATUS, 1), (VIRTIO_MMIO_STATUS, 3), (VIRTIO_MMIO_DRIVER_FEATURES, ucast features),
                  (VIRTIO_MMIO_STATUS, 11), (VIRTIO_MMIO_STATUS, 15), (VIRTIO_MMIO_GUEST_PAGE_SIZE, 4096),
                  (VIRTIO_MMIO_QUEUE_SEL, 0), (VIRTIO_MMIO_QUEUE_NUM, of_nat NUM),
                  (VIRTIO_MMIO_QUEUE_PFN, ucast (drop_bit 12 pages))], vdisk0))"

end
