(* ===== verification/Virtio_Safety.thy ===== *)
theory Virtio_Safety
  imports Virtio
begin

text \<open>
  The descriptors of the disk driver: the chains of the requests in flight are disjoint and well
  linked, and exactly the other descriptors are free. Every operation of the driver keeps this.
\<close>

section \<open>Chains in flight\<close>

type_synonym chain = "nat \<times> nat \<times> nat"

fun members :: "chain \<Rightarrow> nat list" where
  "members (i0, i1, i2) = [i0, i1, i2]"

fun chain_ok :: "vdisk \<Rightarrow> chain \<Rightarrow> bool" where
  "chain_ok v (i0, i1, i2) \<longleftrightarrow>
     vd_flags (v_desc v ! i0) AND VRING_DESC_F_NEXT \<noteq> 0 \<and> unat (vd_next (v_desc v ! i0)) = i1 \<and>
     vd_flags (v_desc v ! i1) AND VRING_DESC_F_NEXT \<noteq> 0 \<and> unat (vd_next (v_desc v ! i1)) = i2 \<and>
     vd_flags (v_desc v ! i2) AND VRING_DESC_F_NEXT = 0"

definition in_flight :: "chain list \<Rightarrow> nat list" where
  "in_flight cs = concat (map members cs)"

definition vd_inv :: "vdisk \<Rightarrow> chain list \<Rightarrow> bool" where
  "vd_inv v cs \<longleftrightarrow> length (v_desc v) = NUM \<and> length (v_free v) = NUM \<and> distinct (in_flight cs) \<and>
     set (in_flight cs) \<subseteq> {..<NUM} \<and> (\<forall>i<NUM. v_free v ! i \<longleftrightarrow> i \<notin> set (in_flight cs)) \<and> (\<forall>c\<in>set cs. chain_ok v c)"

lemma length_in_flight: "length (in_flight cs) = 3 * length cs"
  by (induction cs) (auto simp: in_flight_def)

text \<open>There is room for two requests.\<close>

lemma two_in_flight:
  assumes "vd_inv v cs"
  shows "length cs \<le> 2"
proof -
  have "card (set (in_flight cs)) = 3 * length cs"
    using assms by (simp add: vd_inv_def distinct_card length_in_flight)
  moreover have "card (set (in_flight cs)) \<le> NUM"
    using assms card_mono[of "{..<NUM}" "set (in_flight cs)"] by (simp add: vd_inv_def)
  ultimately show ?thesis by (simp add: NUM_def)
qed

lemma alloc_desc_from_spec:
  "alloc_desc_from i k v =
     (case find (\<lambda>j. v_free v ! j) [i..<i + k] of None \<Rightarrow> (None, v) | Some j \<Rightarrow> (Some j, v\<lparr>v_free := (v_free v)[j := False]\<rparr>))"
  by (induction k arbitrary: i) (simp_all add: upt_conv_Cons del: upt_Suc)

lemma alloc_desc_cases:
  assumes "length (v_free v) = NUM"
  obtains (full) "alloc_desc v = (None, v)" "\<forall>i<NUM. \<not> v_free v ! i"
    | (got) i where "alloc_desc v = (Some i, v\<lparr>v_free := (v_free v)[i := False]\<rparr>)" "i < NUM" "v_free v ! i"
proof -
  have e: "alloc_desc v = (case find (\<lambda>j. v_free v ! j) [0..<NUM] of None \<Rightarrow> (None, v)
      | Some j \<Rightarrow> (Some j, v\<lparr>v_free := (v_free v)[j := False]\<rparr>))"
    by (simp add: alloc_desc_def alloc_desc_from_spec)
  show ?thesis
  proof (cases "find (\<lambda>j. v_free v ! j) [0..<NUM]")
    case None
    then have "\<forall>i<NUM. \<not> v_free v ! i" by (auto simp: find_None_iff)
    then show ?thesis using full e None by simp
  next
    case (Some i)
    then have "i < NUM" "v_free v ! i" by (auto simp: find_Some_iff)
    then show ?thesis using got e Some by simp
  qed
qed

lemma free_desc_eq:
  assumes "i < NUM" "\<not> v_free v ! i" "no_proc_lock s" "procs_ok s"
  shows "free_desc i (v, s) = Inr (v\<lparr>v_desc := (v_desc v)[i := (v_desc v ! i)\<lparr>vd_addr := NullA\<rparr>],
      v_free := (v_free v)[i := True]\<rparr>, s\<lparr>procs := map (wake1 ChDiskFree) (procs s)\<rparr>)"
  using assms by (simp add: free_desc_def Let_def wakeup_eq)

text \<open>What may happen to the processes while the driver frees descriptors.\<close>

definition woke :: "kernel \<Rightarrow> kernel \<Rightarrow> bool" where
  "woke s s' \<longleftrightarrow> s' = s\<lparr>procs := procs s'\<rparr> \<and> woken (procs s) (procs s')"

lemma woke_refl [simp]: "woke s s"
  by (simp add: woke_def)

lemma woke_trans: "woke s t \<Longrightarrow> woke t u \<Longrightarrow> woke s u"
proof -
  assume a: "woke s t" "woke t u"
  then have t: "t = s\<lparr>procs := procs t\<rparr>" and u: "u = t\<lparr>procs := procs u\<rparr>" by (auto simp: woke_def)
  have "u = s\<lparr>procs := procs u\<rparr>" by (subst u, subst t) simp
  then show ?thesis using a woken_trans by (auto simp: woke_def)
qed

lemma woke_wakeup: "woke s (s\<lparr>procs := map (wake1 ch) (procs s)\<rparr>)"
  by (simp add: woke_def woken_map_wake1)

lemma woke_ctx:
  assumes "woke s t" "no_proc_lock s" "procs_ok s"
  shows "no_proc_lock t" "procs_ok t"
proof -
  have t: "t = s\<lparr>procs := procs t\<rparr>" and w: "woken (procs s) (procs t)" using assms(1) by (auto simp: woke_def)
  show "no_proc_lock t" using assms(2) by (subst t) (simp add: no_proc_lock_def)
  have "curproc t = curproc s" by (subst t) simp
  then show "procs_ok t" using assms(3) woken_length[OF w] by (simp add: procs_ok_def)
qed

section \<open>Allocation and release\<close>

lemma vd_inv_free: "vd_inv v cs \<Longrightarrow> i < NUM \<Longrightarrow> v_free v ! i \<longleftrightarrow> i \<notin> set (in_flight cs)"
  by (simp add: vd_inv_def)

lemma chain_ok_cong:
  assumes "\<forall>i\<in>set (members c). vd_flags (v_desc w ! i) = vd_flags (v_desc v ! i) \<and> vd_next (v_desc w ! i) = vd_next (v_desc v ! i)"
  shows "chain_ok w c = chain_ok v c"
  using assms by (cases c) simp

lemma count_free:
  assumes "vd_inv v cs" "{..<NUM} \<subseteq> set (in_flight cs) \<union> X" "finite X"
  shows "NUM \<le> 3 * length cs + card X"
proof -
  have "NUM \<le> card (set (in_flight cs) \<union> X)" using card_mono[OF _ assms(2)] assms(3) by simp
  also have "\<dots> \<le> card (set (in_flight cs)) + card X" by (rule card_Un_le)
  also have "card (set (in_flight cs)) = 3 * length cs"
    using assms(1) by (simp add: vd_inv_def distinct_card length_in_flight)
  finally show ?thesis .
qed

lemma vd_inv_unused:
  assumes v: "vd_inv v cs" and w: "v_free w = v_free v" "length (v_desc w) = NUM"
    and d: "\<forall>i\<in>set (in_flight cs). v_desc w ! i = v_desc v ! i"
  shows "vd_inv w cs"
proof -
  have "chain_ok w c" if "c \<in> set cs" for c
  proof -
    have "\<forall>i\<in>set (members c). v_desc w ! i = v_desc v ! i" using d that by (auto simp: in_flight_def)
    then show ?thesis using chain_ok_cong[of c w v] v that by (simp add: vd_inv_def)
  qed
  then show ?thesis using v w by (simp add: vd_inv_def)
qed

lemma still_free: "xs[i := False] ! j \<Longrightarrow> j < length xs \<Longrightarrow> j \<noteq> i \<and> xs ! j"
  by (cases "j = i") simp_all

lemma alloc3_ok:
  assumes v: "vd_inv v cs" and s: "no_proc_lock s" "procs_ok s"
  shows "(\<exists>i0 i1 i2. alloc3_desc (v, s) = Inr (Some (i0, i1, i2), (v\<lparr>v_free := (v_free v)[i0 := False, i1 := False, i2 := False]\<rparr>, s)) \<and>
        distinct (in_flight ((i0, i1, i2) # cs)) \<and> {i0, i1, i2} \<subseteq> {..<NUM}) \<or>
    (\<exists>v' s'. alloc3_desc (v, s) = Inr (None, (v', s')) \<and> vd_inv v' cs \<and> woke s s' \<and> length cs = 2)"
proof -
  have le: "length cs \<le> 2" by (rule two_in_flight[OF v])
  have L: "length (v_free v) = NUM" "length (v_desc v) = NUM" using v by (simp_all add: vd_inv_def)
  note F = vd_inv_free[OF v]
  obtain i0 where i0: "alloc_desc v = (Some i0, v\<lparr>v_free := (v_free v)[i0 := False]\<rparr>)" "i0 < NUM" "v_free v ! i0"
  using L(1) proof (cases rule: alloc_desc_cases)
    case full
    then have "{..<NUM} \<subseteq> set (in_flight cs) \<union> {}" using F by auto
    from count_free[OF v this] le show ?thesis by (simp add: NUM_def)
  qed (rule that)
  let ?v1 = "v\<lparr>v_free := (v_free v)[i0 := False]\<rparr>"
  have L1: "length (v_free ?v1) = NUM" using L by simp
  obtain i1 where i1: "alloc_desc ?v1 = (Some i1, v\<lparr>v_free := (v_free v)[i0 := False, i1 := False]\<rparr>)" "i1 < NUM" "v_free v ! i1" "i1 \<noteq> i0"
  using L1 proof (cases rule: alloc_desc_cases)
    case full
    have "x \<in> set (in_flight cs) \<union> {i0}" if x: "x < NUM" for x
    proof (cases "x = i0")
      case False
      then have "\<not> v_free v ! x" using full(2)[rule_format, OF x] by auto
      then show ?thesis using F[OF x] by simp
    qed simp
    then have "{..<NUM} \<subseteq> set (in_flight cs) \<union> {i0}" by blast
    then show ?thesis using count_free[OF v, of "{i0}"] le by (simp add: NUM_def)
  next
    case (got i)
    then have "i \<noteq> i0 \<and> v_free v ! i" using still_free[of "v_free v" i0 i] L by simp
    then show ?thesis using that[of i] got by simp
  qed
  let ?v2 = "v\<lparr>v_free := (v_free v)[i0 := False, i1 := False]\<rparr>"
  have L2: "length (v_free ?v2) = NUM" using L by simp
  show ?thesis
  using L2 proof (cases rule: alloc_desc_cases)
    case (got i2)
    then have "i2 \<noteq> i1 \<and> (v_free v)[i0 := False] ! i2" using still_free[of "(v_free v)[i0 := False]" i1 i2] L by simp
    then have i2: "v_free v ! i2" "i2 \<noteq> i0" "i2 \<noteq> i1" using still_free[of "v_free v" i0 i2] L got(2) by simp_all
    have "distinct (in_flight ((i0, i1, i2) # cs))"
      using v i2 i1 i0 got F[of i0] F[of i1] F[of i2] by (auto simp: in_flight_def vd_inv_def)
    then show ?thesis using i0 i1 got by (intro disjI1 exI[of _ i0] exI[of _ i1] exI[of _ i2]) (simp add: alloc3_desc_def)
  next
    case full
    have "x \<in> set (in_flight cs) \<union> {i0, i1}" if x: "x < NUM" for x
    proof (cases "x = i0 \<or> x = i1")
      case False
      then have "\<not> v_free v ! x" using full(2)[rule_format, OF x] by auto
      then show ?thesis using F[OF x] by simp
    qed auto
    then have "{..<NUM} \<subseteq> set (in_flight cs) \<union> {i0, i1}" by blast
    moreover have "card {i0, i1} = 2" using i1(4) by simp
    ultimately have two: "length cs = 2" using count_free[OF v, of "{i0, i1}"] le by (simp add: NUM_def)
    have b0: "\<not> v_free ?v2 ! i0" using L i0(2) i1(4) by simp
    let ?t = "s\<lparr>procs := map (wake1 ChDiskFree) (procs s)\<rparr>"
    let ?v3 = "?v2\<lparr>v_desc := (v_desc v)[i0 := (v_desc v ! i0)\<lparr>vd_addr := NullA\<rparr>], v_free := (v_free ?v2)[i0 := True]\<rparr>"
    have f0: "free_desc i0 (?v2, s) = Inr (?v3, ?t)" using free_desc_eq[OF i0(2) b0 s] by simp
    have b1: "\<not> v_free ?v3 ! i1" using L i1(2,4) i0(2) by (simp add: nth_list_update)
    note c = woke_ctx[OF woke_wakeup s, of ChDiskFree]
    let ?w = "?v3\<lparr>v_desc := (v_desc ?v3)[i1 := (v_desc ?v3 ! i1)\<lparr>vd_addr := NullA\<rparr>], v_free := (v_free ?v3)[i1 := True]\<rparr>"
    let ?u = "?t\<lparr>procs := map (wake1 ChDiskFree) (procs ?t)\<rparr>"
    have f1: "free_desc i1 (?v3, ?t) = Inr (?w, ?u)" by (rule free_desc_eq[OF i1(2) b1 c])
    have fr: "v_free ?w = v_free v"
    proof (rule nth_equalityI)
      fix j assume "j < length (v_free ?w)"
      then show "v_free ?w ! j = v_free v ! j" using L i0(2,3) i1(2,3,4) by (auto simp: nth_list_update)
    qed (simp add: L)
    have "vd_inv ?w cs"
      using F[of i0] F[of i1] i0(2,3) i1(2,3) L by (intro vd_inv_unused[OF v fr]) (auto simp: nth_list_update)
    moreover have "woke s ?u" by (rule woke_trans[OF woke_wakeup woke_wakeup])
    moreover have "alloc3_desc (v, s) = Inr (None, (?w, ?u))"
      using f0 f1 by (simp add: alloc3_desc_def i0(1) i1(1) full(1))
    ultimately show ?thesis using two by blast
  qed
qed

lemma format_fields:
  "v_free (virtio_format b w n (i0, i1, i2) v) = v_free v"
  "v_desc (virtio_format b w n (i0, i1, i2) v) = (v_desc v)
     [i0 := \<lparr>vd_addr = HdrA \<lparr>oh_type = (if w then VIRTIO_BLK_T_OUT else VIRTIO_BLK_T_IN), oh_sector = ucast (n * of_nat (BSIZE div 512))\<rparr>,
             vd_len = 16, vd_flags = VRING_DESC_F_NEXT, vd_next = of_nat i1\<rparr>,
      i1 := \<lparr>vd_addr = DataA b, vd_len = of_nat BSIZE, vd_flags = (if w then 0 else VRING_DESC_F_WRITE) OR VRING_DESC_F_NEXT, vd_next = of_nat i2\<rparr>,
      i2 := \<lparr>vd_addr = StatusA i0, vd_len = 1, vd_flags = VRING_DESC_F_WRITE, vd_next = 0\<rparr>]"
  "v_info_status (virtio_format b w n (i0, i1, i2) v) = (v_info_status v)[i0 := 0]"
  "v_info_b (virtio_format b w n (i0, i1, i2) v) = (v_info_b v)[i0 := Some b]"
  "v_avail (virtio_format b w n (i0, i1, i2) v) = (v_avail v)[unat (v_avail_idx v mod of_nat NUM) := of_nat i0]"
  "v_avail_idx (virtio_format b w n (i0, i1, i2) v) = v_avail_idx v + 1"
  "v_used_id (virtio_format b w n (i0, i1, i2) v) = v_used_id v" "v_used_idx (virtio_format b w n (i0, i1, i2) v) = v_used_idx v"
  "v_seen (virtio_format b w n (i0, i1, i2) v) = v_seen v" "v_elems (virtio_format b w n (i0, i1, i2) v) = v_elems v"
  by (simp_all add: virtio_format_def Let_def)

lemma small_index: "i < NUM \<Longrightarrow> unat (of_nat i :: u16) = i" "i < NUM \<Longrightarrow> unat (of_nat i :: u32) = i"
  by (simp_all add: NUM_def unat_of_nat)

lemma flag_bits: "VRING_DESC_F_NEXT \<noteq> 0" "VRING_DESC_F_NEXT AND VRING_DESC_F_NEXT \<noteq> 0" "(VRING_DESC_F_WRITE OR VRING_DESC_F_NEXT) AND VRING_DESC_F_NEXT \<noteq> 0"
  "(0 OR VRING_DESC_F_NEXT) AND VRING_DESC_F_NEXT \<noteq> 0" "VRING_DESC_F_WRITE AND VRING_DESC_F_NEXT = 0"
  by (simp_all add: VRING_DESC_F_NEXT_def VRING_DESC_F_WRITE_def)

lemma format_inv:
  assumes v: "vd_inv v cs" and d: "distinct (in_flight ((i0, i1, i2) # cs))" "{i0, i1, i2} \<subseteq> {..<NUM}"
  defines "u \<equiv> v\<lparr>v_free := (v_free v)[i0 := False, i1 := False, i2 := False]\<rparr>"
  shows "vd_inv (virtio_format b w n (i0, i1, i2) u) ((i0, i1, i2) # cs)"
proof -
  let ?f = "virtio_format b w n (i0, i1, i2) u" and ?c = "(i0, i1, i2)"
  have L: "length (v_free v) = NUM" "length (v_desc v) = NUM" using v by (simp_all add: vd_inv_def)
  have lt: "i0 < NUM" "i1 < NUM" "i2 < NUM" using d(2) by simp_all
  have ne: "i0 \<noteq> i1" "i0 \<noteq> i2" "i1 \<noteq> i2" "i0 \<notin> set (in_flight cs)" "i1 \<notin> set (in_flight cs)" "i2 \<notin> set (in_flight cs)"
    using d(1) by (auto simp: in_flight_def)
  have fl: "set (in_flight (?c # cs)) = {i0, i1, i2} \<union> set (in_flight cs)" by (simp add: in_flight_def)
  have free: "v_free ?f ! i \<longleftrightarrow> i \<notin> set (in_flight (?c # cs))" if "i < NUM" for i
    using vd_inv_free[OF v that] L that lt by (auto simp: fl format_fields(1) u_def nth_list_update)
  have old: "chain_ok ?f c" if "c \<in> set cs" for c
  proof -
    have "\<forall>i\<in>set (members c). i \<noteq> i0 \<and> i \<noteq> i1 \<and> i \<noteq> i2" using that ne by (auto simp: in_flight_def)
    moreover have "v_desc ?f ! i = v_desc v ! i" if "i \<noteq> i0 \<and> i \<noteq> i1 \<and> i \<noteq> i2" for i
      using that by (simp add: format_fields(2) u_def)
    ultimately have "chain_ok ?f c = chain_ok v c" by (intro chain_ok_cong ballI) simp
    then show ?thesis using v that by (simp add: vd_inv_def)
  qed
  have new: "chain_ok ?f ?c" using ne lt L by (simp add: format_fields(2) u_def nth_list_update flag_bits small_index)
  show ?thesis unfolding vd_inv_def
    using d L free old new v by (simp add: fl format_fields(1,2) u_def) (simp add: vd_inv_def)
qed

text \<open>Freeing a chain in flight never panics and gives back exactly its three descriptors.\<close>

lemma free_chain_ok:
  assumes v: "vd_inv v (cs @ (i0, i1, i2) # ds)" and s: "no_proc_lock s" "procs_ok s"
  shows "\<exists>v' s'. free_chain i0 (v, s) = Inr (v', s') \<and> vd_inv v' (cs @ ds) \<and> woke s s' \<and>
    v' = v\<lparr>v_desc := v_desc v', v_free := v_free v'\<rparr>"
proof -
  let ?c = "(i0, i1, i2)"
  let ?z = "\<lambda>D i. D[i := (D ! i)\<lparr>vd_addr := NullA\<rparr>]"
  have L: "length (v_free v) = NUM" "length (v_desc v) = NUM" and ok: "chain_ok v ?c" using v by (simp_all add: vd_inv_def)
  have fl: "set (in_flight (cs @ ?c # ds)) = {i0, i1, i2} \<union> set (in_flight (cs @ ds))" by (auto simp: in_flight_def)
  have lt: "i0 < NUM" "i1 < NUM" "i2 < NUM" using v by (auto simp: vd_inv_def fl)
  have di: "distinct (in_flight (cs @ ?c # ds))" using v by (simp add: vd_inv_def)
  then have ne: "i0 \<noteq> i1" "i0 \<noteq> i2" "i1 \<noteq> i2" "i0 \<notin> set (in_flight (cs @ ds))" "i1 \<notin> set (in_flight (cs @ ds))" "i2 \<notin> set (in_flight (cs @ ds))"
    by (auto simp: in_flight_def)
  have b: "\<not> v_free v ! i0" "\<not> v_free v ! i1" "\<not> v_free v ! i2" using vd_inv_free[OF v] lt by (simp_all add: fl)
  define D1 where "D1 = ?z (v_desc v) i0"
  define D2 where "D2 = ?z D1 i1"
  define D3 where "D3 = ?z D2 i2"
  have dl: "vd_flags (D ! i) = vd_flags (v_desc v ! i)" "vd_next (D ! i) = vd_next (v_desc v ! i)" if "D \<in> {D1, D2, D3}" "i < NUM" for D i
    using that L lt by (auto simp: D1_def D2_def D3_def nth_list_update)
  define v1 where "v1 = v\<lparr>v_desc := D1, v_free := (v_free v)[i0 := True]\<rparr>"
  define v2 where "v2 = v1\<lparr>v_desc := D2, v_free := (v_free v1)[i1 := True]\<rparr>"
  define v3 where "v3 = v2\<lparr>v_desc := D3, v_free := (v_free v2)[i2 := True]\<rparr>"
  define s1 where "s1 = s\<lparr>procs := map (wake1 ChDiskFree) (procs s)\<rparr>"
  define s2 where "s2 = s1\<lparr>procs := map (wake1 ChDiskFree) (procs s1)\<rparr>"
  define s3 where "s3 = s2\<lparr>procs := map (wake1 ChDiskFree) (procs s2)\<rparr>"
  have w: "woke s s1" "woke s1 s2" "woke s2 s3" by (simp_all only: s1_def s2_def s3_def woke_wakeup)
  note c1 = woke_ctx[OF w(1) s] and c2 = woke_ctx[OF w(2) woke_ctx[OF w(1) s]]
  have f: "free_desc i0 (v, s) = Inr (v1, s1)" "free_desc i1 (v1, s1) = Inr (v2, s2)" "free_desc i2 (v2, s2) = Inr (v3, s3)"
    using free_desc_eq[OF lt(1) b(1) s] free_desc_eq[OF lt(2) _ c1, of v1] free_desc_eq[OF lt(3) _ c2, of v2] ne b L
    by (simp_all add: v1_def v2_def v3_def D1_def D2_def D3_def s1_def s2_def s3_def)
  have l: "length (v_free v1) = NUM" "length (v_free v2) = NUM" using L by (simp_all add: v1_def v2_def)
  have "free_chain i2 (v2, s2) = Inr (v3, s3)"
    using f(3) ok dl[of D3 i2] lt l by (subst free_chain.simps) (simp add: v3_def)
  then have "free_chain i1 (v1, s1) = Inr (v3, s3)"
    using f(2) ok dl[of D2 i1] lt l by (subst free_chain.simps) (simp add: v2_def)
  then have "free_chain i0 (v, s) = Inr (v3, s3)"
    using f(1) ok dl[of D1 i0] lt L by (subst free_chain.simps) (simp add: v1_def)
  moreover have "vd_inv v3 (cs @ ds)"
  proof -
    have "v_free v3 ! i \<longleftrightarrow> i \<notin> set (in_flight (cs @ ds))" if "i < NUM" for i
      using vd_inv_free[OF v that] ne L lt that by (auto simp: fl v1_def v2_def v3_def nth_list_update)
    moreover have "chain_ok v3 c" if "c \<in> set (cs @ ds)" for c
    proof -
      have "set (members c) \<subseteq> {..<NUM}" using v that by (auto simp: vd_inv_def in_flight_def)
      then have "chain_ok v3 c = chain_ok v c" by (intro chain_ok_cong) (auto simp: v3_def dl)
      then show ?thesis using v that by (auto simp: vd_inv_def)
    qed
    moreover have "distinct (in_flight (cs @ ds))" "set (in_flight (cs @ ds)) \<subseteq> {..<NUM}"
      using v di by (auto simp: vd_inv_def in_flight_def)
    ultimately show ?thesis using L by (simp add: vd_inv_def v1_def v2_def v3_def D1_def D2_def D3_def)
  qed
  moreover have "woke s s3" by (rule woke_trans[OF w(1) woke_trans[OF w(2,3)]])
  moreover have "v3 = v\<lparr>v_desc := v_desc v3, v_free := v_free v3\<rparr>" by (simp add: v1_def v2_def v3_def)
  ultimately show ?thesis by blast
qed

end
