(* ===== verification/Virtio_Transfer.thy ===== *)
theory Virtio_Transfer
  imports Virtio_Safety
begin

text \<open>
  A disk request from \<open>virtio_start\<close> through the device and the interrupt handler to
  \<open>virtio_finish\<close> is the atomic transfer \<open>disk_rw\<close>.
\<close>

definition vdisk_idle :: "vdisk \<Rightarrow> bool" where
  "vdisk_idle v \<longleftrightarrow> vd_inv v [] \<and> length (v_avail v) = NUM \<and> length (v_elems v) = NUM \<and> length (v_info_b v) = NUM \<and>
     length (v_info_status v) = NUM \<and> v_seen v = v_avail_idx v \<and> v_used_idx v = v_used_id v mod of_nat NUM"

lemma vdisk0_idle: "vdisk_idle vdisk0"
  by (simp add: vdisk_idle_def vdisk0_def vd_inv_def in_flight_def)

lemma u16_ring:
  fixes x :: u16
  shows "unat (x mod of_nat NUM) < NUM" "(x + 1) mod of_nat NUM \<noteq> x mod of_nat NUM mod of_nat NUM"
    "(x mod of_nat NUM + 1) mod of_nat NUM mod of_nat NUM = (x + 1) mod of_nat NUM"
    "(x mod of_nat NUM + 1) mod of_nat NUM = (x + 1) mod of_nat NUM" "x mod of_nat NUM mod of_nat NUM = x mod of_nat NUM"
proof -
  have u: "unat (y mod (of_nat NUM :: u16)) = unat y mod 8" for y by (simp add: unat_mod NUM_def)
  have p: "unat (y + 1 :: u16) mod 8 = (unat y + 1) mod 8" for y :: u16
  proof -
    have "unat (y + 1) = (unat y + 1) mod 65536" by (simp add: unat_word_ariths)
    moreover have "(unat y + 1) mod 65536 mod 8 = (unat y + 1) mod 8" by (rule mod_mod_cancel) simp
    ultimately show ?thesis by simp
  qed
  show "unat (x mod of_nat NUM) < NUM" unfolding u by (simp add: NUM_def)
  have "unat ((x + 1) mod of_nat NUM) \<noteq> unat (x mod of_nat NUM mod of_nat NUM)" unfolding u p
  proof -
    have "Suc n mod 8 \<noteq> n mod 8" for n :: nat by (auto simp: mod_Suc)
    from this[of "unat x"] show "(unat x + 1) mod 8 \<noteq> unat x mod 8 mod 8" by simp
  qed
  then show "(x + 1) mod of_nat NUM \<noteq> x mod of_nat NUM mod of_nat NUM" by metis
  show m: "x mod of_nat NUM mod of_nat NUM = x mod of_nat NUM" for x :: u16 by (simp add: word_unat_eq_iff u)
  have "unat ((x mod of_nat NUM + 1) mod of_nat NUM) = unat ((x + 1) mod of_nat NUM)"
    unfolding u p by (simp add: mod_simps)
  then show e: "(x mod of_nat NUM + 1) mod of_nat NUM = (x + 1) mod of_nat NUM" unfolding word_unat_eq_iff .
  show "(x mod of_nat NUM + 1) mod of_nat NUM mod of_nat NUM = (x + 1) mod of_nat NUM" unfolding e m ..
qed

lemma sector_block: "unat (n :: u32) < 2 ^ 31 \<Longrightarrow> ucast ((ucast (n * of_nat (BSIZE div 512)) :: u64) div 2) = n"
proof -
  assume "unat n < 2 ^ 31"
  then have m: "unat (n * 2) = unat n * 2" by (simp add: unat_word_ariths)
  have up: "unat (ucast (y :: u32) :: u64) = unat y" for y
    using unat_less_32[of y] by (simp add: unsigned_ucast_eq take_bit_nat_eq_self)
  have "unat ((ucast (n * 2) :: u64) div 2) = unat n" by (simp add: unat_div up m)
  then have "unat (ucast ((ucast (n * 2) :: u64) div 2) :: u32) = unat n"
    using unat_less_32[of n] by (simp add: unsigned_ucast_eq take_bit_nat_eq_self)
  then show ?thesis by (simp add: word_unat_eq_iff BSIZE_def)
qed

text \<open>Starting a request on an idle disk.\<close>

lemma virtio_start_ok:
  assumes v: "vdisk_idle v" and s: "no_proc_lock s" "procs_ok s" "VdiskLk \<notin> held s"
  shows "\<exists>i0 i1 i2. virtio_start b w (v, s) = Inr (i0, (virtio_format b w (b_blockno (bufs s ! b)) (i0, i1, i2)
        (v\<lparr>v_free := (v_free v)[i0 := False, i1 := False, i2 := False]\<rparr>), upd_buf b (\<lambda>x. x\<lparr>b_disk := True\<rparr>) s)) \<and>
    distinct [i0, i1, i2] \<and> i0 < NUM \<and> i1 < NUM \<and> i2 < NUM"
proof -
  let ?a = "s\<lparr>held := insert VdiskLk (held s)\<rparr>"
  have i: "vd_inv v []" using v by (simp add: vdisk_idle_def)
  have a: "no_proc_lock ?a" "procs_ok ?a" using s by (auto simp: no_proc_lock_def procs_ok_def)
  obtain i0 i1 i2 where A: "alloc3_desc (v, ?a) = Inr (Some (i0, i1, i2), (v\<lparr>v_free := (v_free v)[i0 := False, i1 := False, i2 := False]\<rparr>, ?a))"
    "distinct (in_flight [(i0, i1, i2)])" "{i0, i1, i2} \<subseteq> {..<NUM}" using alloc3_ok[OF i a] by auto
  have "upd_buf b (\<lambda>x. x\<lparr>b_disk := True\<rparr>) ?a = (upd_buf b (\<lambda>x. x\<lparr>b_disk := True\<rparr>) s)\<lparr>held := insert VdiskLk (held s)\<rparr>"
    by (simp add: upd_buf_def)
  then show ?thesis using A s(3) by (intro exI[of _ i0] exI[of _ i1] exI[of _ i2]) (simp add: virtio_start_def in_flight_def)
qed

text \<open>The transfer itself: the new disk and data, as the device is assumed to produce them.\<close>

definition xfer :: "bool \<Rightarrow> nat \<Rightarrow> kernel \<Rightarrow> kernel" where
  "xfer w b s =
     (let n = b_blockno (bufs s ! b); x = b_data (bufs s ! b) in
      if w then s\<lparr>disk := (disk s)(n := x), wtrace := wtrace s @ [(n, x)]\<rparr>
      else upd_buf b (\<lambda>y. y\<lparr>b_data := disk s n\<rparr>) s)"

lemma disk_rw_xfer:
  assumes "VdiskLk \<notin> held s" "b < length (bufs s)"
  shows "disk_rw b w s = Inr (upd_buf b (\<lambda>y. y\<lparr>b_disk := False\<rparr>) (xfer w b s))"
proof -
  have "insert VdiskLk (held s) - {VdiskLk} = held s" using assms(1) by simp
  then show ?thesis using assms by (cases w) (simp_all add: disk_rw_def xfer_def Let_def upd_buf_def)
qed

lemma xfer_upd:
  assumes "b < length (bufs s)"
  shows "xfer w b (upd_buf b (\<lambda>y. y\<lparr>b_disk := q\<rparr>) s) = upd_buf b (\<lambda>y. y\<lparr>b_disk := q\<rparr>) (xfer w b s)"
proof (cases w)
  case True
  then show ?thesis using assms by (simp add: xfer_def Let_def upd_buf_def)
next
  case False
  let ?d = "disk s (b_blockno (bufs s ! b))"
  have "x\<lparr>b_disk := q, b_data := d\<rparr> = x\<lparr>b_data := d, b_disk := q\<rparr>" for x :: buf and d by (cases x) simp
  then have e: "(\<lambda>x :: buf. x\<lparr>b_disk := q, b_data := ?d\<rparr>) = (\<lambda>x. x\<lparr>b_data := ?d, b_disk := q\<rparr>)" by (rule ext)
  have "xfer w b (upd_buf b (\<lambda>y. y\<lparr>b_disk := q\<rparr>) s) = upd_buf b (\<lambda>x. x\<lparr>b_disk := q, b_data := ?d\<rparr>) s"
    using False assms by (simp add: xfer_def Let_def upd_buf_def)
  also have "\<dots> = upd_buf b (\<lambda>y. y\<lparr>b_disk := q\<rparr>) (xfer w b s)"
    unfolding e using False assms by (simp add: xfer_def Let_def upd_buf_def)
  finally show ?thesis .
qed

text \<open>A request in the rings, as the device finds it.\<close>

definition requested :: "nat \<Rightarrow> bool \<Rightarrow> u32 \<Rightarrow> chain \<Rightarrow> vdisk \<Rightarrow> bool" where
  "requested b w n c v \<longleftrightarrow> (case c of (i0, i1, i2) \<Rightarrow>
     chain_request v i0 = Some (\<lparr>oh_type = (if w then VIRTIO_BLK_T_OUT else VIRTIO_BLK_T_IN),
        oh_sector = ucast (n * of_nat (BSIZE div 512))\<rparr>, b, i0) \<and>
     i0 < NUM \<and> v_seen v + 1 = v_avail_idx v \<and> v_avail v ! unat (v_seen v mod of_nat NUM) = of_nat i0)"

lemma format_requested:
  assumes v: "vdisk_idle v" and d: "distinct [i0, i1, i2]" "i0 < NUM" "i1 < NUM" "i2 < NUM"
  shows "requested b w n (i0, i1, i2) (virtio_format b w n (i0, i1, i2) (v\<lparr>v_free := F\<rparr>))"
proof -
  let ?f = "virtio_format b w n (i0, i1, i2) (v\<lparr>v_free := F\<rparr>)"
  have L: "length (v_desc v) = NUM" "length (v_avail v) = NUM" using v by (simp_all add: vdisk_idle_def vd_inv_def)
  have "chain_request ?f i0 = Some (\<lparr>oh_type = (if w then VIRTIO_BLK_T_OUT else VIRTIO_BLK_T_IN),
        oh_sector = ucast (n * of_nat (BSIZE div 512))\<rparr>, b, i0)"
    using d L by (simp add: chain_request_def format_fields(2) nth_list_update small_index)
  then show ?thesis using v d L u16_ring(1)[of "v_avail_idx v"] by (simp add: requested_def format_fields vdisk_idle_def)
qed

lemma device_step_ok:
  assumes dev: "virtio_blk dev" and r: "requested b w n (i0, i1, i2) v" and n: "b_blockno (bufs s ! b) = n" "unat n < 2 ^ 31" "b < length (bufs s)"
  shows "device_step dev (v, s) = (v\<lparr>v_info_status := (v_info_status v)[i0 := 0],
      v_elems := (v_elems v)[unat (v_used_id v mod of_nat NUM) := of_nat i0], v_used_id := v_used_id v + 1, v_seen := v_seen v + 1\<rparr>, xfer w b s)"
proof -
  let ?h = "\<lparr>oh_type = (if w then VIRTIO_BLK_T_OUT else VIRTIO_BLK_T_IN), oh_sector = ucast (n * of_nat (BSIZE div 512)) :: u64\<rparr>"
  have q: "chain_request v i0 = Some (?h, b, i0)" "i0 < NUM" "v_seen v + 1 = v_avail_idx v"
    "v_avail v ! unat (v_seen v mod of_nat NUM) = of_nat i0" using r by (simp_all add: requested_def)
  have ne: "v_seen v \<noteq> v_avail_idx v" unfolding q(3)[symmetric] by simp
  have d: "dev (disk s) ?h (b_data (bufs s ! b)) = (if w then ((disk s)(n := b_data (bufs s ! b)), b_data (bufs s ! b), 0) else (disk s, disk s n, 0))"
    using dev sector_block[OF n(2)] by (auto simp: virtio_blk_def)
  have t: "VIRTIO_BLK_T_IN \<noteq> VIRTIO_BLK_T_OUT" by (simp add: VIRTIO_BLK_T_IN_def VIRTIO_BLK_T_OUT_def)
  show ?thesis using d ne q n(1,3) t small_index[OF q(2)] sector_block[OF n(2)]
    by (cases w) (simp_all add: device_step_def xfer_def Let_def upd_buf_def)
qed

lemma intr_ok:
  assumes v: "v_used_idx v = x mod of_nat NUM" "v_used_id v = x + 1" "v_elems v ! unat (x mod of_nat NUM) = of_nat i0" "i0 < NUM"
    "v_info_status v ! i0 = 0" "v_info_b v ! i0 = Some b" and s: "no_proc_lock s" "procs_ok s" "VdiskLk \<notin> held s"
  shows "\<exists>s'. virtio_disk_intr (v, s) = Inr (v\<lparr>v_used_idx := (x + 1) mod of_nat NUM\<rparr>, s') \<and>
    woke (upd_buf b (\<lambda>y. y\<lparr>b_disk := False\<rparr>) s) s'"
proof -
  let ?a = "s\<lparr>held := insert VdiskLk (held s)\<rparr>" and ?d = "upd_buf b (\<lambda>y. y\<lparr>b_disk := False\<rparr>)"
  let ?w = "\<lambda>s. s\<lparr>procs := map (wake1 (ChBuf b)) (procs s)\<rparr>"
  have w: "wakeup (ChBuf b) (?d ?a) = Inr (?w (?d ?a))"
    using s by (intro wakeup_eq) (auto simp: no_proc_lock_def procs_ok_def upd_buf_def)
  obtain k where N: "NUM = Suc k" by (cases NUM) (simp_all add: NUM_def)
  have stop: "intr_loop j (v\<lparr>v_used_idx := (x + 1) mod of_nat NUM\<rparr>, u) = Inr (v\<lparr>v_used_idx := (x + 1) mod of_nat NUM\<rparr>, u)" for j u
    using v(2) u16_ring(5)[of "x + 1"] by (cases j) simp_all
  have "intr_loop (Suc k) (v, ?a) = Inr (v\<lparr>v_used_idx := (x + 1) mod of_nat NUM\<rparr>, ?w (?d ?a))"
    using v w u16_ring(2)[of x, symmetric] u16_ring(4)[of x] small_index(2)[OF v(4)] stop by (simp del: intr_loop.simps(1) add: Let_def)
  moreover have "release VdiskLk (?w (?d ?a)) = Inr (?w (?d s))"
    using s(3) by (simp add: upd_buf_def)
  ultimately have "virtio_disk_intr (v, s) = Inr (v\<lparr>v_used_idx := (x + 1) mod of_nat NUM\<rparr>, ?w (?d s))"
    using s(3) by (simp add: virtio_disk_intr_def N[symmetric])
  then show ?thesis using woke_wakeup by blast
qed

lemma finish_ok:
  assumes v: "vd_inv v [(i0, i1, i2)]" and s: "no_proc_lock s" "procs_ok s" "VdiskLk \<notin> held s" and d: "\<not> b_disk (bufs s ! b)"
  shows "\<exists>v' s'. virtio_finish b i0 (v, s) = Inr (v', s') \<and> vd_inv v' [] \<and> woke s s' \<and>
    v' = v\<lparr>v_info_b := (v_info_b v)[i0 := None], v_desc := v_desc v', v_free := v_free v'\<rparr>"
proof -
  let ?a = "s\<lparr>held := insert VdiskLk (held s)\<rparr>" and ?u = "v\<lparr>v_info_b := (v_info_b v)[i0 := None]\<rparr>"
  have i: "vd_inv ?u ([] @ (i0, i1, i2) # [])" using v by (simp add: vd_inv_def)
  have a: "no_proc_lock ?a" "procs_ok ?a" using s by (auto simp: no_proc_lock_def procs_ok_def)
  obtain v' t where F: "free_chain i0 (?u, ?a) = Inr (v', t)" "vd_inv v' ([] @ [])" "woke ?a t"
    "v' = ?u\<lparr>v_desc := v_desc v', v_free := v_free v'\<rparr>" using free_chain_ok[OF i a] by blast
  have t: "t = ?a\<lparr>procs := procs t\<rparr>" and w: "woken (procs s) (procs t)" using F(3) by (simp_all add: woke_def)
  let ?s = "t\<lparr>held := held s\<rparr>"
  have h: "held t = insert VdiskLk (held s)" by (subst t) simp
  have "virtio_finish b i0 (v, s) = Inr (v', ?s)" using F(1) s(3) d h by (simp add: virtio_finish_def)
  moreover have "?s = s\<lparr>procs := procs ?s\<rparr>" by (subst t) simp
  then have "woke s ?s" using w by (simp add: woke_def)
  ultimately show ?thesis using F(2,4) by (intro exI[of _ v'] exI[of _ ?s]) simp
qed

lemma woke_bufs: "woke s t \<Longrightarrow> bufs t = bufs s" "woke s t \<Longrightarrow> held t = held s"
proof -
  assume "woke s t"
  then have t: "t = s\<lparr>procs := procs t\<rparr>" by (simp add: woke_def)
  show "bufs t = bufs s" "held t = held s" by (subst t, simp)+
qed

lemma xfer_ctx:
  assumes "no_proc_lock s" "procs_ok s"
  shows "no_proc_lock (upd_buf c f (xfer w b s))" "procs_ok (upd_buf c f (xfer w b s))" "held (upd_buf c f (xfer w b s)) = held s"
    "length (bufs (upd_buf c f (xfer w b s))) = length (bufs s)"
  using assms by (auto simp: xfer_def Let_def upd_buf_def no_proc_lock_def procs_ok_def)

theorem virtio_transfer_ok:
  assumes dev: "virtio_blk dev" and v: "vdisk_idle v" and s: "no_proc_lock s" "procs_ok s" "VdiskLk \<notin> held s"
    and b: "b < length (bufs s)" "unat (b_blockno (bufs s ! b)) < 2 ^ 31"
  shows "\<exists>i0 st1 st2 v' s' t. virtio_start b w (v, s) = Inr (i0, st1) \<and> virtio_disk_intr (device_step dev st1) = Inr st2 \<and>
    virtio_finish b i0 st2 = Inr (v', s') \<and> vdisk_idle v' \<and> disk_rw b w s = Inr t \<and> woke t s'"
proof -
  let ?n = "b_blockno (bufs s ! b)" and ?s1 = "upd_buf b (\<lambda>x. x\<lparr>b_disk := True\<rparr>) s"
  obtain i0 i1 i2 where S: "virtio_start b w (v, s) = Inr (i0, (virtio_format b w ?n (i0, i1, i2)
        (v\<lparr>v_free := (v_free v)[i0 := False, i1 := False, i2 := False]\<rparr>), ?s1))"
    "distinct [i0, i1, i2]" "i0 < NUM" "i1 < NUM" "i2 < NUM" using virtio_start_ok[OF v s] by blast
  define v1 where "v1 = virtio_format b w ?n (i0, i1, i2) (v\<lparr>v_free := (v_free v)[i0 := False, i1 := False, i2 := False]\<rparr>)"
  have V: "vd_inv v []" "length (v_avail v) = NUM" "length (v_elems v) = NUM" "length (v_info_b v) = NUM" "length (v_info_status v) = NUM"
    "v_seen v = v_avail_idx v" "v_used_idx v = v_used_id v mod of_nat NUM" using v by (simp_all add: vdisk_idle_def)
  have I1: "vd_inv v1 [(i0, i1, i2)]" unfolding v1_def
    using S(2-5) by (intro format_inv[OF V(1)]) (simp_all add: in_flight_def)
  have R: "requested b w ?n (i0, i1, i2) v1" unfolding v1_def by (rule format_requested[OF v S(2-5)])
  define v2 where "v2 = v1\<lparr>v_info_status := (v_info_status v1)[i0 := 0],
      v_elems := (v_elems v1)[unat (v_used_id v1 mod of_nat NUM) := of_nat i0], v_used_id := v_used_id v1 + 1, v_seen := v_seen v1 + 1\<rparr>"
  let ?s2 = "upd_buf b (\<lambda>y. y\<lparr>b_disk := True\<rparr>) (xfer w b s)"
  have n1: "b_blockno (bufs ?s1 ! b) = ?n" "b < length (bufs ?s1)" using b(1) by (simp_all add: upd_buf_def)
  have D: "device_step dev (v1, ?s1) = (v2, ?s2)"
    using device_step_ok[OF dev R n1(1) b(2) n1(2)] xfer_upd[OF b(1), of w True] by (simp add: v2_def)
  have f2: "v_used_idx v2 = v_used_id v mod of_nat NUM" "v_used_id v2 = v_used_id v + 1"
    "v_elems v2 ! unat (v_used_id v mod of_nat NUM) = of_nat i0" "v_info_status v2 ! i0 = 0" "v_info_b v2 ! i0 = Some b"
    using V S(3) u16_ring(1)[of "v_used_id v"] by (simp_all add: v2_def v1_def format_fields)
  let ?s3 = "upd_buf b (\<lambda>y. y\<lparr>b_disk := False\<rparr>) ?s2"
  note x2 = xfer_ctx[OF s(1,2), of b "\<lambda>y. y\<lparr>b_disk := True\<rparr>" w b]
  have l2: "VdiskLk \<notin> held ?s2" using x2(3) s(3) by simp
  define v3 where "v3 = v2\<lparr>v_used_idx := (v_used_id v + 1) mod of_nat NUM\<rparr>"
  obtain s3 where T: "virtio_disk_intr (v2, ?s2) = Inr (v3, s3)" "woke ?s3 s3"
    using intr_ok[OF f2(1-3) S(3) f2(4,5) x2(1,2) l2] unfolding v3_def by blast
  have e: "?s3 = upd_buf b (\<lambda>y. y\<lparr>b_disk := False\<rparr>) (xfer w b s)" by simp
  note x3 = xfer_ctx[OF s(1,2), of b "\<lambda>y. y\<lparr>b_disk := False\<rparr>" w b]
  have T2: "woke (upd_buf b (\<lambda>y. y\<lparr>b_disk := False\<rparr>) (xfer w b s)) s3" using T(2) unfolding e .
  have c3: "no_proc_lock s3" "procs_ok s3" "VdiskLk \<notin> held s3" "\<not> b_disk (bufs s3 ! b)"
    using woke_ctx[OF T2 x3(1,2)] woke_bufs[OF T2] x3(3) s(3) b(1) by (simp_all add: upd_buf_def xfer_def Let_def)
  have I3: "vd_inv v3 [(i0, i1, i2)]" using I1 by (simp add: vd_inv_def v3_def v2_def)
  obtain v' s' where F: "virtio_finish b i0 (v3, s3) = Inr (v', s')" "vd_inv v' []" "woke s3 s'"
    "v' = v3\<lparr>v_info_b := (v_info_b v3)[i0 := None], v_desc := v_desc v', v_free := v_free v'\<rparr>"
    using finish_ok[OF I3 c3] by blast
  have "vdisk_idle v'" unfolding vdisk_idle_def
    by (subst (2 3 4 5 6 7 8 9) F(4)) (simp add: F(2) v3_def v2_def v1_def format_fields V)
  then show ?thesis using S(1) D T(1) F(1) disk_rw_xfer[OF s(3) b(1)] woke_trans[OF T2 F(3)] unfolding v1_def[symmetric] by metis
qed

end
