(* ===== verification/Vm_Tables.thy ===== *)
theory Vm_Tables
  imports Vm
begin

text \<open>
  Page tables as trees. \<open>node m pt p\<close> is the table page reached from the root \<open>pt\<close> along the
  indices \<open>p\<close>, \<open>leaf\<close> the entry a three-level walk ends at. On a well-formed table (no page is
  reached along two paths) the routines of \<^verbatim>\<open>vm.c\<close> are updates of the map from virtual pages to
  leaf entries.
\<close>

unbundle bit_operations_syntax

section \<open>Tables as trees\<close>

definition ent :: "bytes \<Rightarrow> u64 \<Rightarrow> nat \<Rightarrow> u64" where
  "ent m a i = load64 m (unat a + 8 * i)"

definition child :: "bytes \<Rightarrow> u64 \<Rightarrow> nat \<Rightarrow> u64 option" where
  "child m a i = (if ent m a i AND PTE_V \<noteq> 0 then Some (PTE2PA (ent m a i)) else None)"

fun node :: "bytes \<Rightarrow> u64 \<Rightarrow> nat list \<Rightarrow> u64 option" where
  "node m pt [] = Some pt"
| "node m pt (i # is) = (case child m pt i of None \<Rightarrow> None | Some a \<Rightarrow> node m a is)"

definition leaf :: "bytes \<Rightarrow> u64 \<Rightarrow> nat list \<Rightarrow> nat \<Rightarrow> u64" where
  "leaf m pt p k = (case node m pt p of None \<Rightarrow> 0 | Some a \<Rightarrow> ent m a k)"

definition paths :: "nat list set" where
  "paths = {p. length p \<le> 2 \<and> set p \<subseteq> {..<512}}"

definition pt_pages :: "bytes \<Rightarrow> u64 \<Rightarrow> u64 set" where
  "pt_pages m pt = {a. \<exists>p\<in>paths. node m pt p = Some a}"

definition pt_ok :: "bytes \<Rightarrow> u64 \<Rightarrow> bool" where
  "pt_ok m pt \<longleftrightarrow> (\<forall>a\<in>pt_pages m pt. page_aligned a \<and> a \<noteq> 0) \<and>
     (\<forall>p\<in>paths. \<forall>q\<in>paths. node m pt p \<noteq> None \<longrightarrow> node m pt p = node m pt q \<longrightarrow> p = q)"

lemma node_snoc: "node m pt (p @ [i]) = (case node m pt p of None \<Rightarrow> None | Some a \<Rightarrow> child m a i)"
  by (induction p arbitrary: pt) (auto split: option.splits)

lemma paths_snocD: "p @ [i] \<in> paths \<Longrightarrow> p \<in> paths \<and> i < 512"
  by (auto simp: paths_def)

lemma pt_pagesI: "p \<in> paths \<Longrightarrow> node m pt p = Some a \<Longrightarrow> a \<in> pt_pages m pt"
  by (auto simp: pt_pages_def)

lemma pt_ok_inj:
  assumes "pt_ok m pt" "p \<in> paths" "q \<in> paths" "node m pt p = Some a" "node m pt q = Some a"
  shows "p = q"
proof -
  have "node m pt p \<noteq> None" "node m pt p = node m pt q" using assms(4,5) by auto
  then show ?thesis using assms(1-3) unfolding pt_ok_def by blast
qed

lemma pt_ok_page: "pt_ok m pt \<Longrightarrow> p \<in> paths \<Longrightarrow> node m pt p = Some a \<Longrightarrow> page_aligned a \<and> a \<noteq> 0"
  using pt_pagesI[of p m pt a] by (auto simp: pt_ok_def)

text \<open>Entries of a page depend on the bytes of that page only.\<close>

lemma ent_cong: "i < 512 \<Longrightarrow> (\<And>x. in_page a x \<Longrightarrow> m' x = m x) \<Longrightarrow> ent m' a i = ent m a i"
  unfolding ent_def by (rule load64_cong) (simp add: in_page_def)

lemma child_cong: "i < 512 \<Longrightarrow> (\<And>x. in_page a x \<Longrightarrow> m' x = m x) \<Longrightarrow> child m' a i = child m a i"
  by (simp add: child_def ent_cong[of i a m' m])

lemma node_cong:
  assumes "\<And>a x. a \<in> pt_pages m pt \<Longrightarrow> in_page a x \<Longrightarrow> m' x = m x" "p \<in> paths"
  shows "node m' pt p = node m pt p"
  using assms(2)
proof (induction p rule: rev_induct)
  case (snoc i p)
  have p: "p \<in> paths" "i < 512" using paths_snocD[OF snoc.prems] by auto
  show ?case
  proof (cases "node m pt p")
    case (Some a)
    then show ?thesis using snoc.IH[OF p(1)] child_cong[OF p(2), of a m' m] assms(1) pt_pagesI[OF p(1) Some]
      by (simp add: node_snoc)
  qed (use snoc.IH[OF p(1)] in \<open>simp add: node_snoc\<close>)
qed simp

lemma pt_cong:
  assumes "\<And>a x. a \<in> pt_pages m pt \<Longrightarrow> in_page a x \<Longrightarrow> m' x = m x"
  shows "pt_pages m' pt = pt_pages m pt" "pt_ok m' pt = pt_ok m pt"
    "p \<in> paths \<Longrightarrow> k < 512 \<Longrightarrow> leaf m' pt p k = leaf m pt p k"
proof -
  have n: "q \<in> paths \<Longrightarrow> node m' pt q = node m pt q" for q by (rule node_cong[OF assms])
  then show pg: "pt_pages m' pt = pt_pages m pt" by (auto simp: pt_pages_def)
  show "pt_ok m' pt = pt_ok m pt" unfolding pt_ok_def pg using n by auto
  show "leaf m' pt p k = leaf m pt p k" if p: "p \<in> paths" "k < 512"
  proof (cases "node m pt p")
    case (Some a)
    have "ent m' a k = ent m a k" by (rule ent_cong[OF p(2)]) (rule assms[OF pt_pagesI[OF p(1) Some]])
    then show ?thesis using Some n[OF p(1)] by (simp add: leaf_def)
  qed (use n[OF p(1)] in \<open>simp add: leaf_def\<close>)
qed

section \<open>Changing one entry\<close>

lemma ent_store:
  assumes "page_aligned a" "page_aligned b" "i < 512" "k < 512"
  shows "ent (store64 m (unat b + 8 * k) v) a i = (if a = b \<and> i = k then v else ent m a i)"
proof (cases "a = b")
  case True
  then show ?thesis by (cases "i < k") (auto simp: ent_def load64_store64_disjoint not_less)
next
  case False
  from page_aligned_disjoint[OF assms(1,2) False] show ?thesis
    using assms(3,4) False by (auto simp: ent_def intro!: load64_store64_disjoint)
qed

lemma child_store:
  assumes "page_aligned a" "page_aligned b" "i < 512" "k < 512" "\<not> (a = b \<and> i = k)"
  shows "child (store64 m (unat b + 8 * k) v) a i = child m a i"
  using ent_store[OF assms(1-4)] assms(5) by (simp add: child_def)

text \<open>Storing a leaf entry.\<close>

lemma store_leaf:
  fixes v :: u64
  assumes ok: "pt_ok m pt" and p: "p \<in> paths" "length p = 2" "node m pt p = Some b" "k < 512"
  defines "m' \<equiv> store64 m (unat b + 8 * k) v"
  shows "q \<in> paths \<Longrightarrow> node m' pt q = node m pt q" "pt_pages m' pt = pt_pages m pt" "pt_ok m' pt"
    "q \<in> paths \<Longrightarrow> j < 512 \<Longrightarrow> leaf m' pt q j = (if q = p \<and> j = k then v else leaf m pt q j)"
proof -
  have b: "page_aligned b" using pt_ok_page[OF ok p(1,3)] by simp
  show n: "node m' pt q = node m pt q" if "q \<in> paths" for q
    using that
  proof (induction q rule: rev_induct)
    case (snoc i q)
    have q: "q \<in> paths" "i < 512" "length q < 2" using paths_snocD[OF snoc.prems] snoc.prems by (auto simp: paths_def)
    show ?case
    proof (cases "node m pt q")
      case (Some a)
      then have "a \<noteq> b" using pt_ok_inj[OF ok q(1) p(1) Some] p(2,3) q(3) by auto
      then show ?thesis using snoc.IH[OF q(1)] Some pt_ok_page[OF ok q(1) Some] b p(4) q(2)
        by (simp add: node_snoc m'_def child_store)
    qed (use snoc.IH[OF q(1)] in \<open>simp add: node_snoc\<close>)
  qed simp
  then show pg: "pt_pages m' pt = pt_pages m pt" by (auto simp: pt_pages_def)
  show "pt_ok m' pt" using ok unfolding pt_ok_def pg using n by auto
  show "leaf m' pt q j = (if q = p \<and> j = k then v else leaf m pt q j)" if q: "q \<in> paths" "j < 512"
  proof (cases "node m pt q")
    case (Some a)
    then have "a = b \<longleftrightarrow> q = p" using pt_ok_inj[OF ok q(1) p(1)] p(3) by auto
    then show ?thesis using Some n[OF q(1)] pt_ok_page[OF ok q(1) Some] b p(4) q(2)
      by (simp add: leaf_def m'_def ent_store)
  qed (use n[OF q(1)] p(3) in \<open>auto simp: leaf_def\<close>)
qed

text \<open>Linking a cleared page \<open>pg\<close> as a new table below the node \<open>b\<close>.\<close>

lemma ent_cleared:
  assumes "page_aligned a" "page_aligned pg" "i < 512"
  shows "ent (memset m (unat pg) 0 PGSIZE) a i = (if a = pg then 0 else ent m a i)"
proof (cases "a = pg")
  case True
  then show ?thesis using assms(3) unfolding ent_def
    by (auto intro!: load64_zero simp: memset_in_page in_page_def)
next
  case False
  have "memset m (unat pg) 0 PGSIZE x = m x" if "in_page a x" for x
    using in_page_unique[OF assms(1,2) that] False by (auto simp: memset_in_page)
  from ent_cong[OF assms(3) this] show ?thesis using False by simp
qed

lemma new_pte: "(PA2PTE pg OR PTE_V) AND PTE_V \<noteq> 0"
  by (simp add: PTE_flag_PA2PTE) (simp add: PTE_V_def)

lemma link_node:
  assumes ok: "pt_ok m pt" and p: "p @ [i] \<in> paths" "node m pt p = Some b" "child m b i = None"
    and pg: "page_aligned pg" "pg \<noteq> 0" "pg \<notin> pt_pages m pt"
  defines "m' \<equiv> store64 (memset m (unat pg) 0 PGSIZE) (unat b + 8 * i) (PA2PTE pg OR PTE_V)"
  shows "q \<in> paths \<Longrightarrow> node m' pt q = (if q = p @ [i] then Some pg else node m pt q)"
    "pt_pages m' pt = insert pg (pt_pages m pt)" "pt_ok m' pt"
    "q \<in> paths \<Longrightarrow> length q = 2 \<Longrightarrow> j < 512 \<Longrightarrow> leaf m' pt q j = leaf m pt q j"
proof -
  have pp: "p \<in> paths" "i < 512" using paths_snocD[OF p(1)] by auto
  have b: "page_aligned b" "b \<noteq> pg" using pt_ok_page[OF ok pp(1) p(2)] pt_pagesI[OF pp(1) p(2)] pg(3) by auto
  have e: "ent m' a j = (if a = b \<and> j = i then PA2PTE pg OR PTE_V else if a = pg then 0 else ent m a j)"
    if "page_aligned a" "j < 512" for a j
    using that pp(2) b pg(1) by (simp add: m'_def ent_store ent_cleared)
  have none: "node m pt (p @ [i]) = None" using p(2,3) by (simp add: node_snoc)
  show n: "node m' pt q = (if q = p @ [i] then Some pg else node m pt q)" if "q \<in> paths" for q
    using that
  proof (induction q rule: rev_induct)
    case (snoc x q)
    have q: "q \<in> paths" "x < 512" using paths_snocD[OF snoc.prems] by auto
    note IH = snoc.IH[OF q(1)]
    show ?case
    proof (cases "q = p @ [i]")
      case True
      then have "q @ [x] \<noteq> p @ [i]" "node m' pt q = Some pg" "node m pt q = None" using IH none by auto
      then show ?thesis using q(2) pg(1) b(2) by (simp add: node_snoc child_def e)
    next
      case False
      show ?thesis
      proof (cases "node m pt q")
        case (Some a)
        have a: "page_aligned a" "a \<noteq> pg" using pt_ok_page[OF ok q(1) Some] pt_pagesI[OF q(1) Some] pg(3) by auto
        have "a = b \<longleftrightarrow> q = p" using pt_ok_inj[OF ok q(1) pp(1) Some] p(2) Some by auto
        then have "child m' a x = (if q = p \<and> x = i then Some pg else child m a x)"
          using a q(2) pg(1) new_pte[of pg] by (simp add: child_def e PTE2PA_PA2PTE)
        then show ?thesis using IH False Some by (simp add: node_snoc)
      qed (use IH False p(2) in \<open>auto simp: node_snoc\<close>)
    qed
  qed simp
  show "pt_pages m' pt = insert pg (pt_pages m pt)"
    unfolding pt_pages_def using n p(1) none by (auto split: if_splits) (metis option.distinct(1))
  then show "pt_ok m' pt" using ok pg n none unfolding pt_ok_def
    by (auto split: if_splits dest: pt_pagesI sym[of "Some pg"])
  show "leaf m' pt q j = leaf m pt q j" if q: "q \<in> paths" "length q = 2" "j < 512"
  proof (cases "q = p @ [i]")
    case True
    then show ?thesis using n[OF q(1)] none pg(1) b(2) q(3) by (simp add: leaf_def e)
  next
    case False
    show ?thesis
    proof (cases "node m pt q")
      case (Some a)
      have a: "page_aligned a" "a \<noteq> pg" using pt_ok_page[OF ok q(1) Some] pt_pagesI[OF q(1) Some] pg(3) by auto
      have "q \<noteq> p" using p(1) q(2) by (auto simp: paths_def)
      then have "a \<noteq> b" using pt_ok_inj[OF ok q(1) pp(1) Some] p(2) by auto
      then show ?thesis using Some n[OF q(1)] False e[OF a(1) q(3)] a(2) by (simp add: leaf_def)
    qed (use n[OF q(1)] False in \<open>simp add: leaf_def\<close>)
  qed
qed

section \<open>walk\<close>

text \<open>The indices of a virtual address and the leaf entry of its page.\<close>

definition tix :: "u64 \<Rightarrow> nat list" where
  "tix va = [unat (PX 2 va), unat (PX 1 va)]"

definition vmap :: "bytes \<Rightarrow> u64 \<Rightarrow> u64 \<Rightarrow> u64" where
  "vmap m pt va = leaf m pt (tix va) (unat (PX 0 va))"

lemma tix_paths [simp]: "tix va \<in> paths" "length (tix va) = 2"
  by (simp_all add: tix_def paths_def)

lemma pte_addr:
  assumes "page_aligned a"
  shows "unat (a + 8 * PX l va) = unat a + 8 * unat (PX l va)"
proof -
  have x: "unat (PX l va) < 512" by simp
  then have "8 * unat (PX l va) < 18446744073709551616" by linarith
  then have e: "unat (8 * PX l va) = 8 * unat (PX l va)" by (simp add: unat_word_ariths)
  have "unat a + 4096 \<le> 18446744073709551616" using page_aligned_less[OF assms] unat_less_64[of a] by simp
  then have "unat a + 8 * unat (PX l va) < 18446744073709551616" using x by linarith
  then show ?thesis by (simp add: unat_word_ariths(1) e)
qed

lemma walk_present:
  "page_aligned a \<Longrightarrow> child (mem s) a (unat (PX (Suc l) va)) = Some b \<Longrightarrow>
     walk_from (Suc l) a va alloc s = walk_from l b va alloc s"
  by (simp add: child_def ent_def pte_addr Let_def split: if_splits)

lemma walk_absent:
  "page_aligned a \<Longrightarrow> child (mem s) a (unat (PX (Suc l) va)) = None \<Longrightarrow> walk_from (Suc l) a va False s = Inr (0, s)"
  by (simp add: child_def ent_def pte_addr Let_def split: if_splits)

lemma child_aligned: "child m a i = Some b \<Longrightarrow> page_aligned b"
  by (auto simp: child_def split: if_splits)

lemma pt_ok_root: "pt_ok m pt \<Longrightarrow> page_aligned pt \<and> pt \<noteq> 0"
  using pt_ok_page[of m pt "[]"] by (simp add: paths_def)

lemma walk_lookup:
  assumes ok: "pt_ok (mem s) pt" and va: "va < MAXVA"
  shows "walk pt va False s =
    Inr (case node (mem s) pt (tix va) of None \<Rightarrow> 0 | Some a \<Rightarrow> a + 8 * PX 0 va, s)"
proof -
  have w: "walk pt va False s = walk_from (Suc (Suc 0)) pt va False s"
    using va by (simp add: walk_def numeral_2_eq_2 not_le[symmetric] del: walk_from.simps)
  have t: "tix va = [unat (PX (Suc (Suc 0)) va), unat (PX (Suc 0) va)]" by (simp add: tix_def numeral_2_eq_2)
  note pt = pt_ok_root[OF ok, THEN conjunct1]
  show ?thesis
  proof (cases "child (mem s) pt (unat (PX (Suc (Suc 0)) va))")
    case None
    then show ?thesis unfolding w t using walk_absent[OF pt None] by simp
  next
    case (Some b)
    note b = child_aligned[OF Some]
    show ?thesis
    proof (cases "child (mem s) b (unat (PX (Suc 0) va))")
      case None
      then show ?thesis unfolding w t walk_present[OF pt Some] using walk_absent[OF b None] Some by simp
    next
      case (Some c)
      then show ?thesis unfolding w t walk_present[OF pt \<open>child (mem s) pt _ = Some b\<close>]
        using walk_present[OF b Some, of False] \<open>child (mem s) pt _ = Some b\<close> by simp
    qed
  qed
qed

text \<open>
  The memory a page table and the allocator share: the table's pages are pages \<open>kalloc\<close> can hand
  out, and none of them is free.
\<close>

definition vm_ok :: "kernel \<Rightarrow> u64 \<Rightarrow> u64 list \<Rightarrow> bool" where
  "vm_ok s pt F \<longleftrightarrow> pt_ok (mem s) pt \<and> free_pages s F \<and> KmemLk \<notin> held s \<and>
     pt_pages (mem s) pt \<inter> set F = {} \<and> (\<forall>a\<in>pt_pages (mem s) pt. kpage s a)"

definition grown :: "kernel \<Rightarrow> u64 \<Rightarrow> u64 list \<Rightarrow> kernel \<Rightarrow> bool" where
  "grown s pt us s' \<longleftrightarrow> pt_pages (mem s') pt = pt_pages (mem s) pt \<union> set us \<and>
     (\<forall>va. vmap (mem s') pt va = vmap (mem s) pt va) \<and>
     (\<forall>a. mem s' a \<noteq> mem s a \<longrightarrow> (\<exists>b\<in>pt_pages (mem s') pt. in_page b a)) \<and>
     s' = s\<lparr>mem := mem s', freelist := freelist s'\<rparr>"

lemma memset_memset: "memset (memset m (unat (p :: u64)) c PGSIZE) (unat p) d PGSIZE = memset m (unat p) d PGSIZE"
  by (simp add: memset_in_page fun_eq_iff)

lemma store_in_page:
  assumes "k < 512" "store64 m (unat b + 8 * k) v x \<noteq> m x"
  shows "in_page b x"
proof -
  have "\<not> (x < unat b + 8 * k \<or> unat b + 8 * k + 8 \<le> x)" using assms(2) store64_other[of x "unat b + 8 * k" m v] by blast
  then show ?thesis using assms(1) unfolding in_page_def by linarith
qed

lemma free_pages_store:
  assumes "free_pages s F" "freelist t = freelist s" "k_end t = k_end s"
    and "page_aligned b" "b \<notin> set F" "k < 512" "mem t = store64 (mem s) (unat b + 8 * k) v"
  shows "free_pages t F"
proof (rule free_pages_frame[OF assms(1-3)])
  fix a assume "mem t a \<noteq> mem s a"
  then have "in_page b a" using store_in_page[OF assms(6)] assms(7) by metis
  then show "\<exists>p. page_aligned p \<and> p \<notin> set F \<and> in_page p a" using assms(4,5) by blast
qed

lemma vm_ok_root: "vm_ok s pt F \<Longrightarrow> pt_ok (mem s) pt"
  by (simp add: vm_ok_def)

lemma grown_refl: "grown s pt [] s"
  by (simp add: grown_def)

lemma grown_trans:
  assumes "grown s pt us t" "grown t pt vs u"
  shows "grown s pt (us @ vs) u"
proof -
  have "\<exists>b\<in>pt_pages (mem u) pt. in_page b a" if "mem u a \<noteq> mem s a" for a
  proof (cases "mem t a = mem s a")
    case True
    then have "mem u a \<noteq> mem t a" using that by simp
    then show ?thesis using assms(2) unfolding grown_def by blast
  next
    case False
    then obtain b where "b \<in> pt_pages (mem t) pt" "in_page b a" using assms(1) unfolding grown_def by blast
    then show ?thesis using assms(2) unfolding grown_def by blast
  qed
  moreover have "u = s\<lparr>mem := mem u, freelist := freelist u\<rparr>"
  proof -
    have t: "t = s\<lparr>mem := mem t, freelist := freelist t\<rparr>" and u: "u = t\<lparr>mem := mem u, freelist := freelist u\<rparr>"
      using assms unfolding grown_def by blast+
    have "t\<lparr>mem := mem u, freelist := freelist u\<rparr> = s\<lparr>mem := mem u, freelist := freelist u\<rparr>"
      by (subst t) simp
    then show ?thesis using u by simp
  qed
  ultimately show ?thesis using assms unfolding grown_def by auto
qed

text \<open>One level of \<open>walk\<close> that has to add a table page.\<close>

lemma walk_alloc_level:
  assumes v: "vm_ok s pt (pg # F)" and p: "p @ [unat (PX (Suc l) va)] \<in> paths" "node (mem s) pt p = Some b"
    "child (mem s) b (unat (PX (Suc l) va)) = None"
  obtains s' where "walk_from (Suc l) b va True s = walk_from l pg va True s'" "vm_ok s' pt F" "grown s pt [pg] s'"
    "node (mem s') pt (p @ [unat (PX (Suc l) va)]) = Some pg"
proof -
  let ?i = "unat (PX (Suc l) va)"
  note V = v[unfolded vm_ok_def]
  have pp: "p \<in> paths" using paths_snocD[OF p(1)] by simp
  have b: "page_aligned b" "b \<in> pt_pages (mem s) pt" using V p pp by (auto intro: pt_pagesI dest: pt_ok_page)
  have pg: "page_aligned pg" "pg \<noteq> 0" "pg \<notin> pt_pages (mem s) pt" "kpage s pg"
    using V by (auto simp: free_pages_def kpage_def)
  let ?m = "store64 (memset (mem s) (unat pg) 0 PGSIZE) (unat b + 8 * ?i) (PA2PTE pg OR PTE_V)"
  let ?s = "s\<lparr>freelist := load64 (mem s) (unat pg), mem := ?m\<rparr>"
  have fp: "free_pages s (pg # F)" and h: "KmemLk \<notin> held s" using V by auto
  have w: "walk_from (Suc l) b va True s = walk_from l pg va True ?s"
    using p(3) pg(2) b(1)
    by (simp add: child_def ent_def pte_addr Let_def kalloc_pop[OF fp h] set_mem_def memset_memset split: if_splits)
  have ok: "pt_ok (mem s) pt" using V by simp
  have pgs: "pt_pages ?m pt = insert pg (pt_pages (mem s) pt)" by (rule link_node(2)[OF ok p pg(1-3)])
  have ok': "pt_ok ?m pt" by (rule link_node(3)[OF ok p pg(1-3)])
  have kp: "kpage ?s = kpage s" by (simp add: kpage_def fun_eq_iff)
  let ?t = "s\<lparr>freelist := load64 (mem s) (unat pg), mem := memset (mem s) (unat pg) 5 PGSIZE\<rparr>"
  have ft: "free_pages ?t F" using kalloc_free_pages[OF fp h kalloc_pop[OF fp h]] by simp
  have "free_pages ?s F"
  proof (rule free_pages_frame[OF ft])
    fix a assume "mem ?s a \<noteq> mem ?t a"
    then have "in_page pg a \<or> in_page b a"
      using store_in_page[of ?i "memset (mem s) (unat pg) 0 PGSIZE" b "PA2PTE pg OR PTE_V" a]
      by (cases "in_page pg a") (auto simp: memset_in_page)
    moreover have "pg \<notin> set F" "b \<notin> set F" using V fp b(2) by (auto simp: free_pages_def)
    ultimately show "\<exists>p. page_aligned p \<and> p \<notin> set F \<and> in_page p a" using pg(1) b(1) by blast
  qed simp_all
  moreover have "pg \<notin> set F" using fp by (simp add: free_pages_def)
  ultimately have v': "vm_ok ?s pt F" using V ok' pgs pg(4) kp unfolding vm_ok_def by auto
  have "vmap ?m pt x = vmap (mem s) pt x" for x
    unfolding vmap_def by (rule link_node(4)[OF ok p pg(1-3)]) simp_all
  moreover have "\<exists>c\<in>pt_pages ?m pt. in_page c a" if "?m a \<noteq> mem s a" for a
    using that store_in_page[of ?i "memset (mem s) (unat pg) 0 PGSIZE" b "PA2PTE pg OR PTE_V" a] b(2)
    unfolding pgs by (cases "in_page pg a") (auto simp: memset_in_page)
  ultimately have "grown s pt [pg] ?s" unfolding grown_def using pgs by auto
  moreover have "node ?m pt (p @ [?i]) = Some pg" using link_node(1)[OF ok p pg(1-3) p(1)] by simp
  ultimately show ?thesis using that[OF w v'] by simp
qed

lemma walk_level:
  assumes v: "vm_ok s pt F" and p: "p @ [unat (PX (Suc l) va)] \<in> paths" "node (mem s) pt p = Some b"
  shows "(F = [] \<and> walk_from (Suc l) b va True s = Inr (0, s)) \<or>
    (\<exists>s' us F' c. walk_from (Suc l) b va True s = walk_from l c va True s' \<and> F = us @ F' \<and> vm_ok s' pt F' \<and>
       grown s pt us s' \<and> node (mem s') pt (p @ [unat (PX (Suc l) va)]) = Some c)"
proof (cases "child (mem s) b (unat (PX (Suc l) va))")
  case (Some c)
  have "page_aligned b" using pt_ok_page[OF vm_ok_root[OF v] _ p(2)] paths_snocD[OF p(1)] by simp
  then have "walk_from (Suc l) b va True s = walk_from l c va True s" by (rule walk_present[OF _ Some])
  moreover have "node (mem s) pt (p @ [unat (PX (Suc l) va)]) = Some c" using p(2) Some by (simp add: node_snoc)
  ultimately show ?thesis using v grown_refl by (metis append_Nil)
next
  case None
  show ?thesis
  proof (cases F)
    case Nil
    have "page_aligned b" using pt_ok_page[OF vm_ok_root[OF v] _ p(2)] paths_snocD[OF p(1)] by simp
    moreover have "kalloc s = Inr (0, s)" using v Nil by (intro kalloc_empty) (auto simp: vm_ok_def)
    ultimately have "walk_from (Suc l) b va True s = Inr (0, s)"
      using None by (simp add: child_def ent_def pte_addr Let_def split: if_splits)
    then show ?thesis using Nil by simp
  next
    case (Cons pg F')
    from v[unfolded Cons] show ?thesis
    proof (rule walk_alloc_level[OF _ p None])
      fix s'
      assume "walk_from (Suc l) b va True s = walk_from l pg va True s'" "vm_ok s' pt F'" "grown s pt [pg] s'"
        "node (mem s') pt (p @ [unat (PX (Suc l) va)]) = Some pg"
      then show ?thesis using Cons by (metis append_Cons append_Nil)
    qed
  qed
qed

lemma walk_alloc:
  assumes v: "vm_ok s pt F" and va: "va < MAXVA"
  shows "\<exists>pte s' us F'. walk pt va True s = Inr (pte, s') \<and> F = us @ F' \<and> vm_ok s' pt F' \<and> grown s pt us s' \<and>
    (if pte = 0 then F' = [] else \<exists>a. node (mem s') pt (tix va) = Some a \<and> pte = a + 8 * PX 0 va)"
proof -
  let ?i = "unat (PX (Suc (Suc 0)) va)" and ?j = "unat (PX (Suc 0) va)"
  have w: "walk pt va True s = walk_from (Suc (Suc 0)) pt va True s"
    using va by (simp add: walk_def numeral_2_eq_2 not_le[symmetric] del: walk_from.simps)
  have t: "tix va = [] @ [?i] @ [?j]" by (simp add: tix_def numeral_2_eq_2)
  have p: "[] @ [?i] \<in> paths" "([] @ [?i]) @ [?j] \<in> paths" by (simp_all add: paths_def)
  have r: "node (mem s) pt [] = Some pt" by simp
  from walk_level[OF v p(1) r] show ?thesis
  proof (elim disjE exE conjE)
    assume "F = []" "walk_from (Suc (Suc 0)) pt va True s = Inr (0, s)"
    then show ?thesis using w v grown_refl by auto
  next
    fix s1 us F1 c
    assume 1: "walk_from (Suc (Suc 0)) pt va True s = walk_from (Suc 0) c va True s1" "F = us @ F1" "vm_ok s1 pt F1"
      "grown s pt us s1" "node (mem s1) pt ([] @ [?i]) = Some c"
    from walk_level[OF 1(3) p(2) 1(5)] show ?thesis
    proof (elim disjE exE conjE)
      assume "F1 = []" "walk_from (Suc 0) c va True s1 = Inr (0, s1)"
      then show ?thesis using w 1 by auto
    next
      fix s2 vs F2 d
      assume 2: "walk_from (Suc 0) c va True s1 = walk_from 0 d va True s2" "F1 = vs @ F2" "vm_ok s2 pt F2"
        "grown s1 pt vs s2" "node (mem s2) pt (([] @ [?i]) @ [?j]) = Some d"
      have d: "page_aligned d" "d \<noteq> 0" using pt_ok_page[OF vm_ok_root[OF 2(3)] p(2) 2(5)] by auto
      then have "unat d \<noteq> 0" by (simp add: unat_eq_0)
      then have nz: "d + 8 * PX 0 va \<noteq> 0" using pte_addr[OF d(1), of 0 va] by (metis add_is_0 unat_eq_0)
      have "walk pt va True s = Inr (d + 8 * PX 0 va, s2)" "F = (us @ vs) @ F2" "node (mem s2) pt (tix va) = Some d"
        using w 1(1,2) 2(1,2,5) t by simp_all
      then show ?thesis using nz 2(3) grown_trans[OF 1(4) 2(4)]
        by (intro exI[of _ "d + 8 * PX 0 va"] exI[of _ s2] exI[of _ "us @ vs"] exI[of _ F2]) simp
    qed
  qed
qed

section \<open>mappages\<close>

lemma same_page_index:
  assumes "va < MAXVA" "vb < MAXVA"
  shows "tix va = tix vb \<and> unat (PX 0 va) = unat (PX 0 vb) \<longleftrightarrow> unat va div 4096 = unat vb div 4096"
proof -
  have e: "v = v div 512 div 512 mod 512 * 512 * 512 + v div 512 mod 512 * 512 + v mod 512" if "v < 67108864" for v :: nat
  proof -
    have "v div 512 div 512 < 512" using that by (simp add: div_mult2_eq[symmetric] less_mult_imp_div_less)
    then have "v div 512 div 512 mod 512 = v div 512 div 512" by (rule mod_less)
    moreover have "v = v div 512 * 512 + v mod 512" "v div 512 = v div 512 div 512 * 512 + v div 512 mod 512" by simp_all
    ultimately show ?thesis by linarith
  qed
  have p: "unat (PX 2 x) = unat x div 4096 div 512 div 512 mod 512" "unat (PX 1 x) = unat x div 4096 div 512 mod 512"
    "unat (PX 0 x) = unat x div 4096 mod 512" for x
    by (simp_all add: unat_PX div_mult2_eq[symmetric])
  have b: "unat x div 4096 < 67108864" if "x < MAXVA" for x
    using that by (simp add: word_less_nat_alt layout_vals less_mult_imp_div_less)
  show ?thesis
  proof
    assume "tix va = tix vb \<and> unat (PX 0 va) = unat (PX 0 vb)"
    then show "unat va div 4096 = unat vb div 4096"
      using e[OF b[OF assms(1)]] e[OF b[OF assms(2)]] unfolding tix_def p by simp
  qed (simp add: tix_def p del: One_nat_def)
qed

text \<open>The state after the entries of a set of pages were written.\<close>

definition mapped :: "kernel \<Rightarrow> u64 \<Rightarrow> u64 list \<Rightarrow> (u64 \<Rightarrow> u64) \<Rightarrow> kernel \<Rightarrow> bool" where
  "mapped s pt us M s' \<longleftrightarrow> pt_pages (mem s') pt = pt_pages (mem s) pt \<union> set us \<and>
     (\<forall>va<MAXVA. vmap (mem s') pt va = M va) \<and>
     (\<forall>a. mem s' a \<noteq> mem s a \<longrightarrow> (\<exists>b\<in>pt_pages (mem s') pt. in_page b a)) \<and>
     s' = s\<lparr>mem := mem s', freelist := freelist s'\<rparr>"

lemma grown_mapped: "grown s pt us s' \<Longrightarrow> mapped s pt us (vmap (mem s) pt) s'"
  unfolding grown_def mapped_def by blast

lemma mapped_cong:
  assumes "mapped s pt us M t" "\<And>va. va < MAXVA \<Longrightarrow> M va = N va"
  shows "mapped s pt us N t"
  using assms(1) unfolding mapped_def by (elim conjE, intro conjI) (assumption | simp add: assms(2))+

lemma mapped_trans:
  assumes "mapped s pt us M t" "mapped t pt vs N u"
  shows "mapped s pt (us @ vs) N u"
proof -
  have "\<exists>b\<in>pt_pages (mem u) pt. in_page b a" if "mem u a \<noteq> mem s a" for a
  proof (cases "mem t a = mem s a")
    case True
    then have "mem u a \<noteq> mem t a" using that by simp
    then show ?thesis using assms(2) unfolding mapped_def by blast
  next
    case False
    then obtain b where "b \<in> pt_pages (mem t) pt" "in_page b a" using assms(1) unfolding mapped_def by blast
    then show ?thesis using assms(2) unfolding mapped_def by blast
  qed
  moreover have "u = s\<lparr>mem := mem u, freelist := freelist u\<rparr>"
  proof -
    have t: "t = s\<lparr>mem := mem t, freelist := freelist t\<rparr>" and u: "u = t\<lparr>mem := mem u, freelist := freelist u\<rparr>"
      using assms unfolding mapped_def by blast+
    have "t\<lparr>mem := mem u, freelist := freelist u\<rparr> = s\<lparr>mem := mem u, freelist := freelist u\<rparr>"
      by (subst t) simp
    then show ?thesis using u by simp
  qed
  ultimately show ?thesis using assms unfolding mapped_def by auto
qed

lemma store_pte:
  fixes e :: u64
  assumes v: "vm_ok s pt F" and n: "node (mem s) pt (tix va) = Some a" and va: "va < MAXVA"
  defines "t \<equiv> set_mem (\<lambda>m. store64 m (unat (a + 8 * PX 0 va)) e) s"
  shows "vm_ok t pt F" "mapped s pt [] (\<lambda>vb. if unat vb div 4096 = unat va div 4096 then e else vmap (mem s) pt vb) t"
proof -
  let ?k = "unat (PX 0 va)"
  note V = v[unfolded vm_ok_def]
  have ok: "pt_ok (mem s) pt" using V by simp
  have a: "page_aligned a" "a \<in> pt_pages (mem s) pt" using pt_ok_page[OF ok _ n] pt_pagesI[OF _ n] by auto
  have mt: "mem t = store64 (mem s) (unat a + 8 * ?k) e" by (simp add: t_def set_mem_def pte_addr[OF a(1)])
  note L = store_leaf[where v = e and k = "unat (PX 0 va)", OF ok tix_paths n PX_less, folded mt]
  have f: "freelist t = freelist s" "k_end t = k_end s" "held t = held s" by (simp_all add: t_def set_mem_def)
  have "free_pages t F" by (rule free_pages_store[OF _ f(1,2) a(1) _ PX_less mt]) (use V a(2) in auto)
  moreover have "kpage t = kpage s" by (simp add: kpage_def f fun_eq_iff)
  ultimately show "vm_ok t pt F" unfolding vm_ok_def using V L(2,3) f by simp
  have "vmap (mem t) pt vb = (if unat vb div 4096 = unat va div 4096 then e else vmap (mem s) pt vb)" if "vb < MAXVA" for vb
    unfolding vmap_def L(4)[OF tix_paths(1) PX_less] using same_page_index[OF that va] by auto
  moreover have "in_page a x" if "mem t x \<noteq> mem s x" for x
    using store_in_page[OF PX_less] that unfolding mt by metis
  moreover have "t = s\<lparr>mem := mem t, freelist := freelist t\<rparr>" by (simp add: t_def set_mem_def)
  ultimately show "mapped s pt [] (\<lambda>vb. if unat vb div 4096 = unat va div 4096 then e else vmap (mem s) pt vb) t"
    unfolding mapped_def using L(2) a(2) by auto
qed

text \<open>
  \<open>mapped_range\<close>: the map after \<open>j\<close> pages from \<open>a\<close> on were mapped to the frames from \<open>pa\<close> on.
\<close>

definition mapped_range :: "u64 \<Rightarrow> u64 \<Rightarrow> u64 \<Rightarrow> nat \<Rightarrow> (u64 \<Rightarrow> u64) \<Rightarrow> u64 \<Rightarrow> u64" where
  "mapped_range a pa perm j M va =
     (if unat a div 4096 \<le> unat va div 4096 \<and> unat va div 4096 < unat a div 4096 + j
      then PA2PTE (pa + 4096 * of_nat (unat va div 4096 - unat a div 4096)) OR perm OR PTE_V else M va)"

lemma mapped_range_0 [simp]: "mapped_range a pa perm 0 M = M"
  by (auto simp: mapped_range_def fun_eq_iff)

lemma mapped_vmap: "mapped s pt us M t \<Longrightarrow> va < MAXVA \<Longrightarrow> vmap (mem t) pt va = M va"
  by (simp add: mapped_def)

lemma mappages_step:
  assumes v: "vm_ok s pt F" and a: "a < MAXVA" and u: "vmap (mem s) pt a AND PTE_V = 0"
  shows "(\<exists>s' us. mappages_from pt a lst pa perm s = Inr (-1, s') \<and> F = us \<and> vm_ok s' pt [] \<and>
            mapped s pt us (vmap (mem s) pt) s') \<or>
    (\<exists>s' us F'. mappages_from pt a lst pa perm s =
         (if a = lst then Inr (0, s') else mappages_from pt (a + 4096) lst (pa + 4096) perm s') \<and>
       F = us @ F' \<and> vm_ok s' pt F' \<and> mapped s pt us (mapped_range a pa perm 1 (vmap (mem s) pt)) s')"
proof -
  obtain pte s1 us F' where w: "walk pt a True s = Inr (pte, s1)" "F = us @ F'" "vm_ok s1 pt F'" "grown s pt us s1"
    "if pte = 0 then F' = [] else \<exists>b. node (mem s1) pt (tix a) = Some b \<and> pte = b + 8 * PX 0 a"
    using walk_alloc[OF v a] by blast
  show ?thesis
  proof (cases "pte = 0")
    case True
    then have "mappages_from pt a lst pa perm s = Inr (-1, s1)" by (subst mappages_from.simps) (simp add: w(1))
    then show ?thesis using True w(2,3,5) grown_mapped[OF w(4)] by auto
  next
    case False
    then obtain b where b: "node (mem s1) pt (tix a) = Some b" "pte = b + 8 * PX 0 a" using w(5) by auto
    let ?e = "PA2PTE pa OR perm OR PTE_V" and ?t = "set_mem (\<lambda>m. store64 m (unat pte) (PA2PTE pa OR perm OR PTE_V)) s1"
    have "page_aligned b" using pt_ok_page[OF vm_ok_root[OF w(3)] tix_paths(1) b(1)] by simp
    then have "load64 (mem s1) (unat pte) = vmap (mem s1) pt a"
      by (simp add: vmap_def leaf_def b ent_def pte_addr)
    then have z: "load64 (mem s1) (unat pte) AND PTE_V = 0" using u w(4) by (simp add: grown_def)
    have m: "mappages_from pt a lst pa perm s =
        (if a = lst then Inr (0, ?t) else mappages_from pt (a + 4096) lst (pa + 4096) perm ?t)"
      using False z by (subst mappages_from.simps) (simp add: w(1) Let_def)
    note S = store_pte[where e = ?e, OF w(3) b(1) a, folded b(2)]
    have "mapped s pt us (mapped_range a pa perm 1 (vmap (mem s) pt)) ?t"
    proof -
      have "(\<lambda>vb. if unat vb div 4096 = unat a div 4096 then ?e else vmap (mem s1) pt vb) =
          mapped_range a pa perm 1 (vmap (mem s) pt)"
        using w(4) by (auto simp: mapped_range_def grown_def fun_eq_iff)
      then show ?thesis using mapped_trans[OF grown_mapped[OF w(4)] S(2)] by simp
    qed
    then show ?thesis using m w(2) S(1) by blast
  qed
qed

lemma mappages_loop:
  assumes "vm_ok s pt F" "page_aligned a" "unat a + 4096 * n < 2 ^ 38"
    and "\<forall>va<MAXVA. unat a div 4096 \<le> unat va div 4096 \<and> unat va div 4096 \<le> unat a div 4096 + n \<longrightarrow>
      vmap (mem s) pt va AND PTE_V = 0"
  shows "\<exists>r s' us F' j. mappages_from pt a (a + 4096 * of_nat n) pa perm s = Inr (r, s') \<and> F = us @ F' \<and> vm_ok s' pt F' \<and>
    mapped s pt us (mapped_range a pa perm j (vmap (mem s) pt)) s' \<and> (r = 0 \<and> j = Suc n \<or> r = -1 \<and> j \<le> n \<and> F' = [])"
  using assms
proof (induction n arbitrary: s F a pa)
  case 0
  have a: "a < MAXVA" using "0.prems"(3) by (simp add: word_less_nat_alt layout_vals)
  then have "vmap (mem s) pt a AND PTE_V = 0" using "0.prems"(4) by auto
  from mappages_step[OF "0.prems"(1) a this, of a pa perm] show ?case
  proof (elim disjE exE conjE)
    fix s' us assume "mappages_from pt a a pa perm s = Inr (- 1, s')" "F = us" "vm_ok s' pt []"
      "mapped s pt us (vmap (mem s) pt) s'"
    then show ?thesis by (intro exI[of _ "-1"] exI[of _ s'] exI[of _ us] exI[of _ "[]"] exI[of _ 0]) simp
  qed auto
next
  case (Suc n)
  have lt: "unat a + 4096 * Suc n < 274877906944" using Suc.prems(3) by simp
  have a: "a < MAXVA" using lt by (simp add: word_less_nat_alt layout_vals)
  let ?b = "a + 4096" and ?l = "a + 4096 * of_nat (Suc n)"
  have b: "page_aligned ?b" "unat ?b = unat a + 4096" using page_aligned_add[OF Suc.prems(2)] lt by auto
  have dv: "unat ?b div 4096 = Suc (unat a div 4096)" by (simp add: b(2))
  have l: "?l = ?b + 4096 * of_nat n" by (simp add: algebra_simps)
  have ul: "unat (4096 * of_nat (Suc n) :: u64) = 4096 * Suc n"
    using lt by (simp add: unat_word_ariths unat_of_nat mod_less del: of_nat_Suc)
  have ne: "a \<noteq> ?l" using ul by (metis add_cancel_right_right mult_is_0 nat.distinct(1) unat_0 zero_neq_numeral)
  have "vmap (mem s) pt a AND PTE_V = 0" using Suc.prems(4) a by auto
  from mappages_step[OF Suc.prems(1) a this, of ?l pa perm] show ?case
  proof (elim disjE exE conjE)
    fix s' us assume "mappages_from pt a ?l pa perm s = Inr (- 1, s')" "F = us" "vm_ok s' pt []"
      "mapped s pt us (vmap (mem s) pt) s'"
    then show ?thesis by (intro exI[of _ "-1"] exI[of _ s'] exI[of _ us] exI[of _ "[]"] exI[of _ 0]) simp
  next
    fix t us F1
    assume t: "mappages_from pt a ?l pa perm s = (if a = ?l then Inr (0, t) else mappages_from pt ?b ?l (pa + 4096) perm t)"
      "F = us @ F1" "vm_ok t pt F1" "mapped s pt us (mapped_range a pa perm 1 (vmap (mem s) pt)) t"
    have "vmap (mem t) pt va AND PTE_V = 0"
      if "va < MAXVA" "unat ?b div 4096 \<le> unat va div 4096 \<and> unat va div 4096 \<le> unat ?b div 4096 + n" for va
      using Suc.prems(4) that unfolding mapped_vmap[OF t(4) that(1)] dv by (simp add: mapped_range_def)
    then obtain r u vs F2 j where u: "mappages_from pt ?b ?l (pa + 4096) perm t = Inr (r, u)" "F1 = vs @ F2" "vm_ok u pt F2"
      "mapped t pt vs (mapped_range ?b (pa + 4096) perm j (vmap (mem t) pt)) u" "r = 0 \<and> j = Suc n \<or> r = -1 \<and> j \<le> n \<and> F2 = []"
      using Suc.IH[OF t(3) b(1), of "pa + 4096"] lt b(2) unfolding l by auto
    have "mapped_range ?b (pa + 4096) perm j (vmap (mem t) pt) va = mapped_range a pa perm (Suc j) (vmap (mem s) pt) va"
      if "va < MAXVA" for va
    proof (cases "unat va div 4096 = unat a div 4096")
      case False
      then show ?thesis unfolding mapped_range_def mapped_vmap[OF t(4) that] dv
        by (auto simp: mapped_range_def algebra_simps of_nat_diff)
    qed (simp add: mapped_range_def mapped_vmap[OF t(4) that] dv)
    with mapped_trans[OF t(4) u(4)] have "mapped s pt (us @ vs) (mapped_range a pa perm (Suc j) (vmap (mem s) pt)) u"
      by (rule mapped_cong)
    then show ?thesis using t(1,2) u(1-3,5) ne
      by (intro exI[of _ r] exI[of _ u] exI[of _ "us @ vs"] exI[of _ F2] exI[of _ "Suc j"]) auto
  qed
qed

end
