(* ===== verification/Vm_User.thy ===== *)
theory Vm_User
  imports Vm_Tables
begin

text \<open>
  User memory through a page table: \<open>uread\<close> is the byte at a virtual address. \<open>copyout\<close> and
  \<open>copyin\<close> write and read exactly these bytes, page by page.
\<close>

unbundle bit_operations_syntax

section \<open>mappages and remapping\<close>

lemma PGROUNDDOWN_le: "unat (PGROUNDDOWN a) \<le> unat a" "unat (PGROUNDDOWN a) div 4096 = unat a div 4096"
  by (simp_all add: unat_PGROUNDDOWN)

text \<open>The number of pages that \<open>[va, va + sz)\<close> touches, minus one.\<close>

definition more_pages :: "u64 \<Rightarrow> u64 \<Rightarrow> nat" where
  "more_pages va sz = (unat va + unat sz - 1) div 4096 - unat va div 4096"

lemma mappages_ok:
  assumes v: "vm_ok s pt F" and sz: "0 < unat sz" "unat va + unat sz \<le> 2 ^ 38"
    and free: "\<forall>vb<MAXVA. unat va div 4096 \<le> unat vb div 4096 \<and> unat vb div 4096 \<le> unat va div 4096 + more_pages va sz \<longrightarrow>
      vmap (mem s) pt vb AND PTE_V = 0"
  shows "\<exists>r s' us F' j. mappages pt va sz pa perm s = Inr (r, s') \<and> F = us @ F' \<and> vm_ok s' pt F' \<and>
    mapped s pt us (mapped_range va pa perm j (vmap (mem s) pt)) s' \<and>
    (r = 0 \<and> j = Suc (more_pages va sz) \<or> r = -1 \<and> j \<le> more_pages va sz \<and> F' = [])"
proof -
  let ?a = "PGROUNDDOWN va" and ?n = "more_pages va sz"
  have sz': "unat va + unat sz \<le> 274877906944" using sz(2) by simp
  have u: "unat (va + sz - 1) = unat va + unat sz - 1"
  proof -
    have "unat (va + sz) = unat va + unat sz" using sz' by (simp add: unat_word_ariths)
    then show ?thesis using sz(1) by (subst unat_sub_if') (auto simp: word_le_nat_alt)
  qed
  have le: "unat va div 4096 \<le> (unat va + unat sz - 1) div 4096" using sz(1) by (intro div_le_mono) simp
  then have n: "unat va div 4096 + ?n = (unat va + unat sz - 1) div 4096" by (simp add: more_pages_def)
  have m: "(unat va + unat sz - 1) div 4096 * 4096 \<le> unat va + unat sz - 1" by (rule div_times_less_eq_dividend)
  have an: "unat ?a + 4096 * ?n = (unat va + unat sz - 1) div 4096 * 4096"
    unfolding n[symmetric] unat_PGROUNDDOWN by simp
  have lt: "unat ?a + 4096 * ?n < 274877906944" using an m sz' sz(1) by linarith
  have "unat (?a + 4096 * of_nat ?n) = unat ?a + 4096 * ?n"
    using lt by (simp add: unat_word_ariths unat_of_nat)
  then have l: "PGROUNDDOWN (va + sz - 1) = ?a + 4096 * of_nat ?n"
    using an unat_PGROUNDDOWN[of "va + sz - 1"] unfolding word_unat_eq_iff u by simp
  have d: "unat ?a div 4096 = unat va div 4096" by (rule PGROUNDDOWN_le)
  have mr: "mapped_range ?a pa perm j M = mapped_range va pa perm j M" for j M
    by (simp add: mapped_range_def d fun_eq_iff)
  have "\<forall>vb<MAXVA. unat ?a div 4096 \<le> unat vb div 4096 \<and> unat vb div 4096 \<le> unat ?a div 4096 + ?n \<longrightarrow>
      vmap (mem s) pt vb AND PTE_V = 0" using free by (simp only: d)
  from mappages_loop[OF v page_aligned_PGROUNDDOWN _ this, of pa perm] lt show ?thesis
    unfolding mappages_def l mr by simp
qed

lemma mappages_remap:
  assumes v: "vm_ok s pt F" and va: "va < MAXVA" and m: "vmap (mem s) pt va AND PTE_V \<noteq> 0"
  shows "mappages pt va sz pa perm s = Inl (Panic ''remap'')"
proof -
  let ?a = "PGROUNDDOWN va"
  have a: "?a < MAXVA" using va PGROUNDDOWN_le(1)[of va] by (simp add: word_less_nat_alt)
  have "tix ?a = tix va \<and> unat (PX 0 ?a) = unat (PX 0 va)" using same_page_index[OF a va] by (simp add: PGROUNDDOWN_le)
  then have m': "vmap (mem s) pt ?a AND PTE_V \<noteq> 0" using m by (simp add: vmap_def)
  obtain b where b: "node (mem s) pt (tix ?a) = Some b"
    using m' by (cases "node (mem s) pt (tix ?a)") (auto simp: vmap_def leaf_def)
  have W: "walk pt ?a True s = Inr (b + 8 * PX 0 ?a, s)"
  proof -
    have r: "page_aligned pt" using pt_ok_root[OF vm_ok_root[OF v]] by simp
    obtain c where c: "child (mem s) pt (unat (PX (Suc (Suc 0)) ?a)) = Some c" "child (mem s) c (unat (PX (Suc 0) ?a)) = Some b"
      using b by (auto simp: tix_def numeral_2_eq_2 split: option.splits)
    have "walk pt ?a True s = walk_from (Suc (Suc 0)) pt ?a True s"
      using a by (simp add: walk_def numeral_2_eq_2 not_le[symmetric] del: walk_from.simps)
    also have "\<dots> = walk_from (Suc 0) c ?a True s" by (rule walk_present[OF r c(1)])
    also have "\<dots> = walk_from 0 b ?a True s" by (rule walk_present[OF child_aligned[OF c(1)] c(2)])
    finally show ?thesis by simp
  qed
  have ba: "page_aligned b" "b \<noteq> 0" using pt_ok_page[OF vm_ok_root[OF v] tix_paths(1) b] by auto
  then have nz: "b + 8 * PX 0 ?a \<noteq> 0" using pte_addr[OF ba(1), of 0 ?a] by (metis add_is_0 unat_eq_0)
  have "load64 (mem s) (unat (b + 8 * PX 0 ?a)) = vmap (mem s) pt ?a"
    by (simp add: vmap_def leaf_def b ent_def pte_addr[OF ba(1)])
  then show ?thesis using nz m' unfolding mappages_def by (subst mappages_from.simps) (simp add: W)
qed

section \<open>Bytes of user memory\<close>

definition umapped :: "bytes \<Rightarrow> u64 \<Rightarrow> u64 \<Rightarrow> bool" where
  "umapped m pt va \<longleftrightarrow> va < MAXVA \<and> vmap m pt va AND PTE_V \<noteq> 0 \<and> vmap m pt va AND PTE_U \<noteq> 0 \<and> PTE2PA (vmap m pt va) \<noteq> 0"

definition phys :: "bytes \<Rightarrow> u64 \<Rightarrow> u64 \<Rightarrow> nat" where
  "phys m pt va = unat (PTE2PA (vmap m pt va)) + unat va mod 4096"

definition uread :: "bytes \<Rightarrow> u64 \<Rightarrow> u64 \<Rightarrow> u8" where
  "uread m pt va = m (phys m pt va)"

lemma vmap_page: "va < MAXVA \<Longrightarrow> vb < MAXVA \<Longrightarrow> unat va div 4096 = unat vb div 4096 \<Longrightarrow> vmap m pt va = vmap m pt vb"
  using same_page_index[of va vb] by (simp add: vmap_def)

lemma walkaddr_mapped:
  assumes ok: "pt_ok (mem s) pt" and u: "umapped (mem s) pt va"
  shows "walkaddr pt (PGROUNDDOWN va) s = Inr (PTE2PA (vmap (mem s) pt va), s)"
proof -
  let ?a = "PGROUNDDOWN va"
  note U = u[unfolded umapped_def]
  have a: "?a < MAXVA" using U PGROUNDDOWN_le(1)[of va] by (simp add: word_less_nat_alt)
  have e: "vmap (mem s) pt ?a = vmap (mem s) pt va" by (rule vmap_page[OF a]) (use U in \<open>simp_all add: PGROUNDDOWN_le\<close>)
  obtain b where b: "node (mem s) pt (tix ?a) = Some b"
    using U e by (cases "node (mem s) pt (tix ?a)") (auto simp: vmap_def leaf_def)
  have ba: "page_aligned b" "b \<noteq> 0" using pt_ok_page[OF ok tix_paths(1) b] by auto
  then have nz: "b + 8 * PX 0 ?a \<noteq> 0" using pte_addr[OF ba(1), of 0 ?a] by (metis add_is_0 unat_eq_0)
  have "load64 (mem s) (unat (b + 8 * PX 0 ?a)) = vmap (mem s) pt va"
    unfolding e[symmetric] by (simp add: vmap_def leaf_def b ent_def pte_addr[OF ba(1)])
  then show ?thesis using U a nz by (simp add: walkaddr_def walk_lookup[OF ok a] b not_le)
qed

text \<open>One round of the copy loops stays within a page.\<close>

lemma div_mod_within:
  fixes a i m :: nat
  assumes "a mod m + i < m"
  shows "(a + i) div m = a div m" "(a + i) mod m = a mod m + i"
proof -
  have a: "a = m * (a div m) + a mod m" by simp
  have "m * (a div m) \<le> a + i" "a + i < m * Suc (a div m)" using a assms unfolding mult_Suc_right by linarith+
  then show d: "(a + i) div m = a div m" by (rule div_nat_eqI)
  have "a + i = m * (a div m) + (a + i) mod m" by (metis d mult_div_mod_eq)
  then show "(a + i) mod m = a mod m + i" using a by linarith
qed

lemma chunk:
  assumes len: "0 < unat len" "unat va + unat len \<le> 2 ^ 38"
  defines "n \<equiv> unat (page_left va len)"
  shows "0 < n" "n \<le> unat len" "i < unat len \<Longrightarrow> unat (va + of_nat i) = unat va + i"
    "i < n \<Longrightarrow> unat (va + of_nat i) div 4096 = unat va div 4096"
    "i < n \<Longrightarrow> unat (va + of_nat i) mod 4096 = unat va mod 4096 + i" "unat va mod 4096 + n \<le> 4096"
    "n < unat len \<Longrightarrow> PGROUNDDOWN va + 4096 = va + of_nat n" "unat (len - page_left va len) = unat len - n"
proof -
  have n: "n = min (unat len) (4096 - unat va mod 4096)" by (simp add: n_def unat_page_left)
  have m: "unat va mod 4096 < 4096" by simp
  show "0 < n" "n \<le> unat len" using n len(1) m by auto
  have L: "unat va + unat len \<le> 274877906944" using len(2) by simp
  show i: "unat (va + of_nat i) = unat va + i" if "i < unat len" for i
    using that L by (simp add: unat_word_ariths unat_of_nat)
  show u: "unat va mod 4096 + n \<le> 4096" using n m by linarith
  have s: "(unat va + i) div 4096 = unat va div 4096 \<and> (unat va + i) mod 4096 = unat va mod 4096 + i" if "i < n" for i
    using div_mod_within[of "unat va" 4096 i] u that by linarith
  show "i < n \<Longrightarrow> unat (va + of_nat i) div 4096 = unat va div 4096" "i < n \<Longrightarrow> unat (va + of_nat i) mod 4096 = unat va mod 4096 + i"
    using s[of i] i[of i] n by auto
  show "PGROUNDDOWN va + 4096 = va + of_nat n" if "n < unat len"
  proof -
    have "n = 4096 - unat va mod 4096" using n that by linarith
    moreover have "unat va = unat va div 4096 * 4096 + unat va mod 4096" by simp
    ultimately have e: "unat va div 4096 * 4096 + 4096 = unat va + n" using m by linarith
    then have "unat (PGROUNDDOWN va + 4096) = unat va + n"
      using L that by (simp add: unat_word_ariths unat_PGROUNDDOWN)
    then show ?thesis using i[OF that] by (simp add: word_unat_eq_iff)
  qed
  show "unat (len - page_left va len) = unat len - n"
    using \<open>n \<le> unat len\<close> by (simp add: unat_sub_if' n_def)
qed

lemma frame_addr:
  assumes "page_aligned p"
  shows "unat (p + (va - PGROUNDDOWN va)) = unat p + unat va mod 4096"
proof -
  have "unat p + 4096 \<le> 18446744073709551616" using page_aligned_less[OF assms] unat_less_64[of p] by simp
  moreover have "unat va mod 4096 < 4096" by simp
  ultimately have "unat p + unat va mod 4096 < 18446744073709551616" by linarith
  then show ?thesis by (simp add: unat_word_ariths(1) unat_page_off)
qed

lemma chunk_phys:
  assumes len: "0 < unat len" "unat va + unat len \<le> 2 ^ 38" and i: "i < unat (page_left va len)"
  shows "phys m pt (va + of_nat i) = unat (PTE2PA (vmap m pt va) + (va - PGROUNDDOWN va)) + i"
proof -
  note C = chunk[OF len]
  have il: "i < unat len" using i C(2) by linarith
  have "va < MAXVA" "va + of_nat i < MAXVA"
    using len il C(3)[OF il] by (simp_all add: word_less_nat_alt layout_vals)
  then have "vmap m pt (va + of_nat i) = vmap m pt va" using C(4)[OF i] by (intro vmap_page)
  then show ?thesis unfolding phys_def C(5)[OF i] by (simp add: frame_addr)
qed

section \<open>copyin\<close>

lemma copyin_from_mapped:
  assumes "pt_ok (mem s) pt" "unat va + unat len \<le> 2 ^ 38" "\<forall>i<unat len. umapped (mem s) pt (va + of_nat i)"
  shows "copyin_from pt dst off va len s =
    Inr ((0, \<lambda>x. if off \<le> x \<and> x < off + unat len then uread (mem s) pt (va + of_nat (x - off)) else dst x), s)"
  using assms
proof (induction "unat len" arbitrary: len va off dst rule: less_induct)
  case less
  show ?case
  proof (cases "0 < unat len")
    case False
    then have z: "\<not> 0 < len" "unat len = 0" by (simp_all add: word_less_nat_alt)
    show ?thesis by (subst copyin_from.simps) (auto simp: z fun_eq_iff)
  next
    case True
    let ?n = "unat (page_left va len)" and ?d = "blit dst off (mem s) (unat (PTE2PA (vmap (mem s) pt va) + (va - PGROUNDDOWN va))) (unat (page_left va len))"
    note C = chunk[OF True less.prems(2)]
    have "umapped (mem s) pt (va + of_nat 0)" using less.prems(3) True by blast
    then have u: "umapped (mem s) pt va" by simp
    have pa: "PTE2PA (vmap (mem s) pt va) \<noteq> 0" using u by (simp add: umapped_def)
    have step: "copyin_from pt dst off va len s = copyin_from pt ?d (off + ?n) (PGROUNDDOWN va + 4096) (len - page_left va len) s"
      using True walkaddr_mapped[OF less.prems(1) u] pa
      by (subst copyin_from.simps) (simp add: word_less_nat_alt Let_def)
    have d: "?d x = (if off \<le> x \<and> x < off + ?n then uread (mem s) pt (va + of_nat (x - off)) else dst x)" for x
      using chunk_phys[OF True less.prems(2), of "x - off" "mem s" pt] by (auto simp: blit_def uread_def)
    have lt: "unat (len - page_left va len) < unat len" using C(1,2,8) by linarith
    show ?thesis
    proof (cases "?n < unat len")
      case False
      then have e: "unat (len - page_left va len) = 0" "?n = unat len" using C(2,8) by auto
      then have "\<not> 0 < len - page_left va len" by (simp add: word_less_nat_alt)
      then show ?thesis unfolding step using d e(2) by (subst copyin_from.simps) (simp add: fun_eq_iff)
    next
      case rest: True
      have nx: "PGROUNDDOWN va + 4096 = va + of_nat ?n" by (rule C(7)[OF rest])
      have un: "unat (va + of_nat ?n) = unat va + ?n" by (rule C(3)[OF rest])
      have s': "va + of_nat ?n + of_nat i = va + of_nat (?n + i)" for i by (simp add: add.assoc)
      have "copyin_from pt ?d (off + ?n) (va + of_nat ?n) (len - page_left va len) s =
        Inr ((0, \<lambda>x. if off + ?n \<le> x \<and> x < off + ?n + unat (len - page_left va len)
          then uread (mem s) pt (va + of_nat ?n + of_nat (x - (off + ?n))) else ?d x), s)"
      proof (rule less.hyps[OF lt less.prems(1)])
        show "unat (va + of_nat ?n) + unat (len - page_left va len) \<le> 2 ^ 38" using less.prems(2) un C(2,8) by linarith
        show "\<forall>i<unat (len - page_left va len). umapped (mem s) pt (va + of_nat ?n + of_nat i)"
          unfolding s' C(8)
        proof (intro allI impI)
          fix i assume "i < unat len - ?n"
          then have "?n + i < unat len" by linarith
          then show "umapped (mem s) pt (va + of_nat (?n + i))" using less.prems(3) by blast
        qed
      qed
      moreover have "(\<lambda>x. if off + ?n \<le> x \<and> x < off + ?n + unat (len - page_left va len)
          then uread (mem s) pt (va + of_nat ?n + of_nat (x - (off + ?n))) else ?d x) =
        (\<lambda>x. if off \<le> x \<and> x < off + unat len then uread (mem s) pt (va + of_nat (x - off)) else dst x)"
        unfolding s' C(8) d using C(2) by (auto simp: fun_eq_iff)
      ultimately show ?thesis unfolding step nx by simp
    qed
  qed
qed

lemma copyin_mapped:
  assumes "pt_ok (mem s) pt" "unat va + unat len \<le> 2 ^ 38" "\<forall>i<unat len. umapped (mem s) pt (va + of_nat i)"
  shows "copyin pt dst va len s =
    Inr ((0, \<lambda>x. if x < unat len then uread (mem s) pt (va + of_nat x) else dst x), s)"
  using copyin_from_mapped[OF assms, of dst 0] by (simp add: copyin_def cong: if_cong)

section \<open>copyout\<close>

text \<open>No frame of the address space is a table page, and no two pages share a frame.\<close>

definition frames_ok :: "bytes \<Rightarrow> u64 \<Rightarrow> bool" where
  "frames_ok m pt \<longleftrightarrow> pt_ok m pt \<and>
     (\<forall>va<MAXVA. vmap m pt va AND PTE_V \<noteq> 0 \<longrightarrow> PTE2PA (vmap m pt va) \<notin> pt_pages m pt \<and>
       (\<forall>vb<MAXVA. vmap m pt vb AND PTE_V \<noteq> 0 \<longrightarrow> PTE2PA (vmap m pt va) = PTE2PA (vmap m pt vb) \<longrightarrow>
          unat va div 4096 = unat vb div 4096))"

text \<open>Writing bytes into the frame of \<open>va\<close> changes no table, and user bytes of that page only.\<close>

lemma frame_write:
  assumes f: "frames_ok m pt" and u: "umapped m pt va" and m': "\<forall>x. m' x \<noteq> m x \<longrightarrow> in_page (PTE2PA (vmap m pt va)) x"
  shows "frames_ok m' pt" "vb < MAXVA \<Longrightarrow> vmap m' pt vb = vmap m pt vb" "pt_pages m' pt = pt_pages m pt"
    "vb < MAXVA \<Longrightarrow> vmap m pt vb AND PTE_V \<noteq> 0 \<Longrightarrow> unat vb div 4096 \<noteq> unat va div 4096 \<Longrightarrow> uread m' pt vb = uread m pt vb"
proof -
  note F = f[unfolded frames_ok_def] and U = u[unfolded umapped_def]
  have np: "PTE2PA (vmap m pt va) \<notin> pt_pages m pt" using F U by blast
  have ok: "pt_ok m pt" using F by blast
  have agree: "m' x = m x" if "a \<in> pt_pages m pt" "in_page a x" for a x
  proof (rule ccontr)
    assume "m' x \<noteq> m x"
    then have "in_page (PTE2PA (vmap m pt va)) x" using m' by blast
    moreover have "page_aligned a" using ok that(1) by (simp add: pt_ok_def)
    ultimately have "a = PTE2PA (vmap m pt va)" using in_page_unique[OF _ _ that(2)] by simp
    then show False using np that(1) by simp
  qed
  have v: "vmap m' pt vb = vmap m pt vb" for vb unfolding vmap_def by (rule pt_cong(3), erule (1) agree) simp_all
  then show "vmap m' pt vb = vmap m pt vb" by simp
  show pg: "pt_pages m' pt = pt_pages m pt" by (rule pt_cong(1), erule (1) agree)
  have "pt_ok m' pt = pt_ok m pt" by (rule pt_cong(2), erule (1) agree)
  then have "pt_ok m' pt" using ok by simp
  then show "frames_ok m' pt" using F unfolding frames_ok_def pg v by blast
  show "uread m' pt vb = uread m pt vb"
    if "vb < MAXVA" "vmap m pt vb AND PTE_V \<noteq> 0" "unat vb div 4096 \<noteq> unat va div 4096"
  proof -
    have "PTE2PA (vmap m pt vb) \<noteq> PTE2PA (vmap m pt va)" using F U that by blast
    moreover have "in_page (PTE2PA (vmap m pt vb)) (phys m pt vb)" by (simp add: in_page_def phys_def)
    ultimately have "\<not> in_page (PTE2PA (vmap m pt va)) (phys m pt vb)"
      using in_page_unique[of "PTE2PA (vmap m pt vb)" "PTE2PA (vmap m pt va)"] by auto
    then have "m' (phys m pt vb) = m (phys m pt vb)" using m' by blast
    then show ?thesis by (simp add: uread_def phys_def v)
  qed
qed

text \<open>What a write of \<open>n\<close> bytes \<open>src\<close> at \<open>va\<close> does to user memory.\<close>

definition uwritten :: "kernel \<Rightarrow> u64 \<Rightarrow> u64 \<Rightarrow> bytes \<Rightarrow> nat \<Rightarrow> kernel \<Rightarrow> bool" where
  "uwritten s pt va src n s' \<longleftrightarrow> s' = s\<lparr>mem := mem s'\<rparr> \<and> frames_ok (mem s') pt \<and> pt_pages (mem s') pt = pt_pages (mem s) pt \<and>
     (\<forall>vb<MAXVA. vmap (mem s') pt vb = vmap (mem s) pt vb) \<and>
     (\<forall>vb<MAXVA. vmap (mem s) pt vb AND PTE_V \<noteq> 0 \<longrightarrow> uread (mem s') pt vb =
        (if unat va \<le> unat vb \<and> unat vb < unat va + n then src (unat vb - unat va) else uread (mem s) pt vb))"

lemma uwritten_trans:
  assumes "uwritten s pt va src n t" "uwritten t pt vc (\<lambda>i. src (n + i)) k u" "unat vc = unat va + n"
  shows "uwritten s pt va src (n + k) u"
proof -
  have t: "t = s\<lparr>mem := mem t\<rparr>" and u: "u = t\<lparr>mem := mem u\<rparr>" using assms(1,2) unfolding uwritten_def by blast+
  have "u = s\<lparr>mem := mem u\<rparr>" by (subst u, subst t) simp
  moreover have "uread (mem u) pt vb =
      (if unat va \<le> unat vb \<and> unat vb < unat va + (n + k) then src (unat vb - unat va) else uread (mem s) pt vb)"
    if "vb < MAXVA" "vmap (mem s) pt vb AND PTE_V \<noteq> 0" for vb
    using assms that unfolding uwritten_def by auto
  ultimately show ?thesis using assms(1,2) unfolding uwritten_def by auto
qed

lemma copyout_chunk:
  fixes src :: bytes
  assumes f: "frames_ok (mem s) pt" and len: "0 < unat len" "unat va + unat len \<le> 2 ^ 38" and u: "umapped (mem s) pt va"
  defines "t \<equiv> set_mem (\<lambda>m. blit m (unat (PTE2PA (vmap (mem s) pt va) + (va - PGROUNDDOWN va))) src 0 (unat (page_left va len))) s"
  shows "uwritten s pt va src (unat (page_left va len)) t"
proof -
  let ?p = "PTE2PA (vmap (mem s) pt va)" and ?n = "unat (page_left va len)"
  note C = chunk[OF len]
  have mt: "mem t x = (if unat ?p + unat va mod 4096 \<le> x \<and> x < unat ?p + unat va mod 4096 + ?n
      then src (x - (unat ?p + unat va mod 4096)) else mem s x)" for x
    by (simp add: t_def set_mem_def frame_addr blit_def)
  have ch: "\<forall>x. mem t x \<noteq> mem s x \<longrightarrow> in_page ?p x"
    using C(6) unfolding mt by (auto simp: in_page_def)
  note W = frame_write[OF f u ch]
  have va: "va < MAXVA" using u by (simp add: umapped_def)
  have "uread (mem t) pt vb = (if unat va \<le> unat vb \<and> unat vb < unat va + ?n then src (unat vb - unat va) else uread (mem s) pt vb)"
    if vb: "vb < MAXVA" "vmap (mem s) pt vb AND PTE_V \<noteq> 0" for vb
  proof (cases "unat vb div 4096 = unat va div 4096")
    case True
    have e: "unat vb = unat va div 4096 * 4096 + unat vb mod 4096" "unat va = unat va div 4096 * 4096 + unat va mod 4096"
      using True by (metis div_mult_mod_eq)+
    have "vmap (mem s) pt vb = vmap (mem s) pt va" by (rule vmap_page[OF vb(1) va True])
    then have p: "phys (mem s) pt vb = unat ?p + unat vb mod 4096" by (simp add: phys_def)
    have t: "uread (mem t) pt vb = mem t (unat ?p + unat vb mod 4096)"
      unfolding p[symmetric] by (simp add: uread_def phys_def W(2)[OF vb(1)])
    have q: "unat va \<le> unat vb \<longleftrightarrow> unat va mod 4096 \<le> unat vb mod 4096"
      "unat vb < unat va + ?n \<longleftrightarrow> unat vb mod 4096 < unat va mod 4096 + ?n"
      "unat vb - unat va = unat vb mod 4096 - unat va mod 4096" using e by linarith+
    have us: "uread (mem s) pt vb = mem s (unat ?p + unat vb mod 4096)" by (simp add: uread_def p)
    show ?thesis unfolding t us q unfolding mt by simp
  next
    case False
    have "\<not> (unat va \<le> unat vb \<and> unat vb < unat va + ?n)"
    proof
      assume r: "unat va \<le> unat vb \<and> unat vb < unat va + ?n"
      then have "unat va mod 4096 + (unat vb - unat va) < 4096" using C(6) by linarith
      from div_mod_within(1)[OF this] show False using False r by simp
    qed
    then show ?thesis using W(4)[OF vb False] by auto
  qed
  moreover have "t = s\<lparr>mem := mem t\<rparr>" by (simp add: t_def set_mem_def)
  ultimately show ?thesis unfolding uwritten_def using W(1-3) by blast
qed

lemma umapped_written: "uwritten s pt va src n t \<Longrightarrow> umapped (mem t) pt vb = umapped (mem s) pt vb"
  by (auto simp: uwritten_def umapped_def)

lemma copyout_mapped:
  assumes "frames_ok (mem s) pt" "unat va + unat len \<le> 2 ^ 38" "\<forall>i<unat len. umapped (mem s) pt (va + of_nat i)"
  shows "\<exists>s'. copyout pt va src len s = Inr (0, s') \<and> uwritten s pt va src (unat len) s'"
  using assms
proof (induction "unat len" arbitrary: len va src s rule: less_induct)
  case less
  show ?case
  proof (cases "0 < unat len")
    case False
    then have z: "\<not> 0 < len" "unat len = 0" by (simp_all add: word_less_nat_alt)
    then show ?thesis using less.prems(1) by (subst copyout.simps) (auto simp: uwritten_def)
  next
    case True
    let ?n = "unat (page_left va len)"
    let ?t = "set_mem (\<lambda>m. blit m (unat (PTE2PA (vmap (mem s) pt va) + (va - PGROUNDDOWN va))) src 0 ?n) s"
    note C = chunk[OF True less.prems(2)]
    have "umapped (mem s) pt (va + of_nat 0)" using less.prems(3) True by blast
    then have u: "umapped (mem s) pt va" by simp
    have ok: "pt_ok (mem s) pt" using less.prems(1) by (simp add: frames_ok_def)
    have pa: "PTE2PA (vmap (mem s) pt va) \<noteq> 0" using u by (simp add: umapped_def)
    have step: "copyout pt va src len s = copyout pt (PGROUNDDOWN va + 4096) (\<lambda>i. src (?n + i)) (len - page_left va len) ?t"
      using True walkaddr_mapped[OF ok u] pa by (subst copyout.simps) (simp add: word_less_nat_alt Let_def)
    note W = copyout_chunk[OF less.prems(1) True less.prems(2) u, of src]
    have lt: "unat (len - page_left va len) < unat len" using C(1,2,8) by linarith
    show ?thesis
    proof (cases "?n < unat len")
      case False
      then have e: "unat (len - page_left va len) = 0" "?n = unat len" using C(2,8) by auto
      then have "\<not> 0 < len - page_left va len" by (simp add: word_less_nat_alt)
      then have "copyout pt va src len s = Inr (0, ?t)" unfolding step by (subst copyout.simps) simp
      then show ?thesis using W unfolding e(2) by blast
    next
      case rest: True
      have nx: "PGROUNDDOWN va + 4096 = va + of_nat ?n" by (rule C(7)[OF rest])
      have un: "unat (va + of_nat ?n) = unat va + ?n" by (rule C(3)[OF rest])
      have s': "va + of_nat ?n + of_nat i = va + of_nat (?n + i)" for i by (simp add: add.assoc)
      have f: "frames_ok (mem ?t) pt" using W by (simp add: uwritten_def)
      have b: "unat (va + of_nat ?n) + unat (len - page_left va len) \<le> 2 ^ 38" using less.prems(2) un C(2,8) by linarith
      have m: "\<forall>i<unat (len - page_left va len). umapped (mem ?t) pt (va + of_nat ?n + of_nat i)"
        unfolding s' C(8) umapped_written[OF W]
      proof (intro allI impI)
        fix i assume "i < unat len - ?n"
        then have "?n + i < unat len" by linarith
        then show "umapped (mem s) pt (va + of_nat (?n + i))" using less.prems(3) by blast
      qed
      from less.hyps[OF lt f b m, of "\<lambda>i. src (?n + i)"] obtain s' where
        s': "copyout pt (va + of_nat ?n) (\<lambda>i. src (?n + i)) (len - page_left va len) ?t = Inr (0, s')"
        "uwritten ?t pt (va + of_nat ?n) (\<lambda>i. src (?n + i)) (unat (len - page_left va len)) s'" by blast
      have "?n + unat (len - page_left va len) = unat len" using C(2,8) by linarith
      then have "uwritten s pt va src (unat len) s'" using uwritten_trans[OF W s'(2) un] by simp
      then show ?thesis using s'(1) unfolding step nx by blast
    qed
  qed
qed

lemma copyout_1:
  assumes "frames_ok (mem s) pt" "umapped (mem s) pt va"
  shows "\<exists>s'. copyout pt va (\<lambda>_. ch) 1 s = Inr (0, s') \<and> uwritten s pt va (\<lambda>_. ch) 1 s'"
proof -
  have b: "unat va + unat (1 :: u64) \<le> 2 ^ 38" using assms(2) by (simp add: umapped_def word_less_nat_alt layout_vals)
  have m: "\<forall>i<unat (1 :: u64). umapped (mem s) pt (va + of_nat i)" using assms(2) by simp
  from copyout_mapped[OF assms(1) b m, of "\<lambda>_. ch"] show ?thesis unfolding unsigned_1 .
qed

lemma uwritten_none: "frames_ok (mem s) pt \<Longrightarrow> uwritten s pt va src 0 s"
  by (auto simp: uwritten_def)

lemma uwritten_cong:
  assumes "uwritten s pt va src n t" "\<And>i. i < n \<Longrightarrow> src i = src' i"
  shows "uwritten s pt va src' n t"
proof -
  have "(if unat va \<le> unat vb \<and> unat vb < unat va + n then src' (unat vb - unat va) else uread (mem s) pt vb) =
      (if unat va \<le> unat vb \<and> unat vb < unat va + n then src (unat vb - unat va) else uread (mem s) pt vb)" for vb
    using assms(2)[of "unat vb - unat va"] by auto
  then show ?thesis using assms(1) unfolding uwritten_def by presburger
qed

end
