(* ===== verification/Log_Steps.thy ===== *)
theory Log_Steps
  imports Log
begin

text \<open>
  The steps of the log on the abstract view of the buffer cache: what reading, changing, writing
  and releasing blocks does to the logical contents \<open>blk\<close>, the reference counts \<open>refs\<close>, the locks
  \<open>lkd\<close> and the disk, for one step of \<open>write_log\<close> and \<open>install_trans\<close> and for the log header.
\<close>

section \<open>States the buffer cache works in\<close>

definition bio_ok :: "kernel \<Rightarrow> bool" where
  "bio_ok s \<longleftrightarrow> bc_inv s \<and> bio_ctx s \<and> settled s"

text \<open>What code that only goes through the cache may change.\<close>

definition bio_frame :: "kernel \<Rightarrow> kernel \<Rightarrow> bool" where
  "bio_frame s s' \<longleftrightarrow>
     (\<exists>B P D W. s' = s\<lparr>bufs := B, procs := P, disk := D, wtrace := W\<rparr> \<and> woken (procs s) P)"

lemma bio_frame_refl: "bio_frame s s"
  unfolding bio_frame_def
  by (rule exI[of _ "bufs s"], rule exI[of _ "procs s"], rule exI[of _ "disk s"], rule exI[of _ "wtrace s"]) simp

lemma bio_frame_trans:
  assumes "bio_frame s t" "bio_frame t u"
  shows "bio_frame s u"
proof -
  obtain B P D W where t: "t = s\<lparr>bufs := B, procs := P, disk := D, wtrace := W\<rparr>" "woken (procs s) P"
    using assms(1) by (auto simp: bio_frame_def)
  obtain B' P' D' W' where u: "u = t\<lparr>bufs := B', procs := P', disk := D', wtrace := W'\<rparr>" "woken (procs t) P'"
    using assms(2) by (auto simp: bio_frame_def)
  have "u = s\<lparr>bufs := B', procs := P', disk := D', wtrace := W'\<rparr>" using t u by simp
  moreover have "woken (procs s) P'" using t u by (auto intro: woken_trans)
  ultimately show ?thesis unfolding bio_frame_def by blast
qed

lemma bio_frame_bufs: "s' = s\<lparr>bufs := B\<rparr> \<Longrightarrow> bio_frame s s'"
  unfolding bio_frame_def
  by (rule exI[of _ B], rule exI[of _ "procs s"], rule exI[of _ "disk s"], rule exI[of _ "wtrace s"]) simp

lemma bio_frame_disk: "s' = s\<lparr>bufs := B, disk := D, wtrace := W\<rparr> \<Longrightarrow> bio_frame s s'"
  unfolding bio_frame_def
  by (rule exI[of _ B], rule exI[of _ "procs s"], rule exI[of _ D], rule exI[of _ W]) simp

lemma bio_frame_procs: "s' = s\<lparr>bufs := B, procs := P\<rparr> \<Longrightarrow> woken (procs s) P \<Longrightarrow> bio_frame s s'"
  unfolding bio_frame_def
  by (rule exI[of _ B], rule exI[of _ P], rule exI[of _ "disk s"], rule exI[of _ "wtrace s"]) simp

lemma bio_frame_fields:
  assumes "bio_frame s s'"
  shows "klog s' = klog s" "held s' = held s" "curproc s' = curproc s" "sblk s' = sblk s"
    "icache s' = icache s" "mem s' = mem s" "freelist s' = freelist s" "woken (procs s) (procs s')"
    "k_end s' = k_end s"
  using assms by (auto simp: bio_frame_def)

lemma bio_frame_ctx:
  assumes "bio_frame s s'" "bio_ctx s"
  shows "bio_ctx s'" "mypid s' = mypid s"
proof -
  note f = bio_frame_fields[OF assms(1)]
  obtain p where p: "curproc s = Some p" "p < length (procs s)"
    using assms(2) by (auto simp: bio_ctx_def procs_ok_def)
  show "bio_ctx s'" using assms(2) f woken_length[OF f(8)]
    by (simp add: bio_ctx_def no_proc_lock_def procs_ok_def)
  show "mypid s' = mypid s" using f p by (simp add: mypid_def)
qed

section \<open>The cache operations on states that are in order\<close>

definition reads :: "u32 \<Rightarrow> kernel \<Rightarrow> bool" where
  "reads n s \<longleftrightarrow> lkd s n = None \<and> refs s n + 1 \<noteq> 0 \<and> (refs s n \<noteq> 0 \<or> card (busy s) < NBUF)"

lemma bread_step:
  assumes "bio_ok s" "reads n s"
  obtains b s' where "bread ROOTDEV n s = Inr (b, s')" "bio_ok s'" "bio_frame s s'" "owner s' n = Some b"
    "blk s' = blk s" "refs s' = (refs s)(n := refs s n + 1)" "lkd s' = (lkd s)(n := Some (mypid s))"
    "disk s' = disk s" "wtrace s' = wtrace s" "b_data (bufs s' ! b) = blk s n"
    "\<forall>m c. owner s m = Some c \<longrightarrow> refs s m \<noteq> 0 \<longrightarrow> owner s' m = Some c"
proof -
  obtain b s' where b: "bread ROOTDEV n s = Inr (b, s')" and p: "bread_post n s b s'"
    using bread_ok assms unfolding bio_ok_def reads_def by blast
  note q = p[unfolded bread_post_def]
  have eq: "s' = s\<lparr>bufs := bufs s'\<rparr>" using q by blast
  have fr: "bio_frame s s'" using eq by (rule bio_frame_bufs)
  have "disk s' = disk s" "wtrace s' = wtrace s" by (subst eq, simp)+
  moreover have "settled s'" using assms q by (auto simp: bio_ok_def settled_def reads_def)
  moreover have "bio_ctx s'" using bio_frame_ctx(1)[OF fr] assms(1) by (simp add: bio_ok_def)
  moreover have "b_data (bufs s' ! b) = blk s n" using owner_fields(2)[of s' n b] q by metis
  ultimately show ?thesis using that[OF b _ fr] q by (auto simp: bio_ok_def)
qed

text \<open>
  \<open>brelse\<close> of a buffer the caller holds. The last reference needs the disk up to date.
\<close>

lemma brelse_step:
  assumes "bc_inv s" "bio_ctx s" "owner s n = Some b" "lkd s n = Some (mypid s)"
    and "refs s n = 1 \<Longrightarrow> blk s n = disk s n"
  obtains s' where "brelse b s = Inr s'" "bc_inv s'" "bio_ctx s'" "mypid s' = mypid s" "bio_frame s s'"
    "owner s' = owner s" "blk s' = blk s" "refs s' = (refs s)(n := refs s n - 1)"
    "lkd s' = (lkd s)(n := None)" "disk s' = disk s" "wtrace s' = wtrace s"
proof -
  obtain s' where b: "brelse b s = Inr s'" and p: "brelse_post n s s'" using brelse_ok assms by blast
  note q = p[unfolded brelse_post_def]
  have eq: "s' = s\<lparr>bufs := bufs s', procs := procs s'\<rparr>" using q by blast
  have fr: "bio_frame s s'" using eq q by (blast intro: bio_frame_procs)
  have "disk s' = disk s" "wtrace s' = wtrace s" by (subst eq, simp)+
  then show ?thesis using that[OF b _ _ _ fr] q bio_frame_ctx[OF fr assms(2)] by auto
qed

lemma bwrite_step:
  assumes "bc_inv s" "bio_ctx s" "owner s n = Some b" "lkd s n = Some (mypid s)"
  obtains s' where "bwrite b s = Inr s'" "bc_inv s'" "bio_ctx s'" "mypid s' = mypid s" "bio_frame s s'"
    "owner s' = owner s" "blk s' = blk s" "refs s' = refs s" "lkd s' = lkd s"
    "disk s' = (disk s)(n := blk s n)" "wtrace s' = wtrace s @ [(n, blk s n)]"
proof -
  obtain s' where b: "bwrite b s = Inr s'" and q: "bc_inv s'" "owner s' = owner s" "blk s' = blk s"
      "refs s' = refs s" "lkd s' = lkd s"
    and eq: "s' = s\<lparr>bufs := bufs s', disk := (disk s)(n := blk s n), wtrace := wtrace s @ [(n, blk s n)]\<rparr>"
    using bwrite_ok[OF assms] by blast
  have fr: "bio_frame s s'" using eq by (rule bio_frame_disk)
  have "disk s' = (disk s)(n := blk s n)" "wtrace s' = wtrace s @ [(n, blk s n)]" by (subst eq, simp)+
  then show ?thesis using that[OF b q(1) _ _ fr q(2-5)] bio_frame_ctx[OF fr assms(2)] by auto
qed

lemma bset_step:
  assumes "bc_inv s" "bio_ctx s" "owner s n = Some b" "refs s n \<noteq> 0"
  shows "bc_inv (bset b g s)" "bio_ctx (bset b g s)" "mypid (bset b g s) = mypid s" "bio_frame s (bset b g s)"
    "owner (bset b g s) = owner s" "blk (bset b g s) = (blk s)(n := g (blk s n))"
    "refs (bset b g s) = refs s" "lkd (bset b g s) = lkd s" "disk (bset b g s) = disk s"
    "wtrace (bset b g s) = wtrace s"
proof -
  note q = bset_ok[OF assms(1,3,4), of g]
  show fr: "bio_frame s (bset b g s)" using q(6) by (rule bio_frame_bufs)
  show "bio_ctx (bset b g s)" "mypid (bset b g s) = mypid s" using bio_frame_ctx[OF fr assms(2)] by auto
  show "wtrace (bset b g s) = wtrace s" by (simp add: bset_def upd_buf_def)
qed (use bset_ok[OF assms(1,3,4), of g] in auto)

lemma busy_insert: "refs s' = (refs s)(n := v) \<Longrightarrow> card (busy s') \<le> card (busy s) + 1"
proof -
  assume r: "refs s' = (refs s)(n := v)"
  have "busy s' \<subseteq> insert n (busy s)" by (auto simp: busy_def r split: if_splits)
  then have "card (busy s') \<le> card (insert n (busy s))" by (rule card_mono[OF finite])
  also have "\<dots> \<le> card (busy s) + 1" by (simp add: card_insert_if)
  finally show ?thesis .
qed

text \<open>Reading two different blocks, as copying between the log and a home block does.\<close>

lemma bread2_step:
  assumes ok: "bio_ok s" and rm: "reads m s" and ne: "m \<noteq> n" and rn: "lkd s n = None" "refs s n + 1 \<noteq> 0"
    and room: "refs s n \<noteq> 0 \<or> card (busy s) + 1 < NBUF"
  obtains bm s1 bn s2 where "bread ROOTDEV m s = Inr (bm, s1)" "bread ROOTDEV n s1 = Inr (bn, s2)"
    "klog s1 = klog s" "bc_inv s2" "bio_ctx s2" "mypid s2 = mypid s" "bio_frame s s2"
    "owner s2 m = Some bm" "owner s2 n = Some bn" "blk s2 = blk s"
    "refs s2 = (refs s)(m := refs s m + 1, n := refs s n + 1)"
    "lkd s2 = (lkd s)(m := Some (mypid s), n := Some (mypid s))" "disk s2 = disk s" "wtrace s2 = wtrace s"
proof -
  obtain bm s1 where b1: "bread ROOTDEV m s = Inr (bm, s1)" "bio_ok s1" "bio_frame s s1" "owner s1 m = Some bm"
    "blk s1 = blk s" "refs s1 = (refs s)(m := refs s m + 1)" "lkd s1 = (lkd s)(m := Some (mypid s))"
    "disk s1 = disk s" "wtrace s1 = wtrace s" "b_data (bufs s1 ! bm) = blk s m"
    "\<forall>k c. owner s k = Some c \<longrightarrow> refs s k \<noteq> 0 \<longrightarrow> owner s1 k = Some c"
    by (rule bread_step[OF ok rm], rule that)
  have k1: "klog s1 = klog s" "mypid s1 = mypid s"
    using bio_frame_fields[OF b1(3)] bio_frame_ctx[OF b1(3)] ok by (auto simp: bio_ok_def)
  have rn1: "reads n s1"
    using rn ne room busy_insert[OF b1(6)] by (auto simp: reads_def b1(6,7))
  obtain bn s2 where b2: "bread ROOTDEV n s1 = Inr (bn, s2)" "bio_ok s2" "bio_frame s1 s2"
    "owner s2 n = Some bn" "blk s2 = blk s1" "refs s2 = (refs s1)(n := refs s1 n + 1)"
    "lkd s2 = (lkd s1)(n := Some (mypid s1))" "disk s2 = disk s1" "wtrace s2 = wtrace s1"
    "b_data (bufs s2 ! bn) = blk s1 n"
    "\<forall>k c. owner s1 k = Some c \<longrightarrow> refs s1 k \<noteq> 0 \<longrightarrow> owner s2 k = Some c"
    by (rule bread_step[OF b1(2) rn1], rule that)
  have o2: "owner s2 m = Some bm" using rm b2(11) b1(4) by (simp add: b1(6) reads_def)
  have k2: "mypid s2 = mypid s" "bc_inv s2" "bio_ctx s2"
    using bio_frame_ctx[OF b2(3)] b1(2) b2(2) k1 by (auto simp: bio_ok_def)
  have v: "blk s2 = blk s" "refs s2 = (refs s)(m := refs s m + 1, n := refs s n + 1)"
    "lkd s2 = (lkd s)(m := Some (mypid s), n := Some (mypid s))" "disk s2 = disk s" "wtrace s2 = wtrace s"
    using ne by (simp_all add: b1(5-9) b2(5-9) k1)
  show ?thesis
    by (rule that[OF b1(1) b2(1) k1(1) k2(2,3,1) bio_frame_trans[OF b1(3) b2(3)] o2 b2(4) v])
qed

text \<open>Changing a held buffer and writing it to the disk.\<close>

lemma bput_step:
  assumes "bc_inv s" "bio_ctx s" "owner s n = Some b" "lkd s n = Some (mypid s)" "refs s n \<noteq> 0"
  obtains s' where "bwrite b (bset b g s) = Inr s'" "bc_inv s'" "bio_ctx s'" "mypid s' = mypid s" "bio_frame s s'"
    "owner s' = owner s" "blk s' = (blk s)(n := g (blk s n))" "refs s' = refs s" "lkd s' = lkd s"
    "disk s' = (disk s)(n := g (blk s n))" "wtrace s' = wtrace s @ [(n, g (blk s n))]"
proof -
  let ?t = "bset b g s"
  note t = bset_step[OF assms(1-3,5), of g]
  have l: "owner ?t n = Some b" "lkd ?t n = Some (mypid ?t)" using assms by (simp_all add: t(3,5,8))
  obtain s' where s': "bwrite b ?t = Inr s'" "bc_inv s'" "bio_ctx s'" "mypid s' = mypid ?t" "bio_frame ?t s'"
    "owner s' = owner ?t" "blk s' = blk ?t" "refs s' = refs ?t" "lkd s' = lkd ?t"
    "disk s' = (disk ?t)(n := blk ?t n)" "wtrace s' = wtrace ?t @ [(n, blk ?t n)]"
    by (rule bwrite_step[OF t(1,2) l], rule that)
  have v: "mypid s' = mypid s" "owner s' = owner s" "blk s' = (blk s)(n := g (blk s n))" "refs s' = refs s"
    "lkd s' = lkd s" "disk s' = (disk s)(n := g (blk s n))" "wtrace s' = wtrace s @ [(n, g (blk s n))]"
    by (simp_all add: s'(4,6-11) t(3,5-10))
  show ?thesis by (rule that[OF s'(1-3) v(1) bio_frame_trans[OF t(4) s'(5)] v(2-7)])
qed

text \<open>Releasing two different buffers.\<close>

lemma brelse2_step:
  assumes "bc_inv s" "bio_ctx s" "m \<noteq> n" "owner s m = Some bm" "owner s n = Some bn"
    and "lkd s m = Some (mypid s)" "lkd s n = Some (mypid s)"
    and "refs s m = 1 \<longrightarrow> blk s m = disk s m" "refs s n = 1 \<longrightarrow> blk s n = disk s n"
  obtains s1 s2 where "brelse bm s = Inr s1" "brelse bn s1 = Inr s2" "bc_inv s2" "bio_ctx s2" "bio_frame s s2"
    "blk s2 = blk s" "refs s2 = (refs s)(m := refs s m - 1, n := refs s n - 1)"
    "lkd s2 = (lkd s)(m := None, n := None)" "disk s2 = disk s" "wtrace s2 = wtrace s"
proof -
  obtain s1 where s1: "brelse bm s = Inr s1" "bc_inv s1" "bio_ctx s1" "mypid s1 = mypid s" "bio_frame s s1"
    "owner s1 = owner s" "blk s1 = blk s" "refs s1 = (refs s)(m := refs s m - 1)"
    "lkd s1 = (lkd s)(m := None)" "disk s1 = disk s" "wtrace s1 = wtrace s"
    by (rule brelse_step[OF assms(1,2,4,6)], use assms(8) in simp, rule that)
  have l: "owner s1 n = Some bn" "lkd s1 n = Some (mypid s1)" "refs s1 n = 1 \<longrightarrow> blk s1 n = disk s1 n"
    using assms(3,5,7,9) by (simp_all add: s1(4,6-10))
  obtain s2 where s2: "brelse bn s1 = Inr s2" "bc_inv s2" "bio_ctx s2" "mypid s2 = mypid s1" "bio_frame s1 s2"
    "owner s2 = owner s1" "blk s2 = blk s1" "refs s2 = (refs s1)(n := refs s1 n - 1)"
    "lkd s2 = (lkd s1)(n := None)" "disk s2 = disk s1" "wtrace s2 = wtrace s1"
    by (rule brelse_step[OF s1(2,3) l(1,2)], use l(3) in simp, rule that)
  have v: "blk s2 = blk s" "refs s2 = (refs s)(m := refs s m - 1, n := refs s n - 1)"
    "lkd s2 = (lkd s)(m := None, n := None)" "disk s2 = disk s" "wtrace s2 = wtrace s"
    using assms(3) by (simp_all add: s1(7-11) s2(7-11))
  show ?thesis by (rule that[OF s1(1) s2(1-3) bio_frame_trans[OF s1(5) s2(5)] v])
qed

section \<open>One step of writing the log and of installing\<close>

abbreviation lhdr :: "kernel \<Rightarrow> u32" where
  "lhdr s \<equiv> of_int (l_start (klog s))"

definition lblk :: "kernel \<Rightarrow> nat \<Rightarrow> u32" where
  "lblk s i = of_int (l_start (klog s) + int i + 1)"

abbreviation home :: "kernel \<Rightarrow> nat \<Rightarrow> u32" where
  "home s i \<equiv> l_block (klog s) ! i"

definition over :: "bytes \<Rightarrow> bytes \<Rightarrow> bytes" where
  "over src dst = blit dst 0 src 0 BSIZE"

lemma write_log_one_ok:
  assumes ok: "bio_ok s" and dev: "l_dev (klog s) = ROOTDEV" and ne: "lblk s i \<noteq> home s i"
    and rl: "reads (lblk s i) s" and rh: "reads (home s i) s" and pin: "refs s (home s i) \<noteq> 0"
  defines "x \<equiv> over (blk s (home s i)) (blk s (lblk s i))"
  shows "\<exists>s'. write_log_one i s = Inr s' \<and> bio_ok s' \<and> bio_frame s s' \<and> blk s' = (blk s)(lblk s i := x) \<and>
    refs s' = refs s \<and> lkd s' = lkd s \<and> disk s' = (disk s)(lblk s i := x) \<and>
    wtrace s' = wtrace s @ [(lblk s i, x)]"
proof -
  let ?l = "lblk s i" and ?h = "home s i" and ?g = "over (blk s (home s i))"
  have h: "lkd s ?h = None" "refs s ?h + 1 \<noteq> 0" "refs s ?h \<noteq> 0 \<or> card (busy s) + 1 < NBUF"
    and l: "lkd s ?l = None" "refs s ?l + 1 \<noteq> 0" using rh rl pin by (auto simp: reads_def)
  obtain bt s1 bf s2 where r: "bread ROOTDEV ?l s = Inr (bt, s1)" "bread ROOTDEV ?h s1 = Inr (bf, s2)"
    "klog s1 = klog s" "bc_inv s2" "bio_ctx s2" "mypid s2 = mypid s" "bio_frame s s2"
    "owner s2 ?l = Some bt" "owner s2 ?h = Some bf" "blk s2 = blk s"
    "refs s2 = (refs s)(?l := refs s ?l + 1, ?h := refs s ?h + 1)"
    "lkd s2 = (lkd s)(?l := Some (mypid s), ?h := Some (mypid s))" "disk s2 = disk s" "wtrace s2 = wtrace s"
    by (rule bread2_step[OF ok rl ne h], rule that)
  have c: "lkd s2 ?l = Some (mypid s2)" "refs s2 ?l \<noteq> 0" using ne l by (simp_all add: r(6,11,12))
  obtain s3 where w: "bwrite bt (bset bt ?g s2) = Inr s3" "bc_inv s3" "bio_ctx s3" "mypid s3 = mypid s2"
    "bio_frame s2 s3" "owner s3 = owner s2" "blk s3 = (blk s2)(?l := ?g (blk s2 ?l))" "refs s3 = refs s2"
    "lkd s3 = lkd s2" "disk s3 = (disk s2)(?l := ?g (blk s2 ?l))" "wtrace s3 = wtrace s2 @ [(?l, ?g (blk s2 ?l))]"
    by (rule bput_step[OF r(4,5,8) c], rule that)
  have d: "owner s3 ?h = Some bf" "owner s3 ?l = Some bt" "lkd s3 ?h = Some (mypid s3)" "lkd s3 ?l = Some (mypid s3)"
    "refs s3 ?h = 1 \<longrightarrow> blk s3 ?h = disk s3 ?h" "refs s3 ?l = 1 \<longrightarrow> blk s3 ?l = disk s3 ?l"
    using r(8,9) ne pin by (simp_all add: w(4,6-10) r(6,10-13))
  obtain s4 s5 where e: "brelse bf s3 = Inr s4" "brelse bt s4 = Inr s5" "bc_inv s5" "bio_ctx s5" "bio_frame s3 s5"
    "blk s5 = blk s3" "refs s5 = (refs s3)(?h := refs s3 ?h - 1, ?l := refs s3 ?l - 1)"
    "lkd s5 = (lkd s3)(?h := None, ?l := None)" "disk s5 = disk s3" "wtrace s5 = wtrace s3"
    by (rule brelse2_step[OF w(2,3) ne[symmetric] d], rule that)
  have refs: "refs s5 = refs s" and lkd: "lkd s5 = lkd s"
    using ne h(1) l(1) by (simp_all add: e(7,8) w(8,9) r(11,12) fun_eq_iff)
  have "settled s5" using ok refs lkd by (simp add: bio_ok_def settled_def)
  moreover have "bio_frame s s5" by (rule bio_frame_trans[OF r(7) bio_frame_trans[OF w(5) e(5)]])
  moreover have "write_log_one i s = Inr s5"
    using dev by (simp add: write_log_one_def lblk_def[symmetric] r(1-3) w(1) e(1,2) owner_fields(2)[OF r(9)] r(10) over_def[symmetric]
      del: of_int_add)
  moreover have "blk s5 = (blk s)(?l := x)" "disk s5 = (disk s)(?l := x)" "wtrace s5 = wtrace s @ [(?l, x)]"
    by (simp_all add: x_def e(6,9,10) w(7,10,11) r(10,13,14))
  ultimately show ?thesis using refs lkd e(3,4) unfolding bio_ok_def by blast
qed

lemma bunpin_step:
  assumes "bc_inv s" "bio_ctx s" "owner s n = Some b" "refs s n = 1 \<longrightarrow> blk s n = disk s n"
  obtains s' where "bunpin b s = Inr s'" "bc_inv s'" "bio_ctx s'" "mypid s' = mypid s" "bio_frame s s'"
    "owner s' = owner s" "blk s' = blk s" "refs s' = (refs s)(n := refs s n - 1)" "lkd s' = lkd s"
    "disk s' = disk s" "wtrace s' = wtrace s"
proof -
  have "BcacheLk \<notin> held s" using assms(2) by (simp add: bio_ctx_def)
  then obtain s' where b: "bunpin b s = Inr s'" and eq: "s' = s\<lparr>bufs := bufs s'\<rparr>" and q: "bc_inv s'"
      "owner s' = owner s" "blk s' = blk s" "refs s' = (refs s)(n := refs s n - 1)" "lkd s' = lkd s"
    using bunpin_ok assms by blast
  have fr: "bio_frame s s'" using eq by (rule bio_frame_bufs)
  have d: "disk s' = disk s" "wtrace s' = wtrace s" by (subst eq, simp)+
  show ?thesis by (rule that[OF b q(1) bio_frame_ctx[OF fr assms(2)] fr q(2-5) d])
qed

text \<open>
  Installing a block drops one reference to its home block: the pin \<open>log_write\<close> took. During
  recovery there was no pin.
\<close>

lemma install_one_ok:
  assumes ok: "bio_ok s" and dev: "l_dev (klog s) = ROOTDEV" and ne: "lblk s i \<noteq> home s i"
    and rl: "reads (lblk s i) s" and h: "lkd s (home s i) = None" "refs s (home s i) + 1 \<noteq> 0"
    "refs s (home s i) \<noteq> 0 \<or> card (busy s) + 1 < NBUF"
  defines "x \<equiv> over (blk s (lblk s i)) (blk s (home s i))"
  shows "\<exists>s'. install_one i s = Inr s' \<and> bio_ok s' \<and> bio_frame s s' \<and> blk s' = (blk s)(home s i := x) \<and>
    refs s' = (refs s)(home s i := refs s (home s i) - 1) \<and> lkd s' = lkd s \<and>
    disk s' = (disk s)(home s i := x) \<and> wtrace s' = wtrace s @ [(home s i, x)]"
proof -
  let ?l = "lblk s i" and ?h = "home s i" and ?g = "over (blk s (lblk s i))"
  have l: "lkd s ?l = None" "refs s ?l + 1 \<noteq> 0" using rl by (auto simp: reads_def)
  have clean: "refs s ?l = 0 \<Longrightarrow> blk s ?l = disk s ?l"
    using ok owner_buf_ok(2)[of s ?l] by (cases "owner s ?l") (auto simp: bio_ok_def blk_def)
  obtain bl s1 bd s2 where r: "bread ROOTDEV ?l s = Inr (bl, s1)" "bread ROOTDEV ?h s1 = Inr (bd, s2)"
    "klog s1 = klog s" "bc_inv s2" "bio_ctx s2" "mypid s2 = mypid s" "bio_frame s s2"
    "owner s2 ?l = Some bl" "owner s2 ?h = Some bd" "blk s2 = blk s"
    "refs s2 = (refs s)(?l := refs s ?l + 1, ?h := refs s ?h + 1)"
    "lkd s2 = (lkd s)(?l := Some (mypid s), ?h := Some (mypid s))" "disk s2 = disk s" "wtrace s2 = wtrace s"
    by (rule bread2_step[OF ok rl ne h], rule that)
  have c: "lkd s2 ?h = Some (mypid s2)" "refs s2 ?h \<noteq> 0" using h by (simp_all add: r(6,11,12))
  obtain s3 where w: "bwrite bd (bset bd ?g s2) = Inr s3" "bc_inv s3" "bio_ctx s3" "mypid s3 = mypid s2"
    "bio_frame s2 s3" "owner s3 = owner s2" "blk s3 = (blk s2)(?h := ?g (blk s2 ?h))" "refs s3 = refs s2"
    "lkd s3 = lkd s2" "disk s3 = (disk s2)(?h := ?g (blk s2 ?h))" "wtrace s3 = wtrace s2 @ [(?h, ?g (blk s2 ?h))]"
    by (rule bput_step[OF r(4,5,9) c], rule that)
  have p: "owner s3 ?h = Some bd" "refs s3 ?h = 1 \<longrightarrow> blk s3 ?h = disk s3 ?h"
    using r(9) by (simp_all add: w(6,7,10))
  obtain s4 where u: "bunpin bd s3 = Inr s4" "bc_inv s4" "bio_ctx s4" "mypid s4 = mypid s3" "bio_frame s3 s4"
    "owner s4 = owner s3" "blk s4 = blk s3" "refs s4 = (refs s3)(?h := refs s3 ?h - 1)" "lkd s4 = lkd s3"
    "disk s4 = disk s3" "wtrace s4 = wtrace s3"
    by (rule bunpin_step[OF w(2,3) p], rule that)
  have d: "owner s4 ?l = Some bl" "owner s4 ?h = Some bd" "lkd s4 ?l = Some (mypid s4)" "lkd s4 ?h = Some (mypid s4)"
    "refs s4 ?l = 1 \<longrightarrow> blk s4 ?l = disk s4 ?l" "refs s4 ?h = 1 \<longrightarrow> blk s4 ?h = disk s4 ?h"
    using r(8,9) ne clean by (simp_all add: u(4,6-10) w(4,6-10) r(6,10-13))
  obtain s5 s6 where e: "brelse bl s4 = Inr s5" "brelse bd s5 = Inr s6" "bc_inv s6" "bio_ctx s6" "bio_frame s4 s6"
    "blk s6 = blk s4" "refs s6 = (refs s4)(?l := refs s4 ?l - 1, ?h := refs s4 ?h - 1)"
    "lkd s6 = (lkd s4)(?l := None, ?h := None)" "disk s6 = disk s4" "wtrace s6 = wtrace s4"
    by (rule brelse2_step[OF u(2,3) ne d], rule that)
  have refs: "refs s6 = (refs s)(?h := refs s ?h - 1)" and lkd: "lkd s6 = lkd s"
    using ne h(1) l(1) by (simp_all add: e(7,8) u(8,9) w(8,9) r(11,12) fun_eq_iff)
  have "settled s6" using ok refs lkd h(1) by (simp add: bio_ok_def settled_def)
  moreover have "bio_frame s s6"
    by (rule bio_frame_trans[OF r(7) bio_frame_trans[OF w(5) bio_frame_trans[OF u(5) e(5)]]])
  moreover have "install_one i s = Inr s6"
    using dev by (simp add: install_one_def lblk_def[symmetric] r(1-3) w(1) u(1) e(1,2) owner_fields(2)[OF r(8)] r(10) over_def[symmetric]
      del: of_int_add)
  moreover have "blk s6 = (blk s)(?h := x)" "disk s6 = (disk s)(?h := x)" "wtrace s6 = wtrace s @ [(?h, x)]"
    by (simp_all add: x_def e(6,9,10) u(7,10,11) w(7,10,11) r(10,13,14))
  ultimately show ?thesis using refs lkd e(3,4) unfolding bio_ok_def by blast
qed

section \<open>The log header\<close>

definition head_bytes :: "logst \<Rightarrow> bytes \<Rightarrow> bytes" where
  "head_bytes l d = fold (\<lambda>i d. store32 d (4 + 4 * i) (l_block l ! i)) [0..<nat (l_n l)]
     (store32 d 0 (of_int (l_n l)))"

lemma bset_bset: "bset b f (bset b g s) = bset b (\<lambda>d. f (g d)) s"
  by (simp add: bset_def)

lemma klog_bset [simp]: "klog (bset b g s) = klog s"
  by (simp add: bset_def upd_buf_def)

lemma fold_bset:
  "fold (\<lambda>i s. bset b (\<lambda>d. store32 d (4 + 4 * i) (l_block (klog s) ! i)) s) xs (bset b g s)
     = bset b (\<lambda>d. fold (\<lambda>i d. store32 d (4 + 4 * i) (l_block (klog s) ! i)) xs (g d)) s"
  by (induction xs arbitrary: g) (simp_all add: bset_bset)

lemma write_head_ok:
  assumes ok: "bio_ok s" and dev: "l_dev (klog s) = ROOTDEV" and rd: "reads (lhdr s) s"
  defines "x \<equiv> head_bytes (klog s) (blk s (lhdr s))"
  shows "\<exists>s'. write_head s = Inr s' \<and> bio_ok s' \<and> bio_frame s s' \<and> blk s' = (blk s)(lhdr s := x) \<and>
    refs s' = refs s \<and> lkd s' = lkd s \<and> disk s' = (disk s)(lhdr s := x) \<and> wtrace s' = wtrace s @ [(lhdr s, x)]"
proof -
  let ?h = "lhdr s" and ?g = "head_bytes (klog s)"
  have h: "lkd s ?h = None" "refs s ?h + 1 \<noteq> 0" using rd by (auto simp: reads_def)
  obtain b s1 where r: "bread ROOTDEV ?h s = Inr (b, s1)" "bio_ok s1" "bio_frame s s1" "owner s1 ?h = Some b"
    "blk s1 = blk s" "refs s1 = (refs s)(?h := refs s ?h + 1)" "lkd s1 = (lkd s)(?h := Some (mypid s))"
    "disk s1 = disk s" "wtrace s1 = wtrace s" "b_data (bufs s1 ! b) = blk s ?h"
    "\<forall>k c. owner s k = Some c \<longrightarrow> refs s k \<noteq> 0 \<longrightarrow> owner s1 k = Some c"
    by (rule bread_step[OF ok rd], rule that)
  have k: "klog s1 = klog s" "mypid s1 = mypid s" and i1: "bc_inv s1" "bio_ctx s1"
    using bio_frame_fields[OF r(3)] bio_frame_ctx[OF r(3)] ok r(2) by (auto simp: bio_ok_def)
  have c: "lkd s1 ?h = Some (mypid s1)" "refs s1 ?h \<noteq> 0" using h by (simp_all add: r(6,7) k)
  obtain s2 where w: "bwrite b (bset b ?g s1) = Inr s2" "bc_inv s2" "bio_ctx s2" "mypid s2 = mypid s1"
    "bio_frame s1 s2" "owner s2 = owner s1" "blk s2 = (blk s1)(?h := ?g (blk s1 ?h))" "refs s2 = refs s1"
    "lkd s2 = lkd s1" "disk s2 = (disk s1)(?h := ?g (blk s1 ?h))" "wtrace s2 = wtrace s1 @ [(?h, ?g (blk s1 ?h))]"
    by (rule bput_step[OF i1 r(4) c], rule that)
  have d: "owner s2 ?h = Some b" "lkd s2 ?h = Some (mypid s2)" and u: "blk s2 ?h = disk s2 ?h"
    using r(4) c by (simp_all add: w(4,6,7,9,10))
  obtain s3 where e: "brelse b s2 = Inr s3" "bc_inv s3" "bio_ctx s3" "mypid s3 = mypid s2" "bio_frame s2 s3"
    "owner s3 = owner s2" "blk s3 = blk s2" "refs s3 = (refs s2)(?h := refs s2 ?h - 1)"
    "lkd s3 = (lkd s2)(?h := None)" "disk s3 = disk s2" "wtrace s3 = wtrace s2"
    by (rule brelse_step[OF w(2,3) d], use u in simp, rule that)
  have refs: "refs s3 = refs s" and lkd: "lkd s3 = lkd s"
    using h(1) by (simp_all add: e(8,9) w(8,9) r(6,7) fun_eq_iff)
  have "settled s3" using ok refs lkd by (simp add: bio_ok_def settled_def)
  moreover have "bio_frame s s3" by (rule bio_frame_trans[OF r(3) bio_frame_trans[OF w(5) e(5)]])
  moreover have "write_head s = Inr s3"
    using w(1) e(1) by (simp add: write_head_def dev r(1) Let_def fold_bset k head_bytes_def[abs_def])
  moreover have "blk s3 = (blk s)(?h := x)" "disk s3 = (disk s)(?h := x)" "wtrace s3 = wtrace s @ [(?h, x)]"
    by (simp_all add: x_def e(7,10,11) w(7,10,11) r(5,8,9))
  ultimately show ?thesis using refs lkd e(2,3) unfolding bio_ok_def by blast
qed

lemma upd_log_view [simp]:
  "blk (upd_log f s) = blk s" "refs (upd_log f s) = refs s" "lkd (upd_log f s) = lkd s" "disk (upd_log f s) = disk s"
  "wtrace (upd_log f s) = wtrace s" "klog (upd_log f s) = f (klog s)" "bio_ok (upd_log f s) = bio_ok s"
  "reads n (upd_log f s) = reads n s" "busy (upd_log f s) = busy s" "owner (upd_log f s) = owner s"
  "bc_inv (upd_log f s) = bc_inv s" "bio_ctx (upd_log f s) = bio_ctx s" "mypid (upd_log f s) = mypid s"
proof -
  have v: "bufs (upd_log f s) = bufs s" "disk (upd_log f s) = disk s" by (simp_all add: upd_log_def)
  note c = view_cong[OF v]
  show "blk (upd_log f s) = blk s" "refs (upd_log f s) = refs s" "lkd (upd_log f s) = lkd s"
    "busy (upd_log f s) = busy s" "owner (upd_log f s) = owner s" "bc_inv (upd_log f s) = bc_inv s" by (fact c)+
  show x: "bio_ctx (upd_log f s) = bio_ctx s" by (simp add: bio_ctx_def upd_log_def no_proc_lock_def procs_ok_def)
  show "bio_ok (upd_log f s) = bio_ok s" by (simp add: bio_ok_def c x)
  show "reads n (upd_log f s) = reads n s" by (simp add: reads_def c)
qed (simp_all add: upd_log_def mypid_def)

text \<open>The in-memory header after reading the block \<open>d\<close>.\<close>

definition read_header :: "bytes \<Rightarrow> logst \<Rightarrow> logst" where
  "read_header d l = l\<lparr>l_n := sint (load32 d 0),
     l_block := map (\<lambda>i. if i < nat (sint (load32 d 0)) then load32 d (4 + 4 * i) else l_block l ! i)
       [0..<length (l_block l)]\<rparr>"

lemma read_blocks:
  assumes "k \<le> length bl"
  shows "fold (\<lambda>i bl. bl[i := f i]) [0..<k] bl = map (\<lambda>i. if i < k then f i else bl ! i) [0..<length bl]"
  using assms
proof (induction k)
  case 0
  then show ?case by (simp add: map_nth)
next
  case (Suc k)
  have "(map (\<lambda>i. if i < k then f i else bl ! i) [0..<length bl])[k := f k] =
      map (\<lambda>i. if i < Suc k then f i else bl ! i) [0..<length bl]"
    by (rule nth_equalityI) (auto simp: nth_list_update less_Suc_eq)
  then show ?case using Suc by simp
qed

lemma read_head_loop:
  assumes "k \<le> LOGSIZE"
  shows "foldE (\<lambda>i s. if i < LOGSIZE
      then Inr (upd_log (\<lambda>l. l\<lparr>l_block := (l_block l)[i := f i]\<rparr>) s) else Inl Fault) [0..<k] s
    = Inr (upd_log (\<lambda>l. l\<lparr>l_block := fold (\<lambda>i bl. bl[i := f i]) [0..<k] (l_block l)\<rparr>) s)"
  using assms
proof (induction k)
  case 0
  then show ?case by (simp add: upd_log_def)
next
  case (Suc k)
  then show ?case by (simp add: foldE_append upd_log_def)
qed

lemma unused_clean: "bio_ok s \<Longrightarrow> refs s n = 0 \<Longrightarrow> blk s n = disk s n"
  using owner_buf_ok(2)[of s n] by (cases "owner s n") (auto simp: bio_ok_def blk_def)

lemma bio_frame_upd_log:
  assumes "bio_frame s s'"
  shows "bio_frame (upd_log f s) (upd_log f s')"
proof -
  obtain B P D W where "woken (procs s) P" "s' = s\<lparr>bufs := B, procs := P, disk := D, wtrace := W\<rparr>"
    using assms by (auto simp: bio_frame_def)
  then have "upd_log f s' = upd_log f s\<lparr>bufs := B, procs := P, disk := D, wtrace := W\<rparr>" "woken (procs (upd_log f s)) P"
    by (cases s, simp add: upd_log_def)+
  then show ?thesis unfolding bio_frame_def by blast
qed

lemma read_head_ok:
  assumes ok: "bio_ok s" and dev: "l_dev (klog s) = ROOTDEV" and rd: "reads (lhdr s) s"
    and n: "sint (load32 (blk s (lhdr s)) 0) \<le> int LOGSIZE" and len: "length (l_block (klog s)) = LOGSIZE"
  shows "\<exists>s'. read_head s = Inr s' \<and> bio_ok s' \<and> bio_frame (upd_log (read_header (blk s (lhdr s))) s) s' \<and>
    blk s' = blk s \<and> refs s' = refs s \<and> lkd s' = lkd s \<and> disk s' = disk s \<and> wtrace s' = wtrace s"
proof -
  let ?h = "lhdr s" and ?d = "blk s (lhdr s)" and ?u = "upd_log (read_header (blk s (lhdr s)))"
  have h: "lkd s ?h = None" "refs s ?h + 1 \<noteq> 0" using rd by (auto simp: reads_def)
  obtain b s1 where r: "bread ROOTDEV ?h s = Inr (b, s1)" "bio_ok s1" "bio_frame s s1" "owner s1 ?h = Some b"
    "blk s1 = blk s" "refs s1 = (refs s)(?h := refs s ?h + 1)" "lkd s1 = (lkd s)(?h := Some (mypid s))"
    "disk s1 = disk s" "wtrace s1 = wtrace s" "b_data (bufs s1 ! b) = ?d"
    "\<forall>k c. owner s k = Some c \<longrightarrow> refs s k \<noteq> 0 \<longrightarrow> owner s1 k = Some c"
    by (rule bread_step[OF ok rd], rule that)
  have k: "klog s1 = klog s" "mypid s1 = mypid s" and i1: "bc_inv (?u s1)" "bio_ctx (?u s1)"
    using bio_frame_fields[OF r(3)] bio_frame_ctx[OF r(3)] ok r(2) by (auto simp: bio_ok_def)
  have c: "owner (?u s1) ?h = Some b" "lkd (?u s1) ?h = Some (mypid (?u s1))" and u: "refs s1 ?h = 1 \<Longrightarrow> ?d = disk s ?h"
    using r(4) k unused_clean[OF ok, of ?h] by (simp_all add: r(6,7))
  obtain s2 where e: "brelse b (?u s1) = Inr s2" "bc_inv s2" "bio_ctx s2" "mypid s2 = mypid (?u s1)"
    "bio_frame (?u s1) s2" "owner s2 = owner (?u s1)" "blk s2 = blk (?u s1)"
    "refs s2 = (refs (?u s1))(?h := refs (?u s1) ?h - 1)"
    "lkd s2 = (lkd (?u s1))(?h := None)" "disk s2 = disk (?u s1)" "wtrace s2 = wtrace (?u s1)"
    by (rule brelse_step[OF i1 c], use u r(5,8) in simp, rule that)
  have refs: "refs s2 = refs s" and lkd: "lkd s2 = lkd s" using h(1) by (simp_all add: e(8,9) r(6,7) fun_eq_iff)
  have st: "settled s2" using ok refs lkd by (simp add: bio_ok_def settled_def)
  have "bio_frame (?u s) (?u s1)" using r(3) by (rule bio_frame_upd_log)
  then have fr: "bio_frame (?u s) s2" using e(5) by (rule bio_frame_trans)
  have kn: "nat (sint (load32 ?d 0)) \<le> LOGSIZE" using n by simp
  have eq: "upd_log (\<lambda>l. l\<lparr>l_block := fold (\<lambda>i bl. bl[i := load32 ?d (4 + 4 * i)]) [0..<nat (sint (load32 ?d 0))] (l_block l)\<rparr>)
      (upd_log (\<lambda>l. l\<lparr>l_n := sint (load32 ?d 0)\<rparr>) s1) = ?u s1"
    using kn len by (simp add: upd_log_def read_header_def read_blocks k)
  have rh: "read_head s = Inr s2"
    using e(1) by (simp add: read_head_def dev r(1) Let_def r(10) read_head_loop[OF kn] eq)
  have x: "blk s2 = blk s" "disk s2 = disk s" "wtrace s2 = wtrace s" by (simp_all add: e(7,10,11) r(5,8,9))
  show ?thesis using rh refs lkd st e(2,3) x fr unfolding bio_ok_def by blast
qed

end
