(* ===== verification/Log_Safety.thy ===== *)
theory Log_Safety
  imports Log_Steps
begin

text \<open>
  What the log guarantees: the disk writes of \<open>commit\<close> in their order, what \<open>recover_from_log\<close>
  makes of a disk, and that recovery after a crash at any point of a commit finds either all of
  the transaction's blocks or none of them.
\<close>

section \<open>Sequences of disk writes\<close>

definition apply_writes :: "(u32 \<times> bytes) list \<Rightarrow> (u32 \<Rightarrow> bytes) \<Rightarrow> u32 \<Rightarrow> bytes" where
  "apply_writes ws d = fold (\<lambda>(n, x) d. d(n := x)) ws d"

lemma apply_writes_simps [simp]:
  "apply_writes [] d = d" "apply_writes (ws @ vs) d = apply_writes vs (apply_writes ws d)"
  "apply_writes ((n, x) # ws) d = apply_writes ws (d(n := x))"
  by (simp_all add: apply_writes_def)

lemma apply_writes_snoc: "apply_writes (ws @ [(n, x)]) d = (apply_writes ws d)(n := x)"
  by simp

lemma apply_writes_other: "n \<notin> fst ` set ws \<Longrightarrow> apply_writes ws d n = d n"
  by (induction ws arbitrary: d) auto

lemma apply_writes_at:
  "(n, x) \<in> set ws \<Longrightarrow> distinct (map fst ws) \<Longrightarrow> apply_writes ws d n = x"
proof (induction ws arbitrary: d)
  case (Cons w ws)
  show ?case
  proof (cases "w = (n, x)")
    case True
    then have "n \<notin> fst ` set ws" using Cons.prems by auto
    then show ?thesis using True by (simp add: apply_writes_other)
  next
    case False
    then show ?thesis using Cons by (cases w) auto
  qed
qed simp

section \<open>The loops\<close>

text \<open>The blocks a logged transaction touches: the log blocks and the home blocks, all different.\<close>

definition log_region :: "kernel \<Rightarrow> u32 set" where
  "log_region s = insert (lhdr s) (lblk s ` {..<LOGSIZE})"

definition log_layout :: "nat \<Rightarrow> kernel \<Rightarrow> bool" where
  "log_layout k s \<longleftrightarrow> l_dev (klog s) = ROOTDEV \<and> length (l_block (klog s)) = LOGSIZE \<and> k \<le> LOGSIZE \<and>
     0 \<le> l_start (klog s) \<and> l_start (klog s) + int LOGSIZE < 2 ^ 31 \<and>
     inj_on (home s) {..<k} \<and> home s ` {..<k} \<inter> log_region s = {}"

lemma of_int_u32_eq:
  "0 \<le> a \<Longrightarrow> a < 4294967296 \<Longrightarrow> 0 \<le> b \<Longrightarrow> b < 4294967296 \<Longrightarrow> (of_int a :: u32) = of_int b \<longleftrightarrow> a = b"
  by (simp add: word_of_int_eq_iff take_bit_int_eq_self_iff take_bit_int_eq_self)

lemma log_layoutD:
  assumes "log_layout k s"
  shows "l_dev (klog s) = ROOTDEV" "length (l_block (klog s)) = LOGSIZE" "k \<le> LOGSIZE"
    "i < k \<Longrightarrow> j < k \<Longrightarrow> home s i = home s j \<Longrightarrow> i = j"
    "i < LOGSIZE \<Longrightarrow> j < LOGSIZE \<Longrightarrow> lblk s i = lblk s j \<Longrightarrow> i = j"
    "i < k \<Longrightarrow> j < LOGSIZE \<Longrightarrow> home s i \<noteq> lblk s j" "i < k \<Longrightarrow> home s i \<noteq> lhdr s" "i < LOGSIZE \<Longrightarrow> lblk s i \<noteq> lhdr s"
proof -
  note d = assms[unfolded log_layout_def]
  show "l_dev (klog s) = ROOTDEV" "length (l_block (klog s)) = LOGSIZE" "k \<le> LOGSIZE" using d by blast+
  show "i < k \<Longrightarrow> j < k \<Longrightarrow> home s i = home s j \<Longrightarrow> i = j" using d by (auto dest: inj_onD)
  show "i < k \<Longrightarrow> j < LOGSIZE \<Longrightarrow> home s i \<noteq> lblk s j" "i < k \<Longrightarrow> home s i \<noteq> lhdr s"
    using d unfolding log_region_def by blast+
  have r: "0 \<le> l_start (klog s)" "l_start (klog s) + int LOGSIZE < 2 ^ 31" using d by blast+
  have L: "l_start (klog s) + int LOGSIZE < 2147483648" using r(2) by simp
  show "i = j" if "i < LOGSIZE" "j < LOGSIZE" "lblk s i = lblk s j"
  proof -
    have "lblk s i = lblk s j \<longleftrightarrow> l_start (klog s) + int i + 1 = l_start (klog s) + int j + 1"
      unfolding lblk_def by (rule of_int_u32_eq) (use r(1) L that(1,2) in linarith)+
    then show ?thesis using that(3) by linarith
  qed
  show "lblk s i \<noteq> lhdr s" if "i < LOGSIZE"
  proof -
    have "lblk s i = lhdr s \<longleftrightarrow> l_start (klog s) + int i + 1 = l_start (klog s)"
      unfolding lblk_def by (rule of_int_u32_eq) (use r(1) L that in linarith)+
    then show ?thesis by linarith
  qed
qed

definition log_writes :: "kernel \<Rightarrow> nat \<Rightarrow> (u32 \<times> bytes) list" where
  "log_writes s k = map (\<lambda>i. (lblk s i, over (blk s (home s i)) (blk s (lblk s i)))) [0..<k]"

definition install_writes :: "kernel \<Rightarrow> nat \<Rightarrow> (u32 \<times> bytes) list" where
  "install_writes s k = map (\<lambda>i. (home s i, over (blk s (lblk s i)) (blk s (home s i)))) [0..<k]"

lemma log_writes_simps [simp]:
  "log_writes s 0 = []" "length (log_writes s k) = k" "fst ` set (log_writes s k) = lblk s ` {..<k}"
  "log_writes s (Suc k) = log_writes s k @ [(lblk s k, over (blk s (home s k)) (blk s (lblk s k)))]"
  by (simp_all add: log_writes_def image_image lessThan_atLeast0 del: of_int_add)

lemma install_writes_simps [simp]:
  "install_writes s 0 = []" "length (install_writes s k) = k" "fst ` set (install_writes s k) = home s ` {..<k}"
  "install_writes s (Suc k) = install_writes s k @ [(home s k, over (blk s (lblk s k)) (blk s (home s k)))]"
  by (simp_all add: install_writes_def image_image lessThan_atLeast0 del: of_int_add)

lemma lblk_fresh:
  assumes "log_layout n s" "k \<le> i" "i < LOGSIZE"
  shows "lblk s i \<notin> lblk s ` {..<k}"
proof
  assume "lblk s i \<in> lblk s ` {..<k}"
  then obtain j where j: "j < k" "lblk s i = lblk s j" by blast
  have b: "j < LOGSIZE" using j(1) assms(2,3) by simp
  have "i = j" by (rule log_layoutD(5)[OF assms(1,3) b j(2)])
  then show False using j(1) assms(2) by simp
qed

lemma log_fresh:
  assumes "log_layout n s" "i < n" "k \<le> n"
  shows "home s i \<notin> lblk s ` {..<k}" "lblk s i \<notin> home s ` {..<k}" "lhdr s \<notin> lblk s ` {..<k}" "lhdr s \<notin> home s ` {..<k}"
proof -
  note L = log_layoutD[OF assms(1)]
  have k: "j < LOGSIZE" if "j < k" for j using that assms(3) L(3) by linarith
  have i: "i < LOGSIZE" using assms(2) L(3) by linarith
  have n: "j < n" if "j < k" for j using that assms(3) by linarith
  show "home s i \<notin> lblk s ` {..<k}" using L(6)[OF assms(2) k] by blast
  show "lblk s i \<notin> home s ` {..<k}" using L(6)[OF n i] by fastforce
  show "lhdr s \<notin> lblk s ` {..<k}" using L(8)[OF k] by fastforce
  show "lhdr s \<notin> home s ` {..<k}" using L(7)[OF n] by fastforce
qed

lemma home_fresh:
  assumes "log_layout n s" "k \<le> i" "i < n"
  shows "home s i \<notin> home s ` {..<k}"
proof
  assume "home s i \<in> home s ` {..<k}"
  then obtain j where j: "j < k" "home s i = home s j" by blast
  have "i = j" by (rule log_layoutD(4)[OF assms(1,3) _ j(2)]) (use j(1) assms(2,3) in linarith)
  then show False using j(1) assms(2) by simp
qed

lemma reads_cong: "refs s' = refs s \<Longrightarrow> lkd s' = lkd s \<Longrightarrow> reads n s' = reads n s"
  by (simp add: reads_def busy_def)

lemma write_log_ok:
  assumes ok: "bio_ok s" and lay: "log_layout n s"
    and rd: "\<forall>i<n. reads (lblk s i) s \<and> reads (home s i) s \<and> refs s (home s i) \<noteq> 0"
  shows "k \<le> n \<Longrightarrow> \<exists>s'. foldE write_log_one [0..<k] s = Inr s' \<and> bio_ok s' \<and> bio_frame s s' \<and>
    blk s' = apply_writes (log_writes s k) (blk s) \<and> refs s' = refs s \<and> lkd s' = lkd s \<and>
    disk s' = apply_writes (log_writes s k) (disk s) \<and> wtrace s' = wtrace s @ log_writes s k"
proof (induction k)
  case 0
  then show ?case using ok bio_frame_refl by simp
next
  case (Suc k)
  note L = log_layoutD[OF lay]
  obtain t where t: "foldE write_log_one [0..<k] s = Inr t" "bio_ok t" "bio_frame s t"
    "blk t = apply_writes (log_writes s k) (blk s)" "refs t = refs s" "lkd t = lkd s"
    "disk t = apply_writes (log_writes s k) (disk s)" "wtrace t = wtrace s @ log_writes s k"
    using Suc by auto
  have k: "klog t = klog s" and kl: "lblk t = lblk s" using bio_frame_fields[OF t(3)] by (simp_all add: lblk_def fun_eq_iff)
  have k': "k < n" "k < LOGSIZE" using Suc(2) L(3) by auto
  have same: "blk t (home s k) = blk s (home s k)" "blk t (lblk s k) = blk s (lblk s k)"
    unfolding t(4) using log_fresh[OF lay k'(1), of k] lblk_fresh[OF lay order.refl k'(2)] k'
    by (simp_all add: apply_writes_other)
  have "lblk t k \<noteq> home t k" "reads (lblk t k) t" "reads (home t k) t" "refs t (home t k) \<noteq> 0"
    using rd k' L(6)[of k k] unfolding kl k t(5) reads_cong[OF t(5,6)] by auto
  from write_log_one_ok[OF t(2) _ this] obtain u where u: "write_log_one k t = Inr u" "bio_ok u" "bio_frame t u"
    "blk u = (blk t)(lblk s k := over (blk s (home s k)) (blk s (lblk s k)))" "refs u = refs t" "lkd u = lkd t"
    "disk u = (disk t)(lblk s k := over (blk s (home s k)) (blk s (lblk s k)))"
    "wtrace u = wtrace t @ [(lblk s k, over (blk s (home s k)) (blk s (lblk s k)))]"
    using L(1) unfolding kl k same by auto
  have "foldE write_log_one [0..<Suc k] s = Inr u" using t(1) u(1) by (simp add: foldE_append)
  then show ?case using u t bio_frame_trans[OF t(3) u(3)] by (simp add: fun_upd_def)
qed

text \<open>
  Installing: every home block gives up one reference. The room the cache must have covers both
  uses, a commit (the home blocks are pinned) and recovery (they are not, and stay behind with a
  count of \<open>2 ^ 32 - 1\<close>).
\<close>

definition unpinned :: "(u32 \<Rightarrow> u32) \<Rightarrow> u32 set \<Rightarrow> u32 \<Rightarrow> u32" where
  "unpinned r H n = (if n \<in> H then r n - 1 else r n)"

definition install_room :: "nat \<Rightarrow> kernel \<Rightarrow> bool" where
  "install_room n s \<longleftrightarrow>
     (\<forall>i<n. refs s (lblk s i) = 0 \<and> lkd s (lblk s i) = None \<and> lkd s (home s i) = None \<and> refs s (home s i) + 1 \<noteq> 0 \<and>
       card (busy s \<union> home s ` {..<i}) + (if refs s (home s i) = 0 then 1 else 0) < NBUF)"

lemma busy_unpinned: "refs t = unpinned (refs s) H \<Longrightarrow> busy t \<subseteq> busy s \<union> H"
  by (auto simp: busy_def unpinned_def)

lemma install_reads:
  assumes lay: "log_layout n s" and room: "install_room n s" and i: "k < n"
    and t: "refs t = unpinned (refs s) (home s ` {..<k})" "lkd t = lkd s" "lblk t = lblk s" "klog t = klog s"
  shows "reads (lblk t k) t" "lkd t (home t k) = None" "refs t (home t k) + 1 \<noteq> 0"
    "refs t (home t k) \<noteq> 0 \<or> card (busy t) + 1 < NBUF"
proof -
  note R = room[unfolded install_room_def, rule_format, OF i]
  have f: "home s k \<notin> home s ` {..<k}" "lblk s k \<notin> home s ` {..<k}"
    using home_fresh[OF lay order.refl i] log_fresh(2)[OF lay i, of k] i by auto
  have c: "card (busy t) \<le> card (busy s \<union> home s ` {..<k})" by (rule card_mono[OF finite busy_unpinned[OF t(1)]])
  have r: "refs t (home s k) = refs s (home s k)" "refs t (lblk s k) = 0"
    using f R by (simp_all add: t(1) unpinned_def)
  show "reads (lblk t k) t" using R c r(2) unfolding reads_def t(2,3) by (auto split: if_splits)
  show "lkd t (home t k) = None" "refs t (home t k) + 1 \<noteq> 0" using R r(1) by (simp_all add: t(2,4))
  show "refs t (home t k) \<noteq> 0 \<or> card (busy t) + 1 < NBUF" using R c r(1) unfolding t(4) by (auto split: if_splits)
qed

lemma install_ok:
  assumes ok: "bio_ok s" and lay: "log_layout n s" and room: "install_room n s"
  shows "k \<le> n \<Longrightarrow> \<exists>s'. foldE install_one [0..<k] s = Inr s' \<and> bio_ok s' \<and> bio_frame s s' \<and>
    blk s' = apply_writes (install_writes s k) (blk s) \<and> refs s' = unpinned (refs s) (home s ` {..<k}) \<and> lkd s' = lkd s \<and>
    disk s' = apply_writes (install_writes s k) (disk s) \<and> wtrace s' = wtrace s @ install_writes s k"
proof (induction k)
  case 0
  then show ?case using ok bio_frame_refl by (simp add: unpinned_def[abs_def])
next
  case (Suc k)
  obtain t where t: "foldE install_one [0..<k] s = Inr t" "bio_ok t" "bio_frame s t"
    "blk t = apply_writes (install_writes s k) (blk s)" "refs t = unpinned (refs s) (home s ` {..<k})" "lkd t = lkd s"
    "disk t = apply_writes (install_writes s k) (disk s)" "wtrace t = wtrace s @ install_writes s k"
    using Suc by auto
  have k: "klog t = klog s" and kl: "lblk t = lblk s" using bio_frame_fields[OF t(3)] by (simp_all add: lblk_def fun_eq_iff)
  have k': "k < n" "k < LOGSIZE" using Suc(2) log_layoutD(3)[OF lay] by auto
  have f: "home s k \<notin> home s ` {..<k}" "lblk s k \<notin> home s ` {..<k}" "lblk t k \<noteq> home t k" "l_dev (klog t) = ROOTDEV"
    using home_fresh[OF lay order.refl k'(1)] log_fresh(2)[OF lay k'(1), of k] k' log_layoutD(6)[OF lay k']
      log_layoutD(1)[OF lay] unfolding k kl by auto
  have same: "blk t (home s k) = blk s (home s k)" "blk t (lblk s k) = blk s (lblk s k)"
    unfolding t(4) using f(1,2) by (simp_all add: apply_writes_other)
  note R = install_reads[OF lay room k'(1) t(5,6) kl k]
  from install_one_ok[OF t(2) f(4,3) R] obtain u where u: "install_one k t = Inr u" "bio_ok u" "bio_frame t u"
    "blk u = (blk t)(home s k := over (blk s (lblk s k)) (blk s (home s k)))"
    "refs u = (refs t)(home s k := refs t (home s k) - 1)" "lkd u = lkd t"
    "disk u = (disk t)(home s k := over (blk s (lblk s k)) (blk s (home s k)))"
    "wtrace u = wtrace t @ [(home s k, over (blk s (lblk s k)) (blk s (home s k)))]"
    unfolding kl k same by auto
  have "foldE install_one [0..<Suc k] s = Inr u" using t(1) u(1) by (simp add: foldE_append)
  moreover have "refs u = unpinned (refs s) (home s ` {..<Suc k})"
    using f(1) by (auto simp: u(5) t(5) unpinned_def fun_eq_iff lessThan_Suc)
  ultimately show ?case using u(2,4,6-8) t(4,6-8) bio_frame_trans[OF t(3) u(3)] by (simp add: fun_upd_def)
qed

section \<open>The whole commit\<close>

lemma over_apply: "over x y i = (if i < BSIZE then x i else y i)"
  by (simp add: over_def blit_def)

lemma over_over [simp]: "over (over x y) x = x"
  by (simp add: over_apply fun_eq_iff)

text \<open>
  A transaction that is ready to commit: \<open>n\<close> logged blocks, each pinned by \<open>log_write\<close>, no buffer
  of the log in use, and a buffer to spare.
\<close>

definition commit_ready :: "nat \<Rightarrow> kernel \<Rightarrow> bool" where
  "commit_ready n s \<longleftrightarrow> bio_ok s \<and> log_layout n s \<and> 0 < n \<and> l_n (klog s) = int n \<and> card (busy s) < NBUF \<and>
     (\<forall>b \<in> log_region s. refs s b = 0) \<and>
     (\<forall>i<n. refs s (home s i) \<noteq> 0 \<and> refs s (home s i) + 1 \<noteq> 0 \<and> lkd s (home s i) = None)"

definition commit_trace :: "nat \<Rightarrow> kernel \<Rightarrow> (u32 \<times> bytes) list" where
  "commit_trace n s =
     (let h = head_bytes (klog s) (blk s (lhdr s)) in
      log_writes s n @ [(lhdr s, h)] @ map (\<lambda>i. (home s i, blk s (home s i))) [0..<n] @
      [(lhdr s, head_bytes ((klog s)\<lparr>l_n := 0\<rparr>) h)])"

lemma commit_readyD:
  assumes "commit_ready n s"
  shows "bio_ok s" "log_layout n s" "0 < n" "l_n (klog s) = int n"
    "i < n \<Longrightarrow> reads (lblk s i) s" "i < n \<Longrightarrow> reads (home s i) s" "i < n \<Longrightarrow> refs s (home s i) \<noteq> 0"
    "reads (lhdr s) s" "i < n \<Longrightarrow> refs s (lblk s i) = 0" "refs s (lhdr s) = 0" "lkd s (lhdr s) = None"
    "install_room n s"
proof -
  note d = assms[unfolded commit_ready_def]
  show ok: "bio_ok s" and lay: "log_layout n s" and "0 < n" "l_n (klog s) = int n" using d by blast+
  have st: "refs s b = 0 \<Longrightarrow> lkd s b = None" for b using ok by (simp add: bio_ok_def settled_def)
  have n: "n \<le> LOGSIZE" by (rule log_layoutD(3)[OF lay])
  show l: "refs s (lblk s i) = 0" if "i < n" for i using d that n by (simp add: log_region_def)
  show h: "refs s (lhdr s) = 0" using d by (simp add: log_region_def)
  show "lkd s (lhdr s) = None" by (rule st[OF h])
  have b: "card (busy s) < NBUF" using d by blast
  have free: "refs s x = 0 \<Longrightarrow> reads x s" for x unfolding reads_def using st[of x] b by simp
  show "reads (lhdr s) s" by (rule free[OF h])
  show "reads (lblk s i) s" if "i < n" by (rule free[OF l[OF that]])
  show "reads (home s i) s" "refs s (home s i) \<noteq> 0" if "i < n" using d that unfolding reads_def by blast+
  show "install_room n s" unfolding install_room_def
  proof (intro allI impI)
    fix i assume i: "i < n"
    have sub: "busy s \<union> home s ` {..<i} = busy s" using d i by (auto simp: busy_def)
    have h: "refs s (home s i) \<noteq> 0" "refs s (home s i) + 1 \<noteq> 0" "lkd s (home s i) = None" using d i by blast+
    show "refs s (lblk s i) = 0 \<and> lkd s (lblk s i) = None \<and> lkd s (home s i) = None \<and> refs s (home s i) + 1 \<noteq> 0 \<and>
       card (busy s \<union> home s ` {..<i}) + (if refs s (home s i) = 0 then 1 else 0) < NBUF"
      unfolding sub if_not_P[OF h(1)] add_0_right using l[OF i] st[OF l[OF i]] h(2,3) b by blast
  qed
qed

text \<open>The layout depends on the log record only.\<close>

lemma klog_cong:
  assumes "klog t = klog s"
  shows "lblk t = lblk s" "log_layout n t = log_layout n s" "log_region t = log_region s"
proof -
  show l: "lblk t = lblk s" by (rule ext, unfold lblk_def assms) (rule refl)
  show r: "log_region t = log_region s" unfolding log_region_def assms l ..
  show "log_layout n t = log_layout n s" unfolding log_layout_def assms r ..
qed

lemma install_room_cong:
  assumes "klog t = klog s" "refs t = refs s" "lkd t = lkd s"
  shows "install_room n t = install_room n s"
  unfolding install_room_def busy_def klog_cong(1)[OF assms(1)] assms ..

lemma install_writes_logged:
  assumes lay: "log_layout n s" and k: "klog t = klog s"
    and b: "blk t = (apply_writes (log_writes s n) (blk s))(lhdr s := x)"
  shows "install_writes t n = map (\<lambda>i. (home s i, blk s (home s i))) [0..<n]"
proof -
  note L = log_layoutD[OF lay]
  have "over (blk t (lblk s i)) (blk t (home s i)) = blk s (home s i)" if i: "i < n" for i
  proof -
    have "(lblk s i, over (blk s (home s i)) (blk s (lblk s i))) \<in> set (log_writes s n)"
      using i by (auto simp: log_writes_def)
    moreover have "distinct (map fst (log_writes s n))"
      unfolding log_writes_def using L(5) L(3) by (auto simp: distinct_map inj_on_def)
    ultimately have "blk t (lblk s i) = over (blk s (home s i)) (blk s (lblk s i))"
      using L(8)[of i] i L(3) by (simp add: b apply_writes_at)
    moreover have "blk t (home s i) = blk s (home s i)"
      using L(7)[OF i] log_fresh(1)[OF lay i, of n] by (simp add: b apply_writes_other)
    ultimately show ?thesis by simp
  qed
  then show ?thesis by (simp add: install_writes_def k klog_cong(1)[OF k])
qed

lemma commit_ok:
  assumes r: "commit_ready n s"
  shows "\<exists>s'. commit s = Inr s' \<and> bio_ok s' \<and> klog s' = (klog s)\<lparr>l_n := 0\<rparr> \<and>
    wtrace s' = wtrace s @ commit_trace n s \<and> disk s' = apply_writes (commit_trace n s) (disk s) \<and>
    refs s' = unpinned (refs s) (home s ` {..<n}) \<and> lkd s' = lkd s"
proof -
  note R = commit_readyD[OF r]
  let ?h = "head_bytes (klog s) (blk s (lhdr s))"
  let ?z = "upd_log (\<lambda>l. l\<lparr>l_n := 0\<rparr>)"
  have nn: "nat (l_n (klog s)) = n" using R(4) by simp
  have "\<forall>i<n. reads (lblk s i) s \<and> reads (home s i) s \<and> refs s (home s i) \<noteq> 0" using R(5-7) by blast
  from write_log_ok[OF R(1,2) this order.refl] obtain s1 where s1: "foldE write_log_one [0..<n] s = Inr s1"
    "bio_ok s1" "bio_frame s s1" "blk s1 = apply_writes (log_writes s n) (blk s)" "refs s1 = refs s" "lkd s1 = lkd s"
    "disk s1 = apply_writes (log_writes s n) (disk s)" "wtrace s1 = wtrace s @ log_writes s n" by blast
  have k1: "klog s1 = klog s" using bio_frame_fields[OF s1(3)] by simp
  have b1: "blk s1 (lhdr s) = blk s (lhdr s)"
    unfolding s1(4) using log_fresh(3)[OF R(2,3), of n] by (simp add: apply_writes_other)
  have rd: "reads (lhdr s1) s1" "l_dev (klog s1) = ROOTDEV"
    unfolding k1 reads_cong[OF s1(5,6)] using R(8) log_layoutD(1)[OF R(2)] by auto
  from write_head_ok[OF s1(2) rd(2,1)] obtain s2 where s2: "write_head s1 = Inr s2" "bio_ok s2" "bio_frame s1 s2"
    "blk s2 = (blk s1)(lhdr s := ?h)" "refs s2 = refs s" "lkd s2 = lkd s" "disk s2 = (disk s1)(lhdr s := ?h)"
    "wtrace s2 = wtrace s1 @ [(lhdr s, ?h)]" unfolding k1 b1 s1(5,6) by blast
  have k2: "klog s2 = klog s" using bio_frame_fields[OF s2(3)] k1 by simp
  have w2: "install_writes s2 n = map (\<lambda>i. (home s i, blk s (home s i))) [0..<n]"
    using s2(4) s1(4) by (intro install_writes_logged[OF R(2) k2]) simp
  have l2: "log_layout n s2" "install_room n s2"
    using R(2,12) klog_cong(2)[OF k2] install_room_cong[OF k2 s2(5,6)] by auto
  from install_ok[OF s2(2) l2 order.refl] obtain s3 where s3: "foldE install_one [0..<n] s2 = Inr s3"
    "bio_ok s3" "bio_frame s2 s3" "blk s3 = apply_writes (install_writes s2 n) (blk s2)"
    "refs s3 = unpinned (refs s) (home s ` {..<n})" "lkd s3 = lkd s"
    "disk s3 = apply_writes (install_writes s2 n) (disk s2)" "wtrace s3 = wtrace s2 @ install_writes s2 n"
    unfolding s2(5,6) k2 by blast
  have k3: "klog s3 = klog s" using bio_frame_fields[OF s3(3)] k2 by simp
  have f3: "lhdr s \<notin> home s ` {..<n}" by (rule log_fresh(4)[OF R(2,3) order.refl])
  have b3: "blk (?z s3) (lhdr s) = ?h"
    using f3 by (simp add: s3(4) apply_writes_other k2 s2(4))
  have "card (busy s3) < NBUF"
  proof -
    have "busy s3 \<subseteq> busy s" using R(7) by (auto simp: busy_def s3(5) unpinned_def)
    then have "card (busy s3) \<le> card (busy s)" by (rule card_mono[OF finite])
    then show ?thesis using r by (simp add: commit_ready_def)
  qed
  then have "reads (lhdr s) s3" using f3 R(10,11) by (simp add: reads_def s3(5,6) unpinned_def)
  then have rd: "reads (lhdr (?z s3)) (?z s3)" "l_dev (klog (?z s3)) = ROOTDEV" "bio_ok (?z s3)"
    using log_layoutD(1)[OF R(2)] s3(2) by (simp_all add: k3)
  from write_head_ok[OF rd(3,2,1)] obtain s4 where s4: "write_head (?z s3) = Inr s4" "bio_ok s4" "bio_frame (?z s3) s4"
    "refs s4 = refs s3" "lkd s4 = lkd s3" "disk s4 = (disk s3)(lhdr s := head_bytes ((klog s)\<lparr>l_n := 0\<rparr>) ?h)"
    "wtrace s4 = wtrace s3 @ [(lhdr s, head_bytes ((klog s)\<lparr>l_n := 0\<rparr>) ?h)]"
    using b3 by (auto simp: k3)
  have "klog s4 = (klog s)\<lparr>l_n := 0\<rparr>" using bio_frame_fields(1)[OF s4(3)] by (simp add: k3)
  moreover have "commit s = Inr s4"
    using R(3,4) s1(1) s2(1) s3(1) s4(1)
    by (simp add: commit_def write_log_def install_trans_def nn k2)
  moreover have "wtrace s4 = wtrace s @ commit_trace n s" "disk s4 = apply_writes (commit_trace n s) (disk s)"
    by (simp_all add: s4(6,7) s3(7,8) s2(7,8) s1(7,8) w2 commit_trace_def Let_def fun_upd_def)
  ultimately show ?thesis using s4(2,4,5) s3(5,6) by auto
qed

section \<open>Recovery\<close>

lemma install_room_fresh:
  assumes fresh: "refs s = (\<lambda>_. 0)" "lkd s = (\<lambda>_. None)" and m: "m < NBUF"
  shows "install_room m s"
proof -
  have "card (busy s \<union> home s ` {..<i}) + 1 < NBUF" if "i < m" for i
  proof -
    have "card (busy s \<union> home s ` {..<i}) \<le> i"
      using card_image_le[of "{..<i}" "home s"] by (simp add: busy_def fresh)
    then show ?thesis using that m by linarith
  qed
  then show ?thesis by (simp add: install_room_def fresh)
qed

lemma recover_ok:
  assumes ok: "bio_ok r" and fresh: "refs r = (\<lambda>_. 0)" and m: "m < NBUF"
    and c: "sint (load32 (disk r (lhdr r)) 0) = int m"
  defines "q \<equiv> upd_log (read_header (disk r (lhdr r))) r"
  assumes lay: "log_layout m q"
  shows "\<exists>r'. recover_from_log r = Inr r' \<and> bio_ok r' \<and> l_n (klog r') = 0 \<and>
    refs r' = unpinned (\<lambda>_. 0) (home q ` {..<m}) \<and> lkd r' = (\<lambda>_. None) \<and>
    disk r' = (apply_writes (install_writes q m) (disk r))
      (lhdr r := head_bytes ((klog q)\<lparr>l_n := 0\<rparr>) (disk r (lhdr r)))"
proof -
  let ?z = "upd_log (\<lambda>l. l\<lparr>l_n := 0\<rparr>)"
  have nolk: "lkd r = (\<lambda>_. None)" using ok by (auto simp: bio_ok_def settled_def fresh)
  have blk: "blk r = disk r" using unused_clean[OF ok] by (simp add: fresh fun_eq_iff)
  have rd: "reads (lhdr r) r" by (simp add: reads_def fresh nolk busy_def param_defs)
  have kq: "lhdr q = lhdr r" "l_n (klog q) = int m" "klog q = read_header (disk r (lhdr r)) (klog r)" "blk q = disk r"
    by (simp_all add: q_def read_header_def c blk)
  have dev: "l_dev (klog r) = ROOTDEV" and len: "length (l_block (klog r)) = LOGSIZE"
    using log_layoutD(1,2)[OF lay] by (simp_all add: kq(3) read_header_def)
  have cl: "sint (load32 (blk r (lhdr r)) 0) \<le> int LOGSIZE" using log_layoutD(3)[OF lay] by (simp add: c blk)
  from read_head_ok[OF ok dev rd cl len] obtain s1 where s1: "read_head r = Inr s1" "bio_ok s1" "bio_frame q s1"
    "blk s1 = disk r" "refs s1 = (\<lambda>_. 0)" "lkd s1 = (\<lambda>_. None)" "disk s1 = disk r"
    unfolding blk fresh nolk q_def[symmetric] by blast
  have k1: "klog s1 = klog q" using bio_frame_fields[OF s1(3)] by simp
  have w1: "install_writes s1 m = install_writes q m"
    by (simp add: install_writes_def s1(4) kq(4) k1 klog_cong(1)[OF k1])
  have l1: "log_layout m s1" "install_room m s1"
    using lay klog_cong(2)[OF k1] install_room_fresh[OF s1(5,6) m] by auto
  from install_ok[OF s1(2) l1 order.refl] obtain s2 where s2: "foldE install_one [0..<m] s1 = Inr s2"
    "bio_ok s2" "bio_frame s1 s2" "blk s2 = apply_writes (install_writes q m) (disk r)"
    "refs s2 = unpinned (\<lambda>_. 0) (home q ` {..<m})" "lkd s2 = (\<lambda>_. None)"
    "disk s2 = apply_writes (install_writes q m) (disk r)"
    unfolding s1(4-7) k1 w1 by blast
  have k2: "klog s2 = klog q" using bio_frame_fields[OF s2(3)] k1 by simp
  have f: "lhdr q \<notin> home q ` {..<m}" using log_layoutD(7)[OF lay] by fastforce
  have "busy s2 \<subseteq> home q ` {..<m}" by (auto simp: busy_def s2(5) unpinned_def)
  then have "card (busy s2) \<le> card (home q ` {..<m})" by (rule card_mono[OF finite])
  then have "card (busy s2) < NBUF" using card_image_le[of "{..<m}" "home q"] m by simp
  then have rd: "reads (lhdr (?z s2)) (?z s2)" "l_dev (klog (?z s2)) = ROOTDEV" "bio_ok (?z s2)"
    using f log_layoutD(1)[OF lay] s2(2) by (simp_all add: reads_def s2(5,6) unpinned_def k2)
  have b2: "blk (?z s2) (lhdr (?z s2)) = disk r (lhdr r)"
    using f by (simp add: s2(4) k2 apply_writes_other kq(1))
  from write_head_ok[OF rd(3,2,1)] obtain s3 where s3: "write_head (?z s2) = Inr s3" "bio_ok s3" "bio_frame (?z s2) s3"
    "refs s3 = refs s2" "lkd s3 = lkd s2"
    "disk s3 = (disk s2)(lhdr r := head_bytes ((klog q)\<lparr>l_n := 0\<rparr>) (disk r (lhdr r)))"
    unfolding b2 by (auto simp: k2 kq(1))
  have "l_n (klog s3) = 0" using bio_frame_fields(1)[OF s3(3)] by simp
  moreover have "recover_from_log r = Inr s3"
    using s1(1) s2(1) s3(1) by (simp add: recover_from_log_def install_trans_def k1 kq(2))
  ultimately show ?thesis using s3(2,4,5,6) s2(5,6,7) by auto
qed

section \<open>Crashes\<close>

text \<open>The header on the disk decodes to the header that was written.\<close>

lemma head_fold:
  fixes f :: "nat \<Rightarrow> u32"
  defines "F \<equiv> \<lambda>k d. fold (\<lambda>i d. store32 d (4 + 4 * i) (f i)) [0..<k] d"
  shows "load32 (F k d) 0 = load32 d 0" "i < k \<Longrightarrow> load32 (F k d) (4 + 4 * i) = f i"
proof -
  show "load32 (F k d) 0 = load32 d 0"
    unfolding F_def by (induction k) (simp_all add: load32_store32_disjoint)
  show "i < k \<Longrightarrow> load32 (F k d) (4 + 4 * i) = f i"
    unfolding F_def
  proof (induction k)
    case (Suc k)
    then show ?case by (cases "i = k") (simp_all add: load32_store32_disjoint)
  qed simp
qed

lemma head_bytes_decode:
  shows "0 \<le> l_n l \<Longrightarrow> l_n l \<le> int LOGSIZE \<Longrightarrow> sint (load32 (head_bytes l d) 0) = l_n l"
    "i < nat (l_n l) \<Longrightarrow> load32 (head_bytes l d) (4 + 4 * i) = l_block l ! i"
proof -
  show "sint (load32 (head_bytes l d) 0) = l_n l" if "0 \<le> l_n l" "l_n l \<le> int LOGSIZE"
  proof -
    have "l_n l < 2147483648" using that(2) by (simp add: param_defs)
    then have "signed_take_bit 31 (l_n l) = l_n l" using that(1) by (simp add: signed_take_bit_int_eq_self)
    then show ?thesis by (simp add: head_bytes_def head_fold(1) sint_sbintrunc')
  qed
  show "i < nat (l_n l) \<Longrightarrow> load32 (head_bytes l d) (4 + 4 * i) = l_block l ! i"
    by (simp add: head_bytes_def head_fold(2))
qed

text \<open>A machine that restarts on the disk \<open>d\<close>: an empty buffer cache and no lock held.\<close>

definition rebooted :: "(u32 \<Rightarrow> bytes) \<Rightarrow> kernel \<Rightarrow> bool" where
  "rebooted d r \<longleftrightarrow> bio_ok r \<and> refs r = (\<lambda>_. 0) \<and> disk r = d \<and> length (l_block (klog r)) = LOGSIZE"

definition same_block :: "bytes \<Rightarrow> bytes \<Rightarrow> bool" where
  "same_block x y \<longleftrightarrow> (\<forall>i<BSIZE. x i = y i)"

lemma same_block_refl [simp]: "same_block x x"
  by (simp add: same_block_def)

text \<open>The state in which \<open>initlog\<close> runs \<open>recover_from_log\<close>, and what it reads from the header.\<close>

definition log_started :: "superblock \<Rightarrow> kernel \<Rightarrow> kernel" where
  "log_started sb r = upd_log (\<lambda>l. l\<lparr>l_start := sint (sb_logstart sb), l_size := sint (sb_nlog sb), l_dev := ROOTDEV\<rparr>) r"

lemma initlog_recover: "initlog ROOTDEV sb r = recover_from_log (log_started sb r)"
  by (simp add: initlog_def log_started_def param_defs)

lemma initlog_layout:
  assumes lay: "log_layout n s" and sb: "sint (sb_logstart sb) = l_start (klog s)"
    and r: "length (l_block (klog r)) = LOGSIZE" and m: "m \<le> n"
    and c: "sint (load32 x 0) = int m" and b: "\<forall>i<m. load32 x (4 + 4 * i) = home s i"
  defines "q \<equiv> upd_log (read_header x) (log_started sb r)"
  shows "lblk q = lblk s" "lhdr q = lhdr s" "\<forall>i<m. home q i = home s i" "log_layout m q"
proof -
  have st: "l_start (klog q) = l_start (klog s)" by (simp add: q_def log_started_def read_header_def sb)
  show l: "lblk q = lblk s" "lhdr q = lhdr s" by (simp_all add: lblk_def st fun_eq_iff)
  have "i < LOGSIZE" if "i < m" for i using that m log_layoutD(3)[OF lay] by linarith
  then show h: "\<forall>i<m. home q i = home s i"
    using b by (auto simp: q_def log_started_def read_header_def r c)
  have reg: "log_region q = log_region s" by (simp only: log_region_def l)
  have im: "home q ` {..<m} = home s ` {..<m}" using h by (auto simp: image_def)
  have "inj_on (home s) {..<m}" using lay m by (auto simp: log_layout_def inj_on_def)
  then have "inj_on (home q) {..<m}" using h by (simp add: inj_on_def)
  moreover have "home q ` {..<m} \<inter> log_region q = {}" 
  proof -
    have "home s ` {..<m} \<subseteq> home s ` {..<n}" using m by (intro image_mono) auto
    then show ?thesis unfolding im reg using lay unfolding log_layout_def by blast
  qed
  moreover have "l_dev (klog q) = ROOTDEV" "length (l_block (klog q)) = LOGSIZE" "m \<le> LOGSIZE"
    using r m log_layoutD(3)[OF lay] by (simp_all add: q_def log_started_def read_header_def)
  ultimately show "log_layout m q" using lay unfolding log_layout_def st by blast
qed

lemma initlog_ok:
  assumes lay: "log_layout n s" and sb: "sint (sb_logstart sb) = l_start (klog s)" and r: "rebooted d r"
    and m: "m \<le> n" "n < NBUF" and c: "sint (load32 (d (lhdr s)) 0) = int m"
    and b: "\<forall>i<m. load32 (d (lhdr s)) (4 + 4 * i) = home s i"
  shows "\<exists>r'. initlog ROOTDEV sb r = Inr r' \<and> bio_ok r' \<and> l_n (klog r') = 0 \<and> load32 (disk r' (lhdr s)) 0 = 0 \<and>
    (\<forall>x. x \<notin> log_region s \<longrightarrow> disk r' x =
       apply_writes (map (\<lambda>i. (home s i, over (d (lblk s i)) (d (home s i)))) [0..<m]) d x)"
proof -
  let ?t = "log_started sb r" and ?q = "upd_log (read_header (d (lhdr s))) (log_started sb r)"
  note R = r[unfolded rebooted_def]
  have t: "bio_ok ?t" "refs ?t = (\<lambda>_. 0)" "disk ?t = d" "lhdr ?t = lhdr s" "lhdr s = lhdr ?t"
    using R by (simp_all add: log_started_def sb)
  have len: "length (l_block (klog r)) = LOGSIZE" using R by blast
  note Q = initlog_layout[OF lay sb len m(1) c b]
  have "blk ?q = d" using unused_clean[OF t(1)] by (simp add: t(2,3) fun_eq_iff)
  then have w: "install_writes ?q m = map (\<lambda>i. (home s i, over (d (lblk s i)) (d (home s i)))) [0..<m]"
    using Q(3) by (simp add: install_writes_def Q(1) del: upd_log_view(6))
  have mb: "m < NBUF" using m by linarith
  have c': "sint (load32 (disk ?t (lhdr ?t)) 0) = int m" using c by (simp only: t(3,4))
  have lay': "log_layout m (upd_log (read_header (disk ?t (lhdr ?t))) ?t)" using Q(4) by (simp only: t(3,4))
  from recover_ok[OF t(1,2) mb c' lay'] obtain r' where r': "recover_from_log ?t = Inr r'" "bio_ok r'" "l_n (klog r') = 0"
    "disk r' = (apply_writes (install_writes ?q m) d)(lhdr s := head_bytes ((klog ?q)\<lparr>l_n := 0\<rparr>) (d (lhdr s)))"
    unfolding t(3,4) by blast
  have "load32 (disk r' (lhdr s)) 0 = 0" by (simp add: r'(4) head_bytes_def)
  moreover have "lhdr s \<in> log_region s" by (simp add: log_region_def)
  then have "\<forall>x. x \<notin> log_region s \<longrightarrow> disk r' x = apply_writes (install_writes ?q m) d x" by (auto simp: r'(4))
  ultimately show ?thesis using r'(1-3) unfolding initlog_recover w by blast
qed

text \<open>The disk after the first \<open>k\<close> writes of a commit.\<close>

definition crash_disk :: "nat \<Rightarrow> nat \<Rightarrow> kernel \<Rightarrow> u32 \<Rightarrow> bytes" where
  "crash_disk k n s = apply_writes (take k (commit_trace n s)) (disk s)"

definition committed :: "nat \<Rightarrow> kernel \<Rightarrow> u32 \<Rightarrow> bytes" where
  "committed n s b = (if b \<in> home s ` {..<n} then blk s b else disk s b)"

abbreviation (input) new_blocks :: "kernel \<Rightarrow> nat \<Rightarrow> (u32 \<times> bytes) list" where
  "new_blocks s n \<equiv> map (\<lambda>i. (home s i, blk s (home s i))) [0..<n]"

lemma fst_new_blocks: "fst ` set (new_blocks s n) = home s ` {..<n}"
  by (simp add: image_image lessThan_atLeast0)

lemma not_in_region:
  assumes "log_layout n s" "b \<notin> log_region s"
  shows "b \<notin> lblk s ` {..<n} \<and> b \<noteq> lhdr s"
proof -
  have "lblk s ` {..<n} \<subseteq> lblk s ` {..<LOGSIZE}" using log_layoutD(3)[OF assms(1)] by (intro image_mono) auto
  then show ?thesis using assms(2) unfolding log_region_def by blast
qed

lemma fst_take: "b \<notin> fst ` set ws \<Longrightarrow> b \<notin> fst ` set (take k ws)"
  by (meson image_mono in_mono set_take_subset)

lemma lhdr_fresh:
  assumes "log_layout n s"
  shows "lhdr s \<notin> lblk s ` {..<n}"
proof
  assume "lhdr s \<in> lblk s ` {..<n}"
  then obtain j where j: "j < n" "lhdr s = lblk s j" by blast
  have "j < LOGSIZE" using j(1) log_layoutD(3)[OF assms] by linarith
  then show False using log_layoutD(8)[OF assms] j(2) by metis
qed

lemma crash_disk_before:
  assumes lay: "log_layout n s" and k: "k \<le> n"
  shows "crash_disk k n s (lhdr s) = disk s (lhdr s)" "b \<notin> log_region s \<Longrightarrow> crash_disk k n s b = disk s b"
proof -
  have e: "crash_disk k n s = apply_writes (take k (log_writes s n)) (disk s)"
    using k by (simp add: crash_disk_def commit_trace_def Let_def)
  show "crash_disk k n s (lhdr s) = disk s (lhdr s)" using lhdr_fresh[OF lay]
    by (simp add: e apply_writes_other fst_take)
  show "crash_disk k n s b = disk s b" if "b \<notin> log_region s"
  proof -
    have "b \<notin> lblk s ` {..<n}" using not_in_region[OF lay that] by auto
    then show ?thesis by (simp add: e apply_writes_other fst_take)
  qed
qed

lemma crash_disk_logged:
  assumes lay: "log_layout n s" and n: "0 < n" and k: "n < k" "k \<le> 2 * n + 1"
  shows "crash_disk k n s (lhdr s) = head_bytes (klog s) (blk s (lhdr s))"
    "i < n \<Longrightarrow> crash_disk k n s (lblk s i) = over (blk s (home s i)) (blk s (lblk s i))"
    "b \<notin> log_region s \<Longrightarrow> b \<notin> home s ` {..<n} \<Longrightarrow> crash_disk k n s b = disk s b"
proof -
  let ?h = "head_bytes (klog s) (blk s (lhdr s))"
  obtain j where j: "k = n + Suc j" "j \<le> n" using k less_imp_Suc_add[OF k(1)] by auto
  have e: "crash_disk k n s = apply_writes (take j (new_blocks s n)) ((apply_writes (log_writes s n) (disk s))(lhdr s := ?h))"
    using j by (simp add: crash_disk_def commit_trace_def Let_def)
  have nb: "b \<notin> home s ` {..<n} \<Longrightarrow> crash_disk k n s b = ((apply_writes (log_writes s n) (disk s))(lhdr s := ?h)) b" for b
    unfolding e by (rule apply_writes_other, rule fst_take, simp only: fst_new_blocks not_False_eq_True)
  show "crash_disk k n s (lhdr s) = ?h" using nb[of "lhdr s"] log_fresh(4)[OF lay n order.refl] by simp
  show "crash_disk k n s (lblk s i) = over (blk s (home s i)) (blk s (lblk s i))" if i: "i < n"
  proof -
    have "(lblk s i, over (blk s (home s i)) (blk s (lblk s i))) \<in> set (log_writes s n)"
      using i by (auto simp: log_writes_def)
    moreover have "distinct (map fst (log_writes s n))"
      unfolding log_writes_def using log_layoutD(3,5)[OF lay] by (auto simp: distinct_map inj_on_def)
    moreover have "lblk s i \<noteq> lhdr s" using log_layoutD(3,8)[OF lay] i by simp
    ultimately show ?thesis using nb[of "lblk s i"] log_fresh(2)[OF lay i order.refl] by (simp add: apply_writes_at)
  qed
  show "crash_disk k n s b = disk s b" if "b \<notin> log_region s" "b \<notin> home s ` {..<n}"
  proof -
    have "b \<notin> lblk s ` {..<n}" "b \<noteq> lhdr s" using not_in_region[OF lay that(1)] by auto
    then show ?thesis using nb[OF that(2)] by (simp add: apply_writes_other)
  qed
qed

lemma crash_disk_done:
  assumes lay: "log_layout n s" and k: "2 * n + 2 \<le> k"
  shows "load32 (crash_disk k n s (lhdr s)) 0 = 0" "b \<notin> log_region s \<Longrightarrow> crash_disk k n s b = committed n s b"
proof -
  let ?h = "head_bytes (klog s) (blk s (lhdr s))"
  have "length (commit_trace n s) \<le> k" using k by (simp add: commit_trace_def Let_def)
  then have e: "crash_disk k n s = (apply_writes (new_blocks s n) ((apply_writes (log_writes s n) (disk s))(lhdr s := ?h)))
      (lhdr s := head_bytes ((klog s)\<lparr>l_n := 0\<rparr>) ?h)"
    by (simp add: crash_disk_def commit_trace_def Let_def)
  show "load32 (crash_disk k n s (lhdr s)) 0 = 0" by (simp add: e head_bytes_def)
  show "crash_disk k n s b = committed n s b" if b: "b \<notin> log_region s"
  proof (cases "b \<in> home s ` {..<n}")
    case True
    then have "(b, blk s b) \<in> set (new_blocks s n)" by auto
    moreover have "distinct (map fst (new_blocks s n))"
      using log_layoutD(4)[OF lay] by (auto simp: distinct_map inj_on_def)
    ultimately show ?thesis using b True by (simp add: e committed_def apply_writes_at log_region_def)
  next
    case False
    have "b \<notin> lblk s ` {..<n}" "b \<noteq> lhdr s" using not_in_region[OF lay b] by auto
    then show ?thesis using False apply_writes_other[of b "new_blocks s n"]
      by (simp add: e committed_def apply_writes_other image_image lessThan_atLeast0)
  qed
qed

text \<open>Installing from the log again, whatever part of the installation had happened before the crash.\<close>

lemma replay_logged:
  assumes lay: "log_layout n s" and b: "b \<notin> log_region s"
    and d: "\<forall>i<n. d (lblk s i) = over (blk s (home s i)) (y i)" "b \<notin> home s ` {..<n} \<Longrightarrow> d b = disk s b"
  shows "same_block (apply_writes (map (\<lambda>i. (home s i, over (d (lblk s i)) (d (home s i)))) [0..<n]) d b) (committed n s b)"
    (is "same_block (apply_writes ?ws d b) _")
proof (cases "b \<in> home s ` {..<n}")
  case True
  then obtain i where i: "i < n" "b = home s i" by blast
  have "(b, over (d (lblk s i)) (d b)) \<in> set ?ws" using i by auto
  moreover have "distinct (map fst ?ws)" using log_layoutD(4)[OF lay] by (auto simp: distinct_map inj_on_def)
  ultimately have "apply_writes ?ws d b = over (d (lblk s i)) (d b)" by (rule apply_writes_at)
  then show ?thesis using True i d(1) by (simp add: same_block_def over_apply committed_def)
next
  case False
  then have "apply_writes ?ws d b = d b" by (intro apply_writes_other) (auto simp: image_image)
  then show ?thesis using False d(2) by (simp add: committed_def)
qed

lemma crash_recovery:
  assumes rdy: "commit_ready n s" and n: "n < NBUF" and h: "load32 (disk s (lhdr s)) 0 = 0"
    and r: "rebooted (crash_disk k n s) r" and sb: "sint (sb_logstart sb) = l_start (klog s)"
  shows "\<exists>r'. initlog ROOTDEV sb r = Inr r' \<and> bio_ok r' \<and> load32 (disk r' (lhdr s)) 0 = 0 \<and>
    (\<forall>b. b \<notin> log_region s \<longrightarrow> same_block (disk r' b) (if k \<le> n then disk s b else committed n s b))"
proof -
  note R = commit_readyD[OF rdy]
  note I = initlog_ok[OF R(2) sb r]
  consider (before) "k \<le> n" | (logged) "n < k" "k \<le> 2 * n + 1" | (installed) "2 * n + 2 \<le> k" by linarith
  then show ?thesis
  proof cases
    case before
    have "sint (load32 (crash_disk k n s (lhdr s)) 0) = int 0" using h by (simp add: crash_disk_before(1)[OF R(2) before])
    from I[OF _ n this] show ?thesis using before crash_disk_before(2)[OF R(2) before] by auto
  next
    case logged
    note C = crash_disk_logged[OF R(2,3) logged]
    have c: "sint (load32 (crash_disk k n s (lhdr s)) 0) = int n"
      using head_bytes_decode(1)[of "klog s"] R(4) log_layoutD(3)[OF R(2)] by (simp add: C(1))
    have a: "\<forall>i<n. load32 (crash_disk k n s (lhdr s)) (4 + 4 * i) = home s i"
      using head_bytes_decode(2)[of _ "klog s"] R(4) by (simp add: C(1))
    have "\<forall>i<n. crash_disk k n s (lblk s i) = over (blk s (home s i)) (blk s (lblk s i))" using C(2) by blast
    from replay_logged[OF R(2) _ this C(3)]
    have "b \<notin> log_region s \<Longrightarrow> same_block (apply_writes (map (\<lambda>i. (home s i, over (crash_disk k n s (lblk s i))
        (crash_disk k n s (home s i)))) [0..<n]) (crash_disk k n s) b) (committed n s b)" for b by blast
    then show ?thesis using I[OF order.refl n c a] logged(1) by auto
  next
    case installed
    have "sint (load32 (crash_disk k n s (lhdr s)) 0) = int 0" by (simp add: crash_disk_done(1)[OF R(2) installed])
    from I[OF _ n this] show ?thesis using installed R(3) crash_disk_done(2)[OF R(2) installed] by auto
  qed
qed

end
