(* ===== verification/Log_Txn.thy ===== *)
theory Log_Txn
  imports Log_Safety
begin

text \<open>
  Building a transaction: \<open>log_write\<close> absorbs a block that is already in the log or appends and
  pins it, and every logged update leads from one state of a transaction to the next, up to a
  state that is ready to commit.
\<close>

section \<open>The slot of a block\<close>

lemma log_slot_bound: "log_slot bl x i k \<le> i + k"
  by (induction bl x i k rule: log_slot.induct) auto

lemma log_slot_found: "log_slot bl x i k < i + k \<Longrightarrow> bl ! log_slot bl x i k = x"
  by (induction bl x i k rule: log_slot.induct) (auto split: if_splits)

lemma log_slot_fresh: "log_slot bl x i k = i + k \<longleftrightarrow> (\<forall>j. i \<le> j \<and> j < i + k \<longrightarrow> bl ! j \<noteq> x)"
proof (induction bl x i k rule: log_slot.induct)
  case (2 bl x i k)
  show ?case
  proof (cases "bl ! i = x")
    case True
    then show ?thesis by auto
  next
    case False
    then have "(\<forall>j. i \<le> j \<and> j < i + Suc k \<longrightarrow> bl ! j \<noteq> x) \<longleftrightarrow> (\<forall>j. Suc i \<le> j \<and> j < Suc i + k \<longrightarrow> bl ! j \<noteq> x)"
      by (metis Suc_leI add_Suc_right add_Suc_shift le_eq_less_or_eq Suc_leD)
    then show ?thesis using 2 False by simp
  qed
qed auto

section \<open>log_write\<close>

text \<open>The conditions under which \<open>log_write\<close> does not panic.\<close>

definition log_open :: "nat \<Rightarrow> kernel \<Rightarrow> bool" where
  "log_open n s \<longleftrightarrow> l_n (klog s) = int n \<and> n < LOGSIZE \<and> int n < l_size (klog s) - 1 \<and>
     1 \<le> l_outstanding (klog s) \<and> LogLk \<notin> held s \<and> length (l_block (klog s)) = LOGSIZE"

definition pinned :: "nat \<Rightarrow> kernel \<Rightarrow> kernel" where
  "pinned b = upd_buf b (\<lambda>x. x\<lparr>b_refcnt := b_refcnt x + 1\<rparr>)"

definition log_append :: "u32 \<Rightarrow> logst \<Rightarrow> logst" where
  "log_append x l = l\<lparr>l_block := (l_block l)[nat (l_n l) := x], l_n := l_n l + 1\<rparr>"

lemma in_log_slot:
  assumes "length bl = LOGSIZE" "n \<le> LOGSIZE"
  shows "x \<in> set (take n bl) \<longleftrightarrow> log_slot bl x 0 n \<noteq> n"
  using log_slot_fresh[of bl x 0 n] assms by (auto simp: in_set_conv_nth)

lemma log_write_absorb:
  assumes o: "log_open n s" and b: "b_blockno (bufs s ! b) = x" "x \<in> set (take n (l_block (klog s)))"
  shows "log_write b s = Inr s"
proof -
  let ?i = "log_slot (l_block (klog s)) x 0 n"
  note O = o[unfolded log_open_def]
  have "n \<le> LOGSIZE" using O by simp
  then have i: "?i \<noteq> n" using in_log_slot[of "l_block (klog s)" n x] b(2) O by blast
  then have "?i < n" using log_slot_bound[of "l_block (klog s)" x 0 n] by simp
  then have id: "(l_block (klog s))[?i := x] = l_block (klog s)"
    using log_slot_found[of "l_block (klog s)" x 0 n] by (metis add_0 list_update_id)
  have "upd_log (\<lambda>l. l\<lparr>l_block := (l_block l)[?i := x]\<rparr>) t = t" if "klog t = klog s" for t
    using that id by (simp add: upd_log_def)
  then show ?thesis using O i by (simp add: log_write_def b(1) Let_def)
qed

lemma log_write_append:
  assumes o: "log_open n s" and b: "b_blockno (bufs s ! b) = x" "x \<notin> set (take n (l_block (klog s)))"
    and bc: "BcacheLk \<notin> held s"
  shows "log_write b s = Inr (upd_log (log_append x) (pinned b s))"
proof -
  note O = o[unfolded log_open_def]
  have "n \<le> LOGSIZE" using O by simp
  then have i: "log_slot (l_block (klog s)) x 0 n = n" using in_log_slot[of "l_block (klog s)" n x] b(2) O by blast
  show ?thesis using O bc
    by (simp add: log_write_def b(1) Let_def i bpin_def pinned_def upd_buf_def upd_log_def log_append_def insert_commute)
qed

text \<open>A transaction in progress: the recorded blocks are pinned and the log's own blocks are unused.\<close>

definition txn :: "nat \<Rightarrow> kernel \<Rightarrow> bool" where
  "txn n s \<longleftrightarrow> bio_ok s \<and> log_layout n s \<and> l_n (klog s) = int n \<and> (\<forall>b \<in> log_region s. refs s b = 0) \<and>
     (\<forall>i<n. refs s (home s i) \<noteq> 0 \<and> refs s (home s i) + 1 \<noteq> 0)"

lemma commit_ready_txn:
  "commit_ready n s \<longleftrightarrow> txn n s \<and> 0 < n \<and> card (busy s) < NBUF \<and> (\<forall>i<n. lkd s (home s i) = None)"
  unfolding commit_ready_def txn_def by (rule iffI; elim conjE; intro conjI allI impI) (assumption | metis)+

lemma take_homes: "log_layout n s \<Longrightarrow> set (take n (l_block (klog s))) = home s ` {..<n}"
  using log_layoutD(2,3)[of n s] nth_image[of n "l_block (klog s)"] by (simp add: lessThan_atLeast0)

lemma log_layout_append:
  assumes lay: "log_layout n s" and n: "n < LOGSIZE" "l_n (klog s) = int n"
    and x: "x \<notin> home s ` {..<n}" "x \<notin> log_region s" and k: "klog t = log_append x (klog s)"
  shows "log_layout (Suc n) t" "log_region t = log_region s" "home t ` {..<Suc n} = insert x (home s ` {..<n})"
    "\<forall>i<n. home t i = home s i" "home t n = x"
proof -
  have st: "l_start (klog t) = l_start (klog s)" by (simp add: k log_append_def)
  have "lblk t = lblk s" by (simp add: lblk_def st fun_eq_iff)
  then show reg: "log_region t = log_region s" by (simp add: log_region_def st)
  have len: "length (l_block (klog s)) = LOGSIZE" by (rule log_layoutD(2)[OF lay])
  show h: "\<forall>i<n. home t i = home s i" "home t n = x" using len n by (simp_all add: k log_append_def)
  have im: "home t ` {..<n} = home s ` {..<n}" using h(1) by (intro image_cong) auto
  then show im': "home t ` {..<Suc n} = insert x (home s ` {..<n})" by (simp add: lessThan_Suc h(2))
  have "inj_on (home t) {..<n} \<longleftrightarrow> inj_on (home s) {..<n}" using h(1) by (intro inj_on_cong) auto
  then have inj: "inj_on (home t) {..<Suc n}" using lay x(1) by (simp add: lessThan_Suc h(2) im log_layout_def)
  have dis: "home t ` {..<Suc n} \<inter> log_region t = {}"
    unfolding im' reg using lay x(2) unfolding log_layout_def by blast
  have "l_dev (klog t) = ROOTDEV" "length (l_block (klog t)) = LOGSIZE" "Suc n \<le> LOGSIZE"
    using log_layoutD(1)[OF lay] len n by (simp_all add: k log_append_def)
  then show "log_layout (Suc n) t" using inj dis lay unfolding log_layout_def st by blast
qed

section \<open>Logged updates\<close>

definition txn_frame :: "kernel \<Rightarrow> kernel \<Rightarrow> bool" where
  "txn_frame s s' \<longleftrightarrow> bio_frame (upd_log (\<lambda>_. klog s') s) s'"

lemma txn_frame_bio: "bio_frame s s' \<Longrightarrow> txn_frame s s'"
proof -
  assume b: "bio_frame s s'"
  have "upd_log (\<lambda>_. klog s') s = s" using bio_frame_fields(1)[OF b] by (simp add: upd_log_def)
  then show ?thesis using b by (simp add: txn_frame_def)
qed

lemma upd_log_upd_log: "upd_log f (upd_log g s) = upd_log (\<lambda>l. f (g l)) s"
  by (simp add: upd_log_def)

lemma txn_frame_trans:
  assumes "txn_frame s t" "txn_frame t u"
  shows "txn_frame s u"
proof -
  have "bio_frame (upd_log (\<lambda>_. klog u) (upd_log (\<lambda>_. klog t) s)) (upd_log (\<lambda>_. klog u) t)"
    using assms(1) unfolding txn_frame_def by (rule bio_frame_upd_log)
  then show ?thesis using assms(2) unfolding txn_frame_def upd_log_upd_log by (rule bio_frame_trans)
qed

lemma txn_frame_append: "txn_frame s (upd_log f s)"
  by (simp add: txn_frame_def upd_log_def bio_frame_refl)

lemma txn_frame_fields:
  assumes "txn_frame s s'"
  shows "held s' = held s" "curproc s' = curproc s" "sblk s' = sblk s" "icache s' = icache s" "mem s' = mem s"
    "freelist s' = freelist s" "woken (procs s) (procs s')"
  using bio_frame_fields[OF assms[unfolded txn_frame_def]] by (simp_all add: upd_log_def)

lemma pinned_step:
  assumes "bc_inv s" "owner s n = Some b" "refs s n + 1 \<noteq> 0"
  shows "bc_inv (pinned b s)" "owner (pinned b s) = owner s" "blk (pinned b s) = blk s"
    "refs (pinned b s) = (refs s)(n := refs s n + 1)" "lkd (pinned b s) = lkd s" "bio_frame s (pinned b s)"
    "disk (pinned b s) = disk s" "wtrace (pinned b s) = wtrace s" "klog (pinned b s) = klog s"
proof -
  let ?f = "\<lambda>x. x\<lparr>b_refcnt := b_refcnt x + 1\<rparr>"
  note w = owner_fields[OF assms(2)]
  note u = bc_keep[where f = ?f, OF assms(1,2), simplified, simplified w]
  show "bc_inv (pinned b s)" "owner (pinned b s) = owner s" "blk (pinned b s) = blk s"
    "refs (pinned b s) = (refs s)(n := refs s n + 1)" "lkd (pinned b s) = lkd s"
    using u assms(3) by (simp_all add: pinned_def)
  show "bio_frame s (pinned b s)"
    by (rule bio_frame_bufs[where B = "bufs (pinned b s)"]) (simp add: pinned_def upd_buf_def)
qed (simp_all add: pinned_def upd_buf_def)

text \<open>
  \<open>log_write\<close> of a buffer the caller holds, on the abstract view: a block already in the log is
  absorbed, any other is pinned and appended.
\<close>

lemma log_write_step:
  assumes inv: "bc_inv s" "bio_ctx s" and o: "owner s x = Some b" and r: "refs s x + 1 \<noteq> 0" and lo: "log_open n s"
  defines "new \<equiv> x \<notin> set (take n (l_block (klog s)))"
  obtains s' where "log_write b s = Inr s'" "bc_inv s'" "bio_ctx s'" "mypid s' = mypid s" "txn_frame s s'"
    "owner s' = owner s" "blk s' = blk s" "refs s' = (if new then (refs s)(x := refs s x + 1) else refs s)"
    "lkd s' = lkd s" "disk s' = disk s" "wtrace s' = wtrace s"
    "klog s' = (if new then log_append x (klog s) else klog s)"
proof (cases new)
  case True
  let ?p = "pinned b s" and ?s = "upd_log (log_append x) (pinned b s)"
  have bn: "b_blockno (bufs s ! b) = x" using owner_fields[OF o] by simp
  note P = pinned_step[OF inv(1) o r]
  have bc: "BcacheLk \<notin> held s" using inv(2) by (simp add: bio_ctx_def)
  have l: "log_write b s = Inr ?s" by (rule log_write_append[OF lo bn _ bc]) (use True in \<open>simp add: new_def\<close>)
  have c: "bio_ctx ?s" "mypid ?s = mypid s" using bio_frame_ctx[OF P(6) inv(2)] by simp_all
  have fr: "txn_frame s ?s" by (rule txn_frame_trans[OF txn_frame_bio[OF P(6)] txn_frame_append])
  show ?thesis by (rule that[OF l _ c fr]) (use True P in simp_all)
next
  case False
  have bn: "b_blockno (bufs s ! b) = x" using owner_fields[OF o] by simp
  have l: "log_write b s = Inr s" by (rule log_write_absorb[OF lo bn]) (use False in \<open>simp add: new_def\<close>)
  show ?thesis by (rule that[OF l inv(1,2) refl txn_frame_bio[OF bio_frame_refl]]) (use False in simp_all)
qed

text \<open>The blocks recorded in the log, and one logged update of block \<open>x\<close>.\<close>

definition logged_blocks :: "kernel \<Rightarrow> u32 set" where
  "logged_blocks s = set (take (nat (l_n (klog s))) (l_block (klog s)))"

definition txn_step :: "kernel \<Rightarrow> u32 \<Rightarrow> kernel \<Rightarrow> bool" where
  "txn_step s x s' \<longleftrightarrow> txn (nat (l_n (klog s'))) s' \<and> txn_frame s s' \<and> disk s' = disk s \<and> wtrace s' = wtrace s \<and>
     lkd s' = lkd s \<and> refs s' = (if x \<in> logged_blocks s then refs s else (refs s)(x := refs s x + 1)) \<and>
     klog s' = (if x \<in> logged_blocks s then klog s else log_append x (klog s))"

lemma txnD:
  assumes "txn n s"
  shows "bio_ok s" "log_layout n s" "l_n (klog s) = int n" "logged_blocks s = home s ` {..<n}"
    "x \<in> logged_blocks s \<Longrightarrow> refs s x \<noteq> 0 \<and> refs s x + 1 \<noteq> 0" "x \<in> log_region s \<Longrightarrow> refs s x = 0"
proof -
  note d = assms[unfolded txn_def]
  show "bio_ok s" and lay: "log_layout n s" and n: "l_n (klog s) = int n" using d by blast+
  show lb: "logged_blocks s = home s ` {..<n}" using take_homes[OF lay] by (simp add: logged_blocks_def n)
  show "x \<in> logged_blocks s \<Longrightarrow> refs s x \<noteq> 0 \<and> refs s x + 1 \<noteq> 0" unfolding lb using d by blast
  show "x \<in> log_region s \<Longrightarrow> refs s x = 0" using d by blast
qed

lemma txn_append:
  assumes T: "txn n s" and n: "n < LOGSIZE" and x: "x \<notin> logged_blocks s" "x \<notin> log_region s"
    and k: "klog t = log_append x (klog s)" and ok: "bio_ok t"
    and r: "refs t = (refs s)(x := refs s x + 1)" "refs s x + 1 \<noteq> 0" "refs s x + 2 \<noteq> 0"
  shows "txn (Suc n) t"
proof -
  note D = txnD[OF T]
  note L = log_layout_append[OF D(2) n D(3) x(1)[unfolded D(4)] x(2) k]
  have "\<forall>i<Suc n. refs t (home t i) \<noteq> 0 \<and> refs t (home t i) + 1 \<noteq> 0"
  proof (intro allI impI)
    fix i assume "i < Suc n"
    then have "home t i = x \<or> home t i \<in> logged_blocks s" using L(4,5) unfolding D(4) less_Suc_eq by auto
    then show "refs t (home t i) \<noteq> 0 \<and> refs t (home t i) + 1 \<noteq> 0"
      using D(5)[of "home t i"] x(1) r by (auto simp: add.assoc)
  qed
  moreover have "\<forall>b \<in> log_region t. refs t b = 0" using D(6) x(2) by (auto simp: L(2) r(1))
  moreover have "l_n (klog t) = int (Suc n)" by (simp add: k log_append_def D(3))
  ultimately show ?thesis unfolding txn_def using ok L(1) by blast
qed

lemma txn_same:
  assumes "txn n s" "bio_ok t" "refs t = refs s" "klog t = klog s"
  shows "txn n t"
  using assms unfolding txn_def klog_cong(2,3)[OF assms(4)] by simp

text \<open>Reading a block and releasing it again leaves the view as it was.\<close>

definition same_view :: "kernel \<Rightarrow> kernel \<Rightarrow> bool" where
  "same_view s s' \<longleftrightarrow> bio_ok s' \<and> bio_frame s s' \<and> blk s' = blk s \<and> refs s' = refs s \<and> lkd s' = lkd s \<and>
     disk s' = disk s \<and> wtrace s' = wtrace s"

lemma same_view_trans: "same_view s t \<Longrightarrow> same_view t u \<Longrightarrow> same_view s u"
  unfolding same_view_def using bio_frame_trans[of s t u] by auto

lemma read_step:
  assumes ok: "bio_ok s" and rd: "reads x s"
  obtains b s1 s2 where "bread ROOTDEV x s = Inr (b, s1)" "bio_frame s s1" "b_data (bufs s1 ! b) = blk s x"
    "brelse b s1 = Inr s2" "same_view s s2"
proof -
  obtain b s1 where r: "bread ROOTDEV x s = Inr (b, s1)" "bio_ok s1" "bio_frame s s1" "owner s1 x = Some b"
    "blk s1 = blk s" "refs s1 = (refs s)(x := refs s x + 1)" "lkd s1 = (lkd s)(x := Some (mypid s))"
    "disk s1 = disk s" "wtrace s1 = wtrace s" "b_data (bufs s1 ! b) = blk s x"
    "\<forall>m c. owner s m = Some c \<longrightarrow> refs s m \<noteq> 0 \<longrightarrow> owner s1 m = Some c"
    by (rule bread_step[OF ok rd], rule that)
  have i1: "bc_inv s1" "bio_ctx s1" and pid: "mypid s1 = mypid s"
    using r(2) bio_frame_ctx[OF r(3)] ok by (auto simp: bio_ok_def)
  have l: "lkd s1 x = Some (mypid s1)" and u: "refs s1 x = 1 \<longrightarrow> blk s1 x = disk s1 x"
    using pid unused_clean[OF ok, of x] by (auto simp: r(5-8))
  obtain s2 where e: "brelse b s1 = Inr s2" "bc_inv s2" "bio_ctx s2" "mypid s2 = mypid s1" "bio_frame s1 s2"
    "owner s2 = owner s1" "blk s2 = blk s1" "refs s2 = (refs s1)(x := refs s1 x - 1)"
    "lkd s2 = (lkd s1)(x := None)" "disk s2 = disk s1" "wtrace s2 = wtrace s1"
    by (rule brelse_step[OF i1 r(4) l], use u in simp, rule that)
  have v: "blk s2 = blk s" "refs s2 = refs s" "lkd s2 = lkd s" "disk s2 = disk s" "wtrace s2 = wtrace s"
    using rd by (auto simp: e(7-11) r(5-9) reads_def fun_eq_iff)
  have "settled s2" using ok by (simp add: bio_ok_def settled_def v)
  then have "same_view s s2" using v e(2,3) bio_frame_trans[OF r(3) e(5)] by (simp add: same_view_def bio_ok_def)
  then show ?thesis by (rule that[OF r(1,3,10) e(1)])
qed

lemma logged_put:
  assumes T: "txn n s" and rd: "reads x s" "refs s x + 2 \<noteq> 0" and x: "x \<notin> log_region s" and lo: "log_open n s"
    and r: "bread ROOTDEV x s = Inr (b, s1)"
  obtains s2 s3 where "log_write b (bset b g s1) = Inr s2" "brelse b s2 = Inr s3" "txn_step s x s3"
    "blk s3 = (blk s)(x := g (blk s x))"
proof -
  note D = txnD[OF T]
  obtain b' s1' where r': "bread ROOTDEV x s = Inr (b', s1')" "bio_ok s1'" "bio_frame s s1'" "owner s1' x = Some b'"
    "blk s1' = blk s" "refs s1' = (refs s)(x := refs s x + 1)" "lkd s1' = (lkd s)(x := Some (mypid s))"
    "disk s1' = disk s" "wtrace s1' = wtrace s" "b_data (bufs s1' ! b') = blk s x"
    "\<forall>m c. owner s m = Some c \<longrightarrow> refs s m \<noteq> 0 \<longrightarrow> owner s1' m = Some c"
    by (rule bread_step[OF D(1) rd(1)], rule that)
  have [simp]: "b' = b" "s1' = s1" using r r'(1) by auto
  have i1: "bc_inv s1" "bio_ctx s1" and pid: "mypid s1 = mypid s" and k1: "klog s1 = klog s" "held s1 = held s"
    using r'(2,3) bio_frame_ctx[OF r'(3)] bio_frame_fields[OF r'(3)] D(1) by (auto simp: bio_ok_def)
  let ?t = "bset b g s1"
  have n0: "refs s1 x \<noteq> 0" using rd(1) r'(6) by (simp add: reads_def)
  note t = bset_step[OF i1 r'(4)[simplified] n0, of g]
  have ot: "owner ?t x = Some b" and rt: "refs ?t x + 1 \<noteq> 0" and lt: "log_open n ?t"
    using t(5) r'(4,6) rd(2) lo k1 bio_frame_fields(2)[OF t(4)] by (simp_all add: t(7) log_open_def add.assoc)
  let ?new = "x \<notin> set (take n (l_block (klog ?t)))"
  have lb: "?new \<longleftrightarrow> x \<notin> logged_blocks s" by (simp add: logged_blocks_def D(3) k1)
  obtain s2 where l: "log_write b ?t = Inr s2" "bc_inv s2" "bio_ctx s2" "mypid s2 = mypid ?t" "txn_frame ?t s2"
    "owner s2 = owner ?t" "blk s2 = blk ?t" "refs s2 = (if ?new then (refs ?t)(x := refs ?t x + 1) else refs ?t)"
    "lkd s2 = lkd ?t" "disk s2 = disk ?t" "wtrace s2 = wtrace ?t"
    "klog s2 = (if ?new then log_append x (klog ?t) else klog ?t)"
    by (rule log_write_step[OF t(1,2) ot rt lt], rule that)
  have r2: "refs s2 x = (if x \<in> logged_blocks s then refs s x + 1 else refs s x + 2)"
    unfolding l(8) lb t(7) r'(6)[simplified] by (simp add: add.assoc)
  have o2: "owner s2 x = Some b" "lkd s2 x = Some (mypid s2)"
    using ot pid by (auto simp: l(4,6,9) t(3,8) r'(7)[simplified])
  have o3: "refs s2 x \<noteq> 1"
  proof (cases "x \<in> logged_blocks s")
    case True
    then show ?thesis using D(5)[OF True] r2 by simp
  next
    case False
    have "refs s x + 2 = (refs s x + 1) + 1" by simp
    then show ?thesis using False r2 rd(1) unfolding reads_def by (metis add_cancel_left_left)
  qed
  obtain s3 where e: "brelse b s2 = Inr s3" "bc_inv s3" "bio_ctx s3" "mypid s3 = mypid s2" "bio_frame s2 s3"
    "owner s3 = owner s2" "blk s3 = blk s2" "refs s3 = (refs s2)(x := refs s2 x - 1)"
    "lkd s3 = (lkd s2)(x := None)" "disk s3 = disk s2" "wtrace s3 = wtrace s2"
    by (rule brelse_step[OF l(2,3) o2(1,2)], use o3 in simp, rule that)
  have v: "refs s3 = (if x \<in> logged_blocks s then refs s else (refs s)(x := refs s x + 1))" "lkd s3 = lkd s"
    "disk s3 = disk s" "wtrace s3 = wtrace s" "klog s3 = (if x \<in> logged_blocks s then klog s else log_append x (klog s))"
    using rd bio_frame_fields(1)[OF e(5)]
    by (auto simp: e(8-11) l(8-12) t(7-10) r'(6-9)[simplified] logged_blocks_def D(3) reads_def fun_eq_iff k1)
  have "settled s3" using D(1) rd by (auto simp: bio_ok_def settled_def v(1,2) reads_def split: if_splits)
  then have ok: "bio_ok s3" using e(2,3) by (simp add: bio_ok_def)
  have nn: "txn (nat (l_n (klog s3))) s3"
  proof (cases "x \<in> logged_blocks s")
    case True
    then show ?thesis using txn_same[OF T ok] v(1,5) D(3) by simp
  next
    case False
    have "n < LOGSIZE" "refs s x + 1 \<noteq> 0" using lo rd(1) by (auto simp: log_open_def reads_def)
    then show ?thesis using txn_append[OF T _ False x _ ok _ _ rd(2)] v(1,5) False D(3) by (simp add: log_append_def nat_add_distrib)
  qed
  have fr: "txn_frame s s3"
    by (rule txn_frame_trans[OF txn_frame_bio[OF bio_frame_trans[OF r'(3)[simplified] t(4)]]
          txn_frame_trans[OF l(5) txn_frame_bio[OF e(5)]]])
  have "blk s3 = (blk s)(x := g (blk s x))" by (simp add: e(7) l(7) t(6) r'(5)[simplified])
  moreover have "txn_step s x s3" unfolding txn_step_def using nn fr v by blast
  ultimately show ?thesis using that[OF l(1) e(1)] by blast
qed

section \<open>The budget of an operation\<close>

text \<open>
  The state of an operation between \<open>begin_op\<close> and \<open>end_op\<close> that may still make \<open>k\<close> logged updates:
  the log has room for them, and the cache has buffers for the blocks they would pin.
\<close>

definition budget :: "nat \<Rightarrow> kernel \<Rightarrow> bool" where
  "budget k s \<longleftrightarrow> (\<exists>n. txn n s \<and> n + k \<le> LOGSIZE \<and> int (n + k) < l_size (klog s)) \<and> 1 \<le> l_outstanding (klog s) \<and>
     LogLk \<notin> held s \<and> lkd s = (\<lambda>_. None) \<and> (\<forall>x. unat (refs s x) + k + 1 < 2 ^ 32) \<and> card (busy s) + k \<le> NBUF"

lemma budget_mono:
  assumes b: "budget k s" and j: "j \<le> k"
  shows "budget j s"
proof -
  obtain n where n: "txn n s" "n + k \<le> LOGSIZE" "int (n + k) < l_size (klog s)" using b unfolding budget_def by blast
  then have "n + j \<le> LOGSIZE" "int (n + j) < l_size (klog s)" using j by linarith+
  moreover have "unat (refs s x) + j + 1 < 2 ^ 32" for x
  proof -
    have "unat (refs s x) + k + 1 < 2 ^ 32" using b unfolding budget_def by blast
    then show ?thesis using j by linarith
  qed
  moreover have "card (busy s) + j \<le> NBUF" using b j unfolding budget_def by linarith
  ultimately show ?thesis using b n(1) unfolding budget_def by blast
qed

lemma u32_no_wrap:
  assumes "unat (r :: u32) + k < 2 ^ 32" "0 < k"
  shows "r + of_nat k \<noteq> 0"
proof -
  have "unat (r + of_nat k) = (unat r + k) mod 2 ^ 32" by (simp add: unat_word_ariths unat_of_nat mod_simps)
  then have "unat (r + of_nat k) = unat r + k" using assms(1) by simp
  then show ?thesis using assms(2) by auto
qed

lemma budgetD:
  assumes "budget (Suc k) s"
  shows "reads x s" "refs s x + 2 \<noteq> 0" "\<exists>n. txn n s \<and> log_open n s" "bio_ok s"
proof -
  obtain n where n: "txn n s" "n + Suc k \<le> LOGSIZE" "int (n + Suc k) < l_size (klog s)"
    using assms unfolding budget_def by blast
  have r: "unat (refs s x) + 1 < 2 ^ 32" "unat (refs s x) + 2 < 2 ^ 32"
    using assms unfolding budget_def by (elim conjE allE[of _ x], linarith)+
  show "refs s x + 2 \<noteq> 0" using u32_no_wrap[OF r(2)] by simp
  have "refs s x + 1 \<noteq> 0" using u32_no_wrap[OF r(1)] by simp
  then show "reads x s" using assms by (simp add: reads_def budget_def)
  show "bio_ok s" by (rule txnD(1)[OF n(1)])
  have "log_open n s" using n txnD(2,3)[OF n(1)] log_layoutD(2) assms unfolding log_open_def budget_def by auto
  then show "\<exists>n. txn n s \<and> log_open n s" using n(1) by blast
qed

lemma budget_same:
  assumes "budget k s" "same_view s s'"
  shows "budget k s'"
proof -
  have v: "refs s' = refs s" "lkd s' = lkd s" "bio_ok s'" "bio_frame s s'" using assms(2) by (auto simp: same_view_def)
  have k: "klog s' = klog s" "held s' = held s" using bio_frame_fields[OF v(4)] by auto
  have "busy s' = busy s" by (simp add: busy_def v(1))
  then show ?thesis using assms(1) txn_same[OF _ v(3,1) k(1)] unfolding budget_def v(1,2) k by auto
qed

lemma budget_step:
  assumes b: "budget (Suc k) s" and st: "txn_step s x s'"
  shows "budget k s'"
proof -
  note S = st[unfolded txn_step_def]
  obtain n where n: "txn n s" "n + Suc k \<le> LOGSIZE" "int (n + Suc k) < l_size (klog s)"
    using b unfolding budget_def by blast
  have ln: "l_n (klog s) = int n" by (rule txnD(3)[OF n(1)])
  have k: "l_size (klog s') = l_size (klog s)" "l_outstanding (klog s') = l_outstanding (klog s)"
      "nat (l_n (klog s')) \<le> Suc n" "held s' = held s" "lkd s' = lkd s"
    using S txn_frame_fields(1) ln by (auto simp: log_append_def)
  have "\<exists>m. txn m s' \<and> m + k \<le> LOGSIZE \<and> int (m + k) < l_size (klog s')" using S k n by (intro exI[of _ "nat (l_n (klog s'))"]) auto
  moreover have "\<forall>y. unat (refs s' y) + k + 1 < 2 ^ 32"
  proof
    fix y
    have "unat (refs s y) + Suc k + 1 < 2 ^ 32" using b unfolding budget_def by blast
    moreover have "unat (refs s' y) \<le> Suc (unat (refs s y))" using S unat_word_ariths(1)[of "refs s x" 1] by (auto simp: mod_Suc)
    ultimately show "unat (refs s' y) + k + 1 < 2 ^ 32" by linarith
  qed
  moreover have "card (busy s') \<le> card (busy s) + 1" using S busy_insert[of s' s x "refs s x + 1"] by (auto simp: busy_def split: if_splits)
  then have "card (busy s') + k \<le> NBUF" using b unfolding budget_def by linarith
  ultimately show ?thesis using b unfolding budget_def k by blast
qed

text \<open>One logged update out of the budget, and reading within it.\<close>

lemma budget_put:
  assumes b: "budget (Suc k) s" and x: "x \<notin> log_region s" and r: "bread ROOTDEV x s = Inr (c, s1)"
  obtains s2 s3 where "log_write c (bset c g s1) = Inr s2" "brelse c s2 = Inr s3" "txn_step s x s3" "budget k s3"
    "blk s3 = (blk s)(x := g (blk s x))"
proof -
  obtain n where n: "txn n s" "log_open n s" using budgetD(3)[OF b] by blast
  obtain s2 s3 where s: "log_write c (bset c g s1) = Inr s2" "brelse c s2 = Inr s3" "txn_step s x s3"
    "blk s3 = (blk s)(x := g (blk s x))"
    by (rule logged_put[OF n(1) budgetD(1,2)[OF b] x n(2) r], rule that)
  show ?thesis by (rule that[OF s(1-3) budget_step[OF b s(3)] s(4)])
qed

lemma budget_read:
  assumes b: "budget (Suc k) s"
  obtains c s1 s2 where "bread ROOTDEV x s = Inr (c, s1)" "bio_frame s s1" "b_data (bufs s1 ! c) = blk s x"
    "brelse c s1 = Inr s2" "same_view s s2" "budget (Suc k) s2"
proof -
  obtain c s1 s2 where r: "bread ROOTDEV x s = Inr (c, s1)" "bio_frame s s1" "b_data (bufs s1 ! c) = blk s x"
    "brelse c s1 = Inr s2" "same_view s s2"
    by (rule read_step[OF budgetD(4,1)[OF b]], rule that)
  show ?thesis by (rule that[OF r budget_same[OF b r(5)]])
qed

lemma budget_cong:
  assumes "bufs t = bufs s" "disk t = disk s" "klog t = klog s" "held t = held s" "curproc t = curproc s" "procs t = procs s"
  shows "budget k t = budget k s"
proof -
  note v = view_cong[OF assms(1,2)]
  have "bio_ctx t = bio_ctx s" by (simp add: bio_ctx_def no_proc_lock_def procs_ok_def assms)
  then have b: "bio_ok t = bio_ok s" by (simp add: bio_ok_def v)
  show ?thesis by (simp add: budget_def txn_def v b klog_cong[OF assms(3)] assms(3,4))
qed

end
