(* ===== verification/Fs_Blocks.thy ===== *)
theory Fs_Blocks
  imports Fs Log_Txn
begin

text \<open>
  The block allocator of \<^verbatim>\<open>fs.c\<close> on the view of a transaction: the bitmap as a predicate \<open>used\<close> on
  block numbers, \<open>balloc\<close> as the choice of the first free block, \<open>bfree\<close> as its inverse.
\<close>

unbundle bit_operations_syntax

section \<open>Bits of the bitmap\<close>

lemma bit_bmask: "bit (bmask bi) m \<longleftrightarrow> m = bi mod 8"
proof -
  have "bi mod 8 < 8" by simp
  then show ?thesis by (auto simp: bmask_def bit_exp_iff possible_bit_word)
qed

lemma bfree_at_bit: "bfree_at d bi \<longleftrightarrow> \<not> bit (d (bi div 8)) (bi mod 8)"
proof -
  have "d (bi div 8) AND bmask bi = 0 \<longleftrightarrow> (\<forall>m. \<not> (bit (d (bi div 8)) m \<and> m = bi mod 8))"
    by (subst bit_eq_iff) (auto simp: bit_and_iff bit_bmask dest: spec[of _ "bi mod 8"])
  then show ?thesis by (auto simp: bfree_at_def)
qed

lemma same_bit: "(c :: nat) div 8 = b div 8 \<Longrightarrow> c mod 8 = b mod 8 \<longleftrightarrow> c = b"
  by (metis div_mult_mod_eq)

lemma bfree_at_set:
  "bfree_at (d(bi div 8 := d (bi div 8) OR bmask bi)) ci \<longleftrightarrow> bfree_at d ci \<and> ci \<noteq> bi"
  by (cases "ci div 8 = bi div 8") (auto simp: bfree_at_bit bit_or_iff bit_bmask same_bit)

lemma bfree_at_clear:
  "bfree_at (d(bi div 8 := d (bi div 8) AND NOT (bmask bi))) ci \<longleftrightarrow> bfree_at d ci \<or> ci = bi"
proof (cases "ci div 8 = bi div 8")
  case True
  have "ci mod 8 < 8" by simp
  then show ?thesis using True by (auto simp: bfree_at_bit bit_and_iff bit_not_iff bit_bmask same_bit)
qed (auto simp: bfree_at_bit)

definition used :: "kernel \<Rightarrow> nat \<Rightarrow> bool" where
  "used s b \<longleftrightarrow> \<not> bfree_at (blk s (BBLOCK b (sblk s))) (b mod BPB)"

lemma BBLOCK_eq:
  assumes "b < 2 ^ 32" "c < 2 ^ 32"
  shows "BBLOCK b sb = BBLOCK c sb \<longleftrightarrow> b div BPB = c div BPB"
proof -
  have "b div BPB < 2 ^ 32" "c div BPB < 2 ^ 32" using assms by (meson div_le_dividend le_less_trans)+
  then show ?thesis by (simp add: BBLOCK_def word_of_nat_eq_iff take_bit_nat_eq_self)
qed

text \<open>Changing one bit of a bitmap block changes \<open>used\<close> at one block number.\<close>

lemma used_upd:
  assumes b: "b < 2 ^ 32" "c < 2 ^ 32" and v: "sblk t = sblk s" "blk t = (blk s)(BBLOCK b (sblk s) := g (blk s (BBLOCK b (sblk s))))"
    and g: "\<And>d ci. bfree_at (g d) ci \<longleftrightarrow> (if ci = b mod BPB then F else bfree_at d ci)"
  shows "used t c \<longleftrightarrow> (if c = b then \<not> F else used s c)"
proof (cases "c div BPB = b div BPB")
  case True
  then have "BBLOCK c (sblk s) = BBLOCK b (sblk s)" using BBLOCK_eq[OF b(2,1)] by simp
  moreover have "c mod BPB = b mod BPB \<longleftrightarrow> c = b" using True by (metis div_mult_mod_eq)
  ultimately show ?thesis by (simp add: used_def v g)
next
  case False
  then have "BBLOCK c (sblk s) \<noteq> BBLOCK b (sblk s)" "c \<noteq> b" using BBLOCK_eq[OF b(2,1)] by auto
  then show ?thesis by (simp add: used_def v)
qed

section \<open>bzero and bfree\<close>

lemma bzero_ok:
  assumes "budget (Suc k) s" "x \<notin> log_region s"
  shows "\<exists>s'. bzero ROOTDEV x s = Inr s' \<and> txn_step s x s' \<and> budget k s' \<and>
    blk s' = (blk s)(x := memset (blk s x) 0 0 BSIZE)"
proof -
  obtain c s1 s2' where r: "bread ROOTDEV x s = Inr (c, s1)" "bio_frame s s1" "b_data (bufs s1 ! c) = blk s x"
    "brelse c s1 = Inr s2'" "same_view s s2'" "budget (Suc k) s2'" by (rule budget_read[OF assms(1)], rule that)
  obtain s2 s3 where "log_write c (bset c (\<lambda>d. memset d 0 0 BSIZE) s1) = Inr s2" "brelse c s2 = Inr s3"
    "txn_step s x s3" "budget k s3" "blk s3 = (blk s)(x := memset (blk s x) 0 0 BSIZE)"
    by (rule budget_put[OF assms r(1)], rule that)
  then show ?thesis using r(1) by (auto simp: bzero_def)
qed

lemma bfree_ok:
  assumes k: "budget (Suc k) s" and x: "BBLOCK (unat b) (sblk s) \<notin> log_region s" and u: "used s (unat b)"
  shows "\<exists>s'. bfree ROOTDEV b s = Inr s' \<and> txn_step s (BBLOCK (unat b) (sblk s)) s' \<and> budget k s' \<and>
    (\<forall>y. y \<noteq> BBLOCK (unat b) (sblk s) \<longrightarrow> blk s' y = blk s y) \<and>
    (\<forall>c < 2 ^ 32. used s' c \<longleftrightarrow> used s c \<and> c \<noteq> unat b)"
proof -
  let ?x = "BBLOCK (unat b) (sblk s)" and ?bi = "unat b mod BPB"
  let ?g = "\<lambda>d. d(?bi div 8 := d (?bi div 8) AND NOT (bmask ?bi))"
  obtain c s1 s2' where r: "bread ROOTDEV ?x s = Inr (c, s1)" "bio_frame s s1" "b_data (bufs s1 ! c) = blk s ?x"
    "brelse c s1 = Inr s2'" "same_view s s2'" "budget (Suc k) s2'" by (rule budget_read[OF k], rule that)
  obtain s2 s3 where w: "log_write c (bset c ?g s1) = Inr s2" "brelse c s2 = Inr s3"
    "txn_step s ?x s3" "budget k s3" "blk s3 = (blk s)(?x := ?g (blk s ?x))"
    by (rule budget_put[OF k x r(1)], rule that)
  have "bfree ROOTDEV b s = Inr s3" using u w(1,2) by (simp add: bfree_def r(1,3) Let_def used_def)
  moreover have "sblk s3 = sblk s" using w(3) txn_frame_fields(3) by (auto simp: txn_step_def)
  then have "used s3 d \<longleftrightarrow> (if d = unat b then \<not> True else used s d)" if "d < 2 ^ 32" for d
    using used_upd[where g = ?g, OF unat_less_32 that _ w(5), of True] by (simp add: bfree_at_clear)
  moreover have "\<forall>y. y \<noteq> ?x \<longrightarrow> blk s3 y = blk s y" using w(5) by simp
  ultimately show ?thesis using w(3,4) by auto
qed

lemma bfree_free_panics:
  assumes k: "budget (Suc k) s" and u: "\<not> used s (unat b)"
  shows "bfree ROOTDEV b s = Inl (Panic ''freeing free block'')"
proof -
  let ?x = "BBLOCK (unat b) (sblk s)"
  obtain c s1 s2' where r: "bread ROOTDEV ?x s = Inr (c, s1)" "bio_frame s s1" "b_data (bufs s1 ! c) = blk s ?x"
    "brelse c s1 = Inr s2'" "same_view s s2'" "budget (Suc k) s2'" by (rule budget_read[OF k], rule that)
  show ?thesis using u by (simp add: bfree_def r(1,3) Let_def used_def)
qed

section \<open>balloc\<close>

definition free_in :: "kernel \<Rightarrow> nat \<Rightarrow> nat option" where
  "free_in s b = find (bfree_at (blk s (BBLOCK b (sblk s)))) [0..<min BPB (unat (sb_size (sblk s)) - b)]"

lemma same_viewD:
  assumes "same_view s s'"
  shows "blk s' = blk s" "sblk s' = sblk s" "klog s' = klog s" "log_region s' = log_region s" "free_in s' = free_in s"
    "used s' = used s"
proof -
  have f: "bio_frame s s'" and b: "blk s' = blk s" using assms by (auto simp: same_view_def)
  then show v: "blk s' = blk s" "sblk s' = sblk s" and k: "klog s' = klog s" using bio_frame_fields[OF f] by auto
  show "log_region s' = log_region s" by (rule klog_cong(3)[OF k])
  show "free_in s' = free_in s" "used s' = used s" by (simp_all add: free_in_def used_def v fun_eq_iff)
qed

lemma balloc_scan_skip:
  assumes k: "budget (Suc k) s" and f: "free_in s b = None"
  shows "\<exists>s'. balloc_scan ROOTDEV (b # bs) s = balloc_scan ROOTDEV bs s' \<and> same_view s s' \<and> budget (Suc k) s'"
proof -
  obtain c s1 s2 where r: "bread ROOTDEV (BBLOCK b (sblk s)) s = Inr (c, s1)" "bio_frame s s1"
    "b_data (bufs s1 ! c) = blk s (BBLOCK b (sblk s))"
    "brelse c s1 = Inr s2" "same_view s s2" "budget (Suc k) s2" by (rule budget_read[OF k], rule that)
  have "sblk s1 = sblk s" using bio_frame_fields[OF r(2)] by simp
  then have "balloc_scan ROOTDEV (b # bs) s = balloc_scan ROOTDEV bs s2"
    using f by (simp add: r(1,3,4) free_in_def)
  then show ?thesis using r(5,6) by blast
qed

lemma balloc_scan_full:
  "budget (Suc k) s \<Longrightarrow> \<forall>b\<in>set bs. free_in s b = None \<Longrightarrow>
     balloc_scan ROOTDEV bs s = Inl (Panic ''balloc: out of blocks'')"
proof (induction bs arbitrary: s)
  case (Cons b bs)
  then obtain s' where s': "balloc_scan ROOTDEV (b # bs) s = balloc_scan ROOTDEV bs s'" "same_view s s'" "budget (Suc k) s'"
    using balloc_scan_skip[of k s b bs] by auto
  moreover have "\<forall>b\<in>set bs. free_in s' b = None" using Cons.prems(2) same_viewD(5)[OF s'(2)] by simp
  ultimately show ?case using Cons.IH[of s'] by simp
qed simp

lemma balloc_scan_first:
  "budget (Suc k) s \<Longrightarrow> \<forall>b\<in>set pre. free_in s b = None \<Longrightarrow>
     \<exists>s'. balloc_scan ROOTDEV (pre @ bs) s = balloc_scan ROOTDEV bs s' \<and> same_view s s' \<and> budget (Suc k) s'"
proof (induction pre arbitrary: s)
  case Nil
  then have "same_view s s" using budgetD(4) by (auto simp: same_view_def bio_frame_refl)
  then show ?case using Nil by auto
next
  case (Cons b pre)
  then obtain s' where s': "balloc_scan ROOTDEV (b # pre @ bs) s = balloc_scan ROOTDEV (pre @ bs) s'" "same_view s s'"
    "budget (Suc k) s'" using balloc_scan_skip[of k s b "pre @ bs"] by auto
  have "\<forall>b\<in>set pre. free_in s' b = None" using Cons.prems(2) same_viewD(5)[OF s'(2)] by simp
  from Cons.IH[OF s'(3) this] show ?case using s'(1,2) same_view_trans by fastforce
qed

text \<open>The step that allocates block \<open>b + bi\<close>: set its bit, then clear the block.\<close>

lemma balloc_scan_take:
  assumes k: "budget (Suc (Suc k)) s" and f: "free_in s b = Some bi" and b: "b mod BPB = 0" "b + bi < 2 ^ 32"
    and x: "BBLOCK b (sblk s) \<notin> log_region s" "of_nat (b + bi) \<notin> log_region s"
  shows "\<exists>s'. balloc_scan ROOTDEV (b # bs) s = Inr (of_nat (b + bi), s') \<and> budget k s' \<and> txn_frame s s' \<and>
    lkd s' = lkd s \<and> disk s' = disk s \<and>
    blk s' = (let d = (blk s)(BBLOCK b (sblk s) := (blk s (BBLOCK b (sblk s)))
                  (bi div 8 := blk s (BBLOCK b (sblk s)) (bi div 8) OR bmask bi))
              in d(of_nat (b + bi) := memset (d (of_nat (b + bi))) 0 0 BSIZE))"
proof -
  let ?x = "BBLOCK b (sblk s)" and ?y = "of_nat (b + bi) :: u32" and ?g = "\<lambda>d. d(bi div 8 := d (bi div 8) OR bmask bi)"
  obtain c s1 s2' where r: "bread ROOTDEV ?x s = Inr (c, s1)" "bio_frame s s1" "b_data (bufs s1 ! c) = blk s ?x"
    "brelse c s1 = Inr s2'" "same_view s s2'" "budget (Suc (Suc k)) s2'" by (rule budget_read[OF k], rule that)
  have sb: "sblk s1 = sblk s" using bio_frame_fields[OF r(2)] by simp
  obtain s2 s3 where w: "log_write c (bset c ?g s1) = Inr s2" "brelse c s2 = Inr s3"
    "txn_step s ?x s3" "budget (Suc k) s3" "blk s3 = (blk s)(?x := ?g (blk s ?x))"
    by (rule budget_put[OF k x(1) r(1)], rule that)
  have st: "l_start (klog s3) = l_start (klog s)" using w(3) by (auto simp: txn_step_def log_append_def)
  have "log_region s3 = log_region s" by (simp add: log_region_def lblk_def st)
  then obtain s4 where z: "bzero ROOTDEV ?y s3 = Inr s4" "txn_step s3 ?y s4" "budget k s4"
    "blk s4 = (blk s3)(?y := memset (blk s3 ?y) 0 0 BSIZE)" using bzero_ok[OF w(4), of ?y] x(2) by auto
  have "balloc_scan ROOTDEV (b # bs) s = Inr (?y, s4)"
    using f w(1,2) z(1) by (simp add: r(1,3) sb free_in_def)
  moreover have "txn_frame s s4" using w(3) z(2) txn_frame_trans by (auto simp: txn_step_def)
  moreover have "lkd s4 = lkd s" "disk s4 = disk s" using w(3) z(2) by (auto simp: txn_step_def)
  ultimately show ?thesis using z(3,4) by (auto simp: w(5) Let_def)
qed

text \<open>
  The blocks of the log and of the bitmap are never free: \<^verbatim>\<open>mkfs\<close> marks the blocks before the data
  area as used.
\<close>

definition nblocks :: "kernel \<Rightarrow> nat" where
  "nblocks s = unat (sb_size (sblk s))"

definition bitmap_ok :: "kernel \<Rightarrow> bool" where
  "bitmap_ok s \<longleftrightarrow> (\<forall>b<nblocks s. BBLOCK b (sblk s) \<notin> log_region s) \<and>
     (\<forall>b<nblocks s. of_nat b \<in> log_region s \<union> (\<lambda>c. BBLOCK c (sblk s)) ` {..<nblocks s} \<longrightarrow> used s b)"

lemma free_not_meta:
  assumes "bitmap_ok s" "b < nblocks s" "\<not> used s b"
  shows "of_nat b \<notin> log_region s" "BBLOCK b (sblk s) \<notin> log_region s" "c < nblocks s \<Longrightarrow> BBLOCK c (sblk s) \<noteq> of_nat b"
proof -
  have m: "of_nat b \<notin> log_region s \<union> (\<lambda>c. BBLOCK c (sblk s)) ` {..<nblocks s}"
    using assms unfolding bitmap_ok_def by blast
  then show "of_nat b \<notin> log_region s" by blast
  show "BBLOCK b (sblk s) \<notin> log_region s" using assms unfolding bitmap_ok_def by blast
  show "c < nblocks s \<Longrightarrow> BBLOCK c (sblk s) \<noteq> of_nat b" using m by (metis UnI2 imageI lessThan_iff)
qed

lemma nblocks_less: "c < nblocks s \<Longrightarrow> c < 2 ^ 32"
  unfolding nblocks_def using unat_less_32[of "sb_size (sblk s)"] by linarith

lemma BPB_pos: "0 < BPB"
  by (simp add: param_defs)

lemma BBLOCK_base: "r < BPB \<Longrightarrow> BBLOCK (BPB * q + r) sb = BBLOCK (BPB * q) sb"
  using BPB_pos by (simp add: BBLOCK_def)

lemma free_at_used: "r < BPB \<Longrightarrow> bfree_at (blk s (BBLOCK (BPB * q) (sblk s))) r \<longleftrightarrow> \<not> used s (BPB * q + r)"
  by (simp add: used_def BBLOCK_base)

lemma free_in_None:
  "free_in s (BPB * q) = None \<longleftrightarrow> (\<forall>r. r < BPB \<and> BPB * q + r < nblocks s \<longrightarrow> used s (BPB * q + r))"
  unfolding free_in_def nblocks_def[symmetric] find_None_iff using free_at_used[of _ s q] by (auto simp: less_diff_conv add.commute)

lemma free_in_Some:
  assumes "b < nblocks s" "\<not> used s b" "\<forall>c<b. used s c"
  shows "free_in s (BPB * (b div BPB)) = Some (b mod BPB)"
proof -
  let ?q = "b div BPB" and ?r = "b mod BPB"
  have r: "?r < BPB" "BPB * ?q + ?r = b" using BPB_pos by auto
  have "bfree_at (blk s (BBLOCK (BPB * ?q) (sblk s))) ?r" using free_at_used[OF r(1), of s ?q] assms(2) r(2) by simp
  moreover have "\<forall>j<?r. \<not> bfree_at (blk s (BBLOCK (BPB * ?q) (sblk s))) j"
    using free_at_used[of _ s ?q] assms(3) r by (metis less_trans nat_add_left_cancel_less)
  moreover have "?r < min BPB (nblocks s - BPB * ?q)" using r assms(1) by linarith
  ultimately show ?thesis unfolding free_in_def nblocks_def[symmetric] find_Some_iff by (intro exI[of _ ?r]) simp
qed

lemma bases_split:
  assumes "q < n"
  shows "map ((*) BPB) [0..<n] = map ((*) BPB) [0..<q] @ (BPB * q) # map ((*) BPB) [Suc q..<n]"
  using assms by (metis list.simps(9) map_append upt_add_eq_append upt_conv_Cons le_add_diff_inverse less_imp_le plus_nat.add_0 zero_le)

lemma balloc_first:
  assumes k: "budget (Suc (Suc k)) s" and bm: "bitmap_ok s" and b: "b < nblocks s" "\<not> used s b" "\<forall>c<b. used s c"
  shows "\<exists>s'. balloc ROOTDEV s = Inr (of_nat b, s') \<and> budget k s' \<and> txn_frame s s' \<and> disk s' = disk s \<and>
    (\<forall>c<nblocks s. used s' c \<longleftrightarrow> used s c \<or> c = b) \<and> blk s' (of_nat b) = memset (blk s (of_nat b)) 0 0 BSIZE \<and>
    (\<forall>y. y \<noteq> of_nat b \<longrightarrow> y \<noteq> BBLOCK b (sblk s) \<longrightarrow> blk s' y = blk s y)"
proof -
  let ?q = "b div BPB" and ?r = "b mod BPB" and ?x = "BBLOCK b (sblk s)"
  let ?g = "\<lambda>d. d(b mod BPB div 8 := d (b mod BPB div 8) OR bmask (b mod BPB))"
  have r: "?r < BPB" "BPB * ?q + ?r = b" using BPB_pos by auto
  have x: "BBLOCK (BPB * ?q) (sblk s) = ?x" using BBLOCK_base[OF r(1), of ?q] r(2) by simp
  have lt: "?q < (nblocks s + BPB - 1) div BPB"
  proof -
    have "b + BPB \<le> nblocks s + BPB - 1" using b(1) by simp
    then have "(b + BPB) div BPB \<le> (nblocks s + BPB - 1) div BPB" by (rule div_le_mono)
    moreover have "(b + BPB) div BPB = Suc ?q" using BPB_pos div_add_self2[of BPB b] by linarith
    ultimately show ?thesis by linarith
  qed
  have "\<forall>c\<in>set (map ((*) BPB) [0..<?q]). free_in s c = None"
  proof
    fix c assume "c \<in> set (map ((*) BPB) [0..<?q])"
    then obtain p where p: "p < ?q" "c = BPB * p" by auto
    have "BPB * p + t < b" if "t < BPB" for t
    proof -
      have "BPB * Suc p \<le> BPB * ?q" using p(1) by (intro mult_le_mono2) simp
      moreover have "BPB * Suc p = BPB * p + BPB" by simp
      ultimately show ?thesis using that r(2) by linarith
    qed
    then show "free_in s c = None" unfolding p(2) free_in_None using b(3) by simp
  qed
  from balloc_scan_first[OF k this, of "BPB * ?q # map ((*) BPB) [Suc ?q..<(nblocks s + BPB - 1) div BPB]"]
  obtain t where t: "balloc ROOTDEV s = balloc_scan ROOTDEV (BPB * ?q # map ((*) BPB) [Suc ?q..<(nblocks s + BPB - 1) div BPB]) t"
    "same_view s t" "budget (Suc (Suc k)) t"
    unfolding balloc_def nblocks_def[symmetric] bases_split[OF lt] by blast
  note V = same_viewD[OF t(2)]
  have y: "of_nat b \<notin> log_region s" "?x \<notin> log_region s" "?x \<noteq> of_nat b" using free_not_meta[OF bm b(1,2)] b(1) by auto
  have x': "BBLOCK (BPB * ?q) (sblk t) \<notin> log_region t" "of_nat (BPB * ?q + ?r) \<notin> log_region t" "BPB * ?q + ?r < 2 ^ 32"
    unfolding r(2) V x using y nblocks_less[OF b(1)] by auto
  have "BPB * ?q mod BPB = 0" by simp
  from balloc_scan_take[OF t(3) free_in_Some[OF b, folded V(5)] this x'(3,1,2)] obtain s' where
    s': "balloc ROOTDEV s = Inr (of_nat b, s')" "budget k s'" "txn_frame t s'" "lkd s' = lkd t" "disk s' = disk t"
      "blk s' = (let d = (blk s)(?x := ?g (blk s ?x)) in d(of_nat b := memset (d (of_nat b)) 0 0 BSIZE))"
    unfolding t(1) V r(2) x by blast
  have fr: "txn_frame s s'" using txn_frame_trans[OF txn_frame_bio s'(3)] t(2) by (simp add: same_view_def)
  have sb: "sblk s' = sblk s" by (rule txn_frame_fields(3)[OF fr])
  have d: "disk s' = disk s" using t(2) s'(5) by (simp add: same_view_def)
  have "used s' c \<longleftrightarrow> used s c \<or> c = b" if c: "c < nblocks s" for c
  proof -
    have nb: "BBLOCK c (sblk s) \<noteq> of_nat b" by (rule free_not_meta(3)[OF bm b(1,2) c])
    show ?thesis
    proof (cases "BBLOCK c (sblk s) = ?x")
      case True
      then have "c div BPB = ?q" using BBLOCK_eq[OF nblocks_less[OF c] nblocks_less[OF b(1)]] by simp
      then have "c mod BPB = ?r \<longleftrightarrow> c = b" by (metis div_mult_mod_eq)
      then show ?thesis using nb True by (simp add: used_def sb s'(6) Let_def bfree_at_set)
    next
      case False
      then have "c \<noteq> b" by blast
      then show ?thesis using nb False by (simp add: used_def sb s'(6) Let_def)
    qed
  qed
  moreover have "blk s' (of_nat b) = memset (blk s (of_nat b)) 0 0 BSIZE" using y(3) by (simp add: s'(6) Let_def)
  ultimately show ?thesis using s'(1,2) fr d by (auto simp: s'(6) Let_def)
qed

lemma balloc_full:
  assumes "budget (Suc k) s" "\<forall>b<nblocks s. used s b"
  shows "balloc ROOTDEV s = Inl (Panic ''balloc: out of blocks'')"
  unfolding balloc_def using assms(2) by (intro balloc_scan_full[OF assms(1)]) (auto simp: free_in_None)

end
