(* ===== verification/Boot_State.thy ===== *)
theory Boot_State
  imports Fs_Blocks
begin

text \<open>
  A machine after the buffer cache and the log are set up, on an arbitrary disk: the states the
  assumptions of the file-system theorems are checked on.
\<close>

definition boot_syms :: ksyms where
  "boot_syms = \<lparr>sym_forkret = 0x80002000, sym_usertrap = 0x80002400, sym_kernelvec = 0x80005c00,
     sym_uservec = 0x80007000, sym_userret = 0x80007090\<rparr>"

definition booted :: "(u32 \<Rightarrow> bytes) \<Rightarrow> kernel" where
  "booted d = (binit (kernel0 0x80026020 0x80008000 0x80007000 boot_syms (\<lambda>_. 0) d))\<lparr>curproc := Some 0\<rparr>"

lemma upd_buf_frame: "upd_buf i f s = s\<lparr>bufs := bufs (upd_buf i f s)\<rparr>"
  by (simp add: upd_buf_def)

lemma binit_frame: "binit s = s\<lparr>bufs := bufs (binit s)\<rparr>"
proof -
  have push: "\<exists>B. lru_push b s = s\<lparr>bufs := B\<rparr>" for b s
    unfolding lru_push_def upd_buf_def by (simp add: Let_def) blast
  have init: "\<exists>B. initsleeplock (SlBuf b) s = s\<lparr>bufs := B\<rparr>" for b s
    unfolding initsleeplock_def set_sl_buf upd_buf_def by blast
  have "\<exists>B. fold (\<lambda>b s. lru_push b (initsleeplock (SlBuf b) s)) xs s = s\<lparr>bufs := B\<rparr>" for xs s
  proof (induction xs arbitrary: s)
    case Nil
    show ?case by (rule exI[of _ "bufs s"]) simp
  next
    case (Cons x xs)
    obtain B where B: "initsleeplock (SlBuf x) s = s\<lparr>bufs := B\<rparr>" using init by blast
    obtain C where C: "lru_push x (s\<lparr>bufs := B\<rparr>) = s\<lparr>bufs := C\<rparr>" using push[of x "s\<lparr>bufs := B\<rparr>"] by auto
    obtain D where "fold (\<lambda>b s. lru_push b (initsleeplock (SlBuf b) s)) xs (s\<lparr>bufs := C\<rparr>) = s\<lparr>bufs := D\<rparr>"
      using Cons[of "s\<lparr>bufs := C\<rparr>"] by auto
    then show ?case by (auto simp: B C)
  qed
  note F = this
  obtain A where A: "upd_buf NBUF (\<lambda>x. x\<lparr>b_next := NBUF\<rparr>) (upd_buf NBUF (\<lambda>x. x\<lparr>b_prev := NBUF\<rparr>) s) = s\<lparr>bufs := A\<rparr>"
    unfolding upd_buf_def by auto
  obtain B where B: "binit s = (s\<lparr>bufs := A\<rparr>)\<lparr>bufs := B\<rparr>"
    using F[of "[0..<NBUF]" "s\<lparr>bufs := A\<rparr>"] unfolding binit_def Let_def A by blast
  then have "binit s = s\<lparr>bufs := B\<rparr>" by simp
  then show ?thesis by simp
qed

lemma booted_fields:
  "held (booted d) = {}" "curproc (booted d) = Some 0" "procs (booted d) = replicate NPROC proc0"
  "klog (booted d) = log0" "disk (booted d) = d" "wtrace (booted d) = []" "sblk (booted d) = superblock0"
  unfolding booted_def by (subst binit_frame, simp add: kernel0_def)+

lemma booted_view:
  "bio_ok (booted d)" "refs (booted d) = (\<lambda>_. 0)" "lkd (booted d) = (\<lambda>_. None)" "blk (booted d) = d"
proof -
  let ?k = "kernel0 0x80026020 0x80008000 0x80007000 boot_syms (\<lambda>_. 0) d"
  note B = binit_bc_inv[of ?k, OF fresh_kernel0]
  have v: "bufs (booted d) = bufs (binit ?k)" "disk (booted d) = disk (binit ?k)" by (simp_all add: booted_def)
  note c = view_cong[OF v]
  show r: "refs (booted d) = (\<lambda>_. 0)" and l: "lkd (booted d) = (\<lambda>_. None)" by (simp_all add: c B)
  show "blk (booted d) = d" using B(4) by (simp add: c kernel0_def)
  have "bio_ctx (booted d)"
    by (simp add: bio_ctx_def no_proc_lock_def procs_ok_def booted_fields param_defs)
  then show "bio_ok (booted d)" by (simp add: bio_ok_def c(1) B(1) settled_def l)
qed

lemma booted_blockno: "b \<le> NBUF \<Longrightarrow> b_blockno (bufs (booted d) ! b) = 0"
proof -
  assume b: "b \<le> NBUF"
  let ?k = "kernel0 0x80026020 0x80008000 0x80007000 boot_syms (\<lambda>_. 0) d"
  have "fresh_bufs (binit ?k)" by (rule binit_fresh(1)[OF fresh_kernel0])
  then have "core (bufs (binit ?k) ! b) = core buf0" using b by (simp add: fresh_bufs_def)
  then have "b_blockno (core (bufs (binit ?k) ! b)) = b_blockno (core buf0)" by simp
  then show ?thesis by (simp add: booted_def core_def buf0_def)
qed

text \<open>The same machine inside an operation: the log starts at block 2, as \<^verbatim>\<open>mkfs\<close> lays it out.\<close>

definition in_op :: "(u32 \<Rightarrow> bytes) \<Rightarrow> kernel" where
  "in_op d = upd_log (\<lambda>l. l\<lparr>l_start := 2, l_size := 30, l_dev := ROOTDEV, l_outstanding := 1\<rparr>) (booted d)"

lemma in_op_fields:
  "klog (in_op d) = log0\<lparr>l_start := 2, l_size := 30, l_dev := ROOTDEV, l_outstanding := 1\<rparr>"
  "held (in_op d) = {}" "disk (in_op d) = d" "blk (in_op d) = d" "refs (in_op d) = (\<lambda>_. 0)" "lkd (in_op d) = (\<lambda>_. None)"
  "sblk (in_op d) = superblock0" "bio_ok (in_op d)"
proof -
  show "held (in_op d) = {}" "sblk (in_op d) = superblock0"
    by (simp_all add: in_op_def upd_log_def booted_fields)
qed (simp_all add: in_op_def booted_fields booted_view)

lemma in_op_budget: "k \<le> 29 \<Longrightarrow> budget k (in_op d)"
proof -
  assume k: "k \<le> 29"
  have "log_layout 0 (in_op d)" by (simp add: log_layout_def in_op_fields log0_def param_defs)
  then have "txn 0 (in_op d)" by (simp add: txn_def in_op_fields log0_def)
  then show ?thesis using k by (auto simp: budget_def in_op_fields log0_def busy_def param_defs intro!: exI[of _ 0])
qed

text \<open>
  A transaction of one block, ready to commit: block 100 zeroed on a disk that is full of ones
  except for the log header.
\<close>

definition ones_disk :: "u32 \<Rightarrow> bytes" where
  "ones_disk = (\<lambda>n _. if n = 2 then 0 else 1)"

definition zeroed_100 :: kernel where
  "zeroed_100 = projr (bzero ROOTDEV 100 (in_op ones_disk))"

lemma in_op_region: "log_region (in_op d) = of_nat ` {2..32}"
proof -
  have "lblk (in_op d) i = of_nat (3 + i)" for i by (simp add: lblk_def in_op_fields)
  then have "log_region (in_op d) = insert 2 ((\<lambda>i. of_nat (3 + i)) ` {..<30})"
    by (simp add: log_region_def in_op_fields param_defs)
  also have "\<dots> = of_nat ` insert 2 ((\<lambda>i. 3 + i) ` {..<30})" by (simp add: image_image)
  also have "insert 2 ((\<lambda>i. 3 + i) ` {..<30 :: nat}) = {2..32}"
    by (auto simp: lessThan_atLeast0)
  finally show ?thesis .
qed

lemma outside_region: "32 < n \<Longrightarrow> n < 2 ^ 32 \<Longrightarrow> (of_nat n :: u32) \<notin> of_nat ` {2..32 :: nat}"
proof
  assume n: "32 < n" "n < 2 ^ 32" and "(of_nat n :: u32) \<in> of_nat ` {2..32}"
  then obtain k :: nat where "k \<le> 32" "(of_nat n :: u32) = of_nat k" by auto
  then show False using n by (simp add: of_nat_inverse word_of_nat_eq_iff take_bit_nat_eq_self)
qed

lemma zeroed_100_ok:
  "bzero ROOTDEV 100 (in_op ones_disk) = Inr zeroed_100" "txn_step (in_op ones_disk) 100 zeroed_100" "budget 28 zeroed_100"
  "blk zeroed_100 = ones_disk(100 := memset (ones_disk 100) 0 0 BSIZE)"
proof -
  have "(100 :: u32) \<notin> log_region (in_op ones_disk)" unfolding in_op_region using outside_region[of 100] by simp
  with bzero_ok[of 28 "in_op ones_disk" 100] in_op_budget[of 29 ones_disk]
  obtain s' where "bzero ROOTDEV 100 (in_op ones_disk) = Inr s'" "txn_step (in_op ones_disk) 100 s'" "budget 28 s'"
    "blk s' = (blk (in_op ones_disk))(100 := memset (blk (in_op ones_disk) 100) 0 0 BSIZE)" by auto
  then show "bzero ROOTDEV 100 (in_op ones_disk) = Inr zeroed_100" "txn_step (in_op ones_disk) 100 zeroed_100" "budget 28 zeroed_100"
    "blk zeroed_100 = ones_disk(100 := memset (ones_disk 100) 0 0 BSIZE)"
    by (simp_all add: zeroed_100_def in_op_fields)
qed

lemma zeroed_100_fields:
  "klog zeroed_100 = log_append 100 (klog (in_op ones_disk))" "refs zeroed_100 = (\<lambda>_. 0)(100 := 1)"
  "lkd zeroed_100 = (\<lambda>_. None)" "disk zeroed_100 = ones_disk" "txn 1 zeroed_100"
proof -
  have e: "logged_blocks (in_op ones_disk) = {}" by (simp add: logged_blocks_def in_op_fields log0_def)
  note T = zeroed_100_ok(2)[unfolded txn_step_def e, simplified]
  show "klog zeroed_100 = log_append 100 (klog (in_op ones_disk))" "refs zeroed_100 = (\<lambda>_. 0)(100 := 1)"
    "lkd zeroed_100 = (\<lambda>_. None)" "disk zeroed_100 = ones_disk" using T by (simp_all add: in_op_fields)
  have "nat (l_n (klog zeroed_100)) = 1" using T by (simp add: log_append_def in_op_fields log0_def)
  then show "txn 1 zeroed_100" using T by metis
qed

lemma zeroed_100_ready: "commit_ready 1 zeroed_100" "lhdr zeroed_100 = 2" "l_start (klog zeroed_100) = 2"
proof -
  have "busy zeroed_100 = {100}" by (auto simp: busy_def zeroed_100_fields)
  then show "commit_ready 1 zeroed_100"
    unfolding commit_ready_txn using zeroed_100_fields by (simp add: param_defs)
qed (simp_all add: zeroed_100_fields log_append_def in_op_fields)

lemma zeroed_100_head: "load32 (disk zeroed_100 (lhdr zeroed_100)) 0 = 0"
proof -
  have "disk zeroed_100 (lhdr zeroed_100) = (\<lambda>_. 0)"
    unfolding zeroed_100_ready(2) zeroed_100_fields(4) by (simp add: ones_disk_def)
  then show ?thesis by (simp add: load32_zero)
qed

lemma zeroed_100_log: "log_region zeroed_100 = of_nat ` {2..32}" "home zeroed_100 0 = 100"
proof -
  have "l_start (klog zeroed_100) = l_start (klog (in_op ones_disk))" by (simp add: zeroed_100_fields log_append_def)
  then have "log_region zeroed_100 = log_region (in_op ones_disk)" by (simp add: log_region_def lblk_def)
  then show "log_region zeroed_100 = of_nat ` {2..32}" by (simp add: in_op_region)
  show "home zeroed_100 0 = 100" by (simp add: zeroed_100_fields log_append_def in_op_fields log0_def param_defs)
qed

text \<open>The operation on a file system of 1000 blocks whose first 72 blocks are in use.\<close>

definition fs_disk :: "u32 \<Rightarrow> bytes" where
  "fs_disk = (\<lambda>n i. if n = 45 \<and> i < 9 then 255 else 0)"

definition fs_sb :: superblock where
  "fs_sb = \<lparr>sb_magic = FSMAGIC, sb_size = 1000, sb_nblocks = 954, sb_ninodes = 200, sb_nlog = 30, sb_logstart = 2,
     sb_inodestart = 32, sb_bmapstart = 45\<rparr>"

definition fs_op :: kernel where
  "fs_op = (in_op fs_disk)\<lparr>sblk := fs_sb\<rparr>"

lemma fs_op_fields: "blk fs_op = fs_disk" "disk fs_op = fs_disk" "sblk fs_op = fs_sb" "log_region fs_op = of_nat ` {2..32}"
  "nblocks fs_op = 1000"
proof -
  show "blk fs_op = fs_disk" using view_cong(3)[of fs_op "in_op fs_disk"] by (simp add: fs_op_def in_op_fields)
  show "log_region fs_op = of_nat ` {2..32}" using klog_cong(3)[of fs_op "in_op fs_disk"] by (simp add: fs_op_def in_op_region)
qed (simp_all add: fs_op_def in_op_fields nblocks_def fs_sb_def)

lemma fs_op_budget: "k \<le> 29 \<Longrightarrow> budget k fs_op"
  using budget_cong[of fs_op "in_op fs_disk"] in_op_budget[of k fs_disk] by (simp add: fs_op_def)

lemma fs_op_BBLOCK: "b < 8192 \<Longrightarrow> BBLOCK b fs_sb = 45"
  by (simp add: BBLOCK_def fs_sb_def param_defs)

lemma fs_op_used: "b < 8192 \<Longrightarrow> used fs_op b \<longleftrightarrow> b < 72"
proof -
  assume b: "b < 8192"
  have ff: "(255 :: u8) = - 1" by simp
  have "bit (255 :: u8) (b mod 8)" unfolding ff by (simp add: bit_minus_1_iff)
  then have "\<not> bfree_at (fs_disk 45) b \<longleftrightarrow> b div 8 < 9" by (simp add: bfree_at_bit fs_disk_def)
  then show ?thesis using b by (simp add: used_def fs_op_fields fs_op_BBLOCK param_defs div_less_iff_less_mult)
qed

lemma fs_op_bitmap: "bitmap_ok fs_op"
proof -
  have r: "b \<le> 45" if "(of_nat b :: u32) \<in> of_nat ` {2..32} \<union> {45}" "b < 1000" for b :: nat
  proof (cases "(of_nat b :: u32) = 45")
    case True
    then have "unat (of_nat b :: u32) = 45" by simp
    then show ?thesis using that(2) by (simp add: unat_of_nat)
  qed (use that outside_region[of b] in \<open>cases "32 < b"; auto\<close>)
  show ?thesis unfolding bitmap_ok_def fs_op_fields
  proof (intro conjI allI impI)
    fix b :: nat assume "b < 1000"
    then show "BBLOCK b fs_sb \<notin> of_nat ` {2..32}" using outside_region[of 45] by (simp add: fs_op_BBLOCK)
  next
    fix b :: nat assume b: "b < 1000" "of_nat b \<in> of_nat ` {2..32} \<union> (\<lambda>c. BBLOCK c fs_sb) ` {..<1000}"
    have "(\<lambda>c. BBLOCK c fs_sb) ` {..<1000} \<subseteq> {45}" by (auto simp: fs_op_BBLOCK)
    then have "of_nat b \<in> of_nat ` {2..32} \<union> {45 :: u32}" using b(2) by blast
    from r[OF this b(1)] show "used fs_op b" using b(1) fs_op_used[of b] by simp
  qed
qed

text \<open>A kernel that ends two and a half pages below the top of memory.\<close>

definition small_kernel :: kernel where
  "small_kernel = kernel0 0x87ffd800 0x80008000 0x80007000 boot_syms (\<lambda>_. 0) (\<lambda>_ _. 0)"

lemma small_kernel_pages: "range_pages (PGROUNDUP 0x87ffd800) PHYSTOP = [0x87ffe000, 0x87fff000]"
proof -
  have "PGROUNDUP 0x87ffd800 = 0x87ffe000" by (simp add: PGROUNDUP_def)
  then show ?thesis by (simp add: range_pages_def layout_vals upt_rec)
qed

end
