(* ===== verification/Boot_Vm.thy ===== *)
theory Boot_Vm
  imports Vm_User Boot_State
begin

text \<open>
  A process with one page of user memory: a three-level page table built by hand, the state the
  assumptions of the theorems on user memory are checked on.
\<close>

definition root_page :: u64 where "root_page = 0x87fff000"
definition mid_page :: u64 where "mid_page = 0x87ffe000"
definition leaf_page :: u64 where "leaf_page = 0x87ffd000"
definition user_frame :: u64 where "user_frame = 0x87ffc000"

lemmas page_addrs = root_page_def mid_page_def leaf_page_def user_frame_def

definition table1 :: bytes where
  "table1 = store64 (memset (\<lambda>_. 0) (unat mid_page) 0 PGSIZE) (unat root_page + 8 * 0) (PA2PTE mid_page OR PTE_V)"

definition table2 :: bytes where
  "table2 = store64 (memset table1 (unat leaf_page) 0 PGSIZE) (unat mid_page + 8 * 0) (PA2PTE leaf_page OR PTE_V)"

definition user_pte :: u64 where
  "user_pte = PA2PTE user_frame OR PTE_R OR PTE_W OR PTE_U OR PTE_V"

definition user_mem :: bytes where
  "user_mem = store64 table2 (unat leaf_page + 8 * 0) user_pte"

lemma load_zero: "load64 (\<lambda>_. 0) a = 0"
  by (simp add: load64_def eval_nat_numeral)

lemma zero_table:
  "node (\<lambda>_. 0) root_page p = (if p = [] then Some root_page else None)" "pt_pages (\<lambda>_. 0) root_page = {root_page}"
  "pt_ok (\<lambda>_. 0) root_page" "leaf (\<lambda>_. 0) root_page p k = 0"
proof -
  have c: "child (\<lambda>_. 0) a i = None" for a i by (simp add: child_def ent_def load_zero)
  show n: "node (\<lambda>_. 0) root_page p = (if p = [] then Some root_page else None)" for p by (cases p) (simp_all add: c)
  have root: "page_aligned root_page" "root_page \<noteq> 0" by (simp_all add: root_page_def page_aligned_def)
  show pp: "pt_pages (\<lambda>_. 0) root_page = {root_page}" by (auto simp: pt_pages_def n paths_def split: if_splits)
  show "pt_ok (\<lambda>_. 0) root_page" using root by (auto simp: pt_ok_def pp n split: if_splits)
  show "leaf (\<lambda>_. 0) root_page p k = 0" by (simp add: leaf_def n ent_def load_zero)
qed

lemma page_facts:
  "page_aligned root_page" "page_aligned mid_page" "page_aligned leaf_page" "page_aligned user_frame"
  "mid_page \<noteq> 0" "leaf_page \<noteq> 0" "mid_page \<noteq> root_page" "leaf_page \<noteq> root_page" "leaf_page \<noteq> mid_page"
  "user_frame \<notin> {root_page, mid_page, leaf_page}"
  by (simp_all add: page_addrs page_aligned_def)

lemma small_paths: "[] \<in> paths" "[0] \<in> paths" "[0, 0] \<in> paths"
  by (auto simp: paths_def)

lemma table1_ok: "pt_ok table1 root_page" "pt_pages table1 root_page = {mid_page, root_page}"
    "q \<in> paths \<Longrightarrow> node table1 root_page q = (if q = [0] then Some mid_page else if q = [] then Some root_page else None)"
    "q \<in> paths \<Longrightarrow> length q = 2 \<Longrightarrow> j < 512 \<Longrightarrow> leaf table1 root_page q j = 0"
proof -
  have c: "child (\<lambda>_. 0) root_page 0 = None" by (simp add: child_def ent_def load_zero)
  have p: "[] @ [0] \<in> paths" using small_paths by simp
  have n: "node (\<lambda>_. 0) root_page [] = Some root_page" by simp
  have d: "mid_page \<notin> pt_pages (\<lambda>_. 0) root_page" using page_facts by (simp add: zero_table)
  note L = link_node[OF zero_table(3) p n c page_facts(2,5) d, folded table1_def]
  show "pt_ok table1 root_page" "pt_pages table1 root_page = {mid_page, root_page}" using L(2,3) by (auto simp: zero_table)
  show "q \<in> paths \<Longrightarrow> node table1 root_page q = (if q = [0] then Some mid_page else if q = [] then Some root_page else None)"
    using L(1)[of q] by (simp add: zero_table)
  show "q \<in> paths \<Longrightarrow> length q = 2 \<Longrightarrow> j < 512 \<Longrightarrow> leaf table1 root_page q j = 0"
    using L(4)[of q j] by (simp add: zero_table)
qed

lemma table2_ok: "pt_ok table2 root_page" "pt_pages table2 root_page = {leaf_page, mid_page, root_page}"
    "node table2 root_page [0, 0] = Some leaf_page" "q \<in> paths \<Longrightarrow> length q = 2 \<Longrightarrow> j < 512 \<Longrightarrow> leaf table2 root_page q j = 0"
proof -
  have p: "[0] @ [0] \<in> paths" using small_paths by simp
  have n: "node table1 root_page [0] = Some mid_page" using table1_ok(3)[OF small_paths(2)] by simp
  have c: "child table1 mid_page 0 = None"
    using table1_ok(3)[OF small_paths(3)] node_snoc[of table1 root_page "[0]" 0] n by simp
  have d: "leaf_page \<notin> pt_pages table1 root_page" using page_facts by (simp add: table1_ok)
  note L = link_node[OF table1_ok(1) p n c page_facts(3,6) d, folded table2_def]
  show "pt_ok table2 root_page" "pt_pages table2 root_page = {leaf_page, mid_page, root_page}" using L(2,3) by (auto simp: table1_ok)
  show "node table2 root_page [0, 0] = Some leaf_page" using L(1)[of "[0, 0]"] small_paths by simp
  show "q \<in> paths \<Longrightarrow> length q = 2 \<Longrightarrow> j < 512 \<Longrightarrow> leaf table2 root_page q j = 0"
    using L(4)[of q j] by (simp add: table1_ok)
qed

lemma user_mem_pt: "pt_ok user_mem root_page" "pt_pages user_mem root_page = {leaf_page, mid_page, root_page}"
    "q \<in> paths \<Longrightarrow> length q = 2 \<Longrightarrow> j < 512 \<Longrightarrow> leaf user_mem root_page q j = (if q = [0, 0] \<and> j = 0 then user_pte else 0)"
proof -
  have l: "length [0, 0 :: nat] = 2" "(0 :: nat) < 512" by simp_all
  note L = store_leaf[OF table2_ok(1) small_paths(3) l(1) table2_ok(3) l(2), where v = user_pte, folded user_mem_def]
  show "pt_ok user_mem root_page" "pt_pages user_mem root_page = {leaf_page, mid_page, root_page}" using L(2,3) by (simp_all add: table2_ok)
  show "q \<in> paths \<Longrightarrow> length q = 2 \<Longrightarrow> j < 512 \<Longrightarrow> leaf user_mem root_page q j = (if q = [0, 0] \<and> j = 0 then user_pte else 0)"
    using L(4)[of q j] by (simp add: table2_ok)
qed

lemma user_mem_vmap: "va < MAXVA \<Longrightarrow> vmap user_mem root_page va = (if unat va < 4096 then user_pte else 0)"
proof -
  assume va: "va < MAXVA"
  have z: "tix 0 = [0, 0]" "unat (PX 0 (0 :: u64)) = 0" by (simp_all add: tix_def PX_def)
  have "(0 :: u64) < MAXVA" by (simp add: word_less_nat_alt layout_vals)
  note same_page_index[OF va this]
  then have "tix va = [0, 0] \<and> unat (PX 0 va) = 0 \<longleftrightarrow> unat va div 4096 = 0" by (simp only: z) simp
  moreover have "unat (PX 0 va) < 512" by (rule PX_less)
  ultimately show ?thesis unfolding vmap_def by (subst user_mem_pt(3)) (auto simp: div_eq_0_iff)
qed

text \<open>The process itself; \<open>user_in\<close> is the process inside the operation of the file system.\<close>

definition user_proc :: proc where
  "user_proc = proc0\<lparr>p_state := RUNNING, p_pid := 1, p_pagetable := root_page, p_sz := 4096\<rparr>"

definition user_state :: kernel where
  "user_state = (booted (\<lambda>_ _. 0))\<lparr>mem := user_mem, procs := user_proc # replicate 63 proc0\<rparr>"

lemma user_pte_bits: "user_pte AND PTE_V \<noteq> 0" "user_pte AND PTE_U \<noteq> 0" "PTE2PA user_pte = user_frame"
  by (simp_all add: user_pte_def user_frame_def PA2PTE_def PTE2PA_def PTE_V_def PTE_U_def PTE_R_def PTE_W_def)

lemma user_state_fields:
  "mem user_state = user_mem" "curproc user_state = Some 0" "held user_state = {}" "procs user_state ! 0 = user_proc"
  "length (procs user_state) = NPROC" "procs user_state = user_proc # replicate 63 proc0"
  unfolding user_state_def by (simp_all add: booted_fields NPROC_def)

lemma user_state_rest: "\<not> panicked user_state" "pipes user_state pi = pipe0" "no_proc_lock user_state" "procs_ok user_state"
proof -
  show "\<not> panicked user_state" "pipes user_state pi = pipe0"
    unfolding user_state_def booted_def by (subst binit_frame, simp add: kernel0_def)+
  show "no_proc_lock user_state" "procs_ok user_state" by (simp_all add: no_proc_lock_def procs_ok_def user_state_fields NPROC_def)
qed

lemma user_umapped: "umapped user_mem root_page va \<longleftrightarrow> unat va < 4096"
proof (cases "va < MAXVA")
  case True
  have "user_frame \<noteq> 0" by (simp add: user_frame_def)
  then show ?thesis using True by (auto simp: umapped_def user_mem_vmap user_pte_bits)
next
  case False
  then show ?thesis by (simp add: umapped_def word_less_nat_alt layout_vals)
qed

lemma user_frames: "frames_ok user_mem root_page"
proof -
  have u: "unat va < 4096" "vmap user_mem root_page va = user_pte"
    if "va < MAXVA" "vmap user_mem root_page va AND PTE_V \<noteq> 0" for va
    using that by (auto simp: user_mem_vmap split: if_splits)
  show ?thesis unfolding frames_ok_def
  proof (intro conjI allI impI)
    fix va assume va: "va < MAXVA" "vmap user_mem root_page va AND PTE_V \<noteq> 0"
    show "PTE2PA (vmap user_mem root_page va) \<notin> pt_pages user_mem root_page"
      using page_facts(10) by (simp add: u(2)[OF va] user_pte_bits user_mem_pt)
    fix vb assume vb: "vb < MAXVA" "vmap user_mem root_page vb AND PTE_V \<noteq> 0"
    show "unat va div 4096 = unat vb div 4096" using u(1)[OF va] u(1)[OF vb] by simp
  qed (rule user_mem_pt)
qed

lemma user_vm_ok: "vm_ok user_state root_page []"
proof -
  have e: "k_end user_state = 0x80026020" "freelist user_state = 0"
    unfolding user_state_def booted_def by (subst binit_frame, simp add: kernel0_def)+
  have "\<forall>a\<in>{leaf_page, mid_page, root_page}. kpage user_state a"
    by (simp add: kpage_def e page_addrs page_aligned_def word_less_nat_alt layout_vals)
  then show ?thesis by (simp add: vm_ok_def user_state_fields user_mem_pt free_pages_def e)
qed

end
