(* ===== verification/Vm_Lazy.thy ===== *)
theory Vm_Lazy
  imports Trap Vm_User
begin

text \<open>
  Lazy allocation of user pages: \<^verbatim>\<open>usertrap\<close> (\<^verbatim>\<open>kernel/trap.c\<close>) and \<^verbatim>\<open>walkaddr\<close> (\<^verbatim>\<open>kernel/vm.c\<close>)
  give a process the zeroed page it touches first. \<open>uspace\<close> is the invariant of one user address
  space: a well-formed table, no frame mapped twice, and free pages, table pages and frames apart.
\<close>

section \<open>The invariant of an address space\<close>

definition uspace :: "kernel \<Rightarrow> u64 \<Rightarrow> u64 list \<Rightarrow> bool" where
  "uspace s pt F \<longleftrightarrow> vm_ok s pt F \<and> frames_ok (mem s) pt \<and>
     (\<forall>va<MAXVA. vmap (mem s) pt va AND PTE_V \<noteq> 0 \<longrightarrow> PTE2PA (vmap (mem s) pt va) \<notin> set F)"

text \<open>The page of \<open>va\<close> is new, zeroed and mapped with \<open>perm\<close>; all else in the address space is as it was.\<close>

definition fresh_page :: "kernel \<Rightarrow> u64 \<Rightarrow> u64 \<Rightarrow> u64 \<Rightarrow> u64 \<Rightarrow> kernel \<Rightarrow> bool" where
  "fresh_page s pt va x perm s' \<longleftrightarrow> (\<forall>vb<MAXVA.
     if unat vb div 4096 = unat va div 4096
     then vmap (mem s') pt vb = PA2PTE x OR perm OR PTE_V \<and> uread (mem s') pt vb = 0
     else vmap (mem s') pt vb = vmap (mem s) pt vb \<and>
       (vmap (mem s) pt vb AND PTE_V \<noteq> 0 \<longrightarrow> uread (mem s') pt vb = uread (mem s) pt vb))"

definition same_space :: "kernel \<Rightarrow> u64 \<Rightarrow> kernel \<Rightarrow> bool" where
  "same_space s pt s' \<longleftrightarrow> (\<forall>vb<MAXVA. vmap (mem s') pt vb = vmap (mem s) pt vb \<and>
     (vmap (mem s) pt vb AND PTE_V \<noteq> 0 \<longrightarrow> uread (mem s') pt vb = uread (mem s) pt vb))"

lemma same_space_refl [simp]: "same_space s pt s"
  by (simp add: same_space_def)

lemma same_space_trans: "same_space s pt t \<Longrightarrow> same_space t pt u \<Longrightarrow> same_space s pt u"
  by (simp add: same_space_def)

lemma same_space_fresh: "same_space s pt t \<Longrightarrow> fresh_page t pt va x perm u \<Longrightarrow> fresh_page s pt va x perm u"
  unfolding same_space_def fresh_page_def by (metis (full_types))

lemma frame_byte: "in_page (PTE2PA (vmap m pt va)) (phys m pt va)"
  by (simp add: in_page_def phys_def)

lemma uread_frame:
  assumes "vmap m' pt vb = vmap m pt vb" "\<And>x. in_page (PTE2PA (vmap m pt vb)) x \<Longrightarrow> m' x = m x"
  shows "uread m' pt vb = uread m pt vb"
  using assms(2)[OF frame_byte] assms(1) by (simp add: uread_def phys_def)

text \<open>Memory outside the tables and the frames may change freely.\<close>

lemma uspace_outside:
  assumes u: "uspace s pt F" and p: "page_aligned x" "x \<notin> pt_pages (mem s) pt"
    and f: "\<forall>va<MAXVA. vmap (mem s) pt va AND PTE_V \<noteq> 0 \<longrightarrow> PTE2PA (vmap (mem s) pt va) \<noteq> x"
    and m: "\<forall>a. mem t a \<noteq> mem s a \<longrightarrow> in_page x a"
  shows "pt_ok (mem t) pt" "pt_pages (mem t) pt = pt_pages (mem s) pt" "frames_ok (mem t) pt" "same_space s pt t"
    "va < MAXVA \<Longrightarrow> vmap (mem t) pt va = vmap (mem s) pt va"
proof -
  have ok: "pt_ok (mem s) pt" "frames_ok (mem s) pt" using u by (auto simp: uspace_def vm_ok_def)
  have c: "mem t a = mem s a" if "b \<in> pt_pages (mem s) pt" "in_page b a" for a b
  proof (rule ccontr)
    assume "mem t a \<noteq> mem s a"
    then have "in_page x a" using m by blast
    moreover have "page_aligned b" using ok(1) that(1) by (simp add: pt_ok_def)
    ultimately have "b = x" using in_page_unique[OF _ p(1) that(2)] by blast
    then show False using that(1) p(2) by simp
  qed
  note C = pt_cong[of "mem s" pt "mem t", OF c]
  show k: "pt_ok (mem t) pt" and q: "pt_pages (mem t) pt = pt_pages (mem s) pt" using C ok by simp_all
  have v: "vmap (mem t) pt va = vmap (mem s) pt va" for va using C(3) by (simp add: vmap_def)
  then show "va < MAXVA \<Longrightarrow> vmap (mem t) pt va = vmap (mem s) pt va" by simp
  show "frames_ok (mem t) pt" using ok(2) k unfolding frames_ok_def v q by blast
  have "uread (mem t) pt vb = uread (mem s) pt vb" if "vb < MAXVA" "vmap (mem s) pt vb AND PTE_V \<noteq> 0" for vb
  proof (rule uread_frame[OF v])
    fix a assume a: "in_page (PTE2PA (vmap (mem s) pt vb)) a"
    show "mem t a = mem s a" using m[rule_format, of a] in_page_unique[OF _ p(1) a] f[rule_format, OF that] by auto
  qed
  then show "same_space s pt t" by (simp add: same_space_def v)
qed

section \<open>One new page\<close>

text \<open>What \<^verbatim>\<open>kalloc\<close> followed by \<^verbatim>\<open>memset\<close> does.\<close>

definition zero_page :: "u64 \<Rightarrow> kernel \<Rightarrow> kernel" where
  "zero_page x s = s\<lparr>freelist := load64 (mem s) (unat x), mem := memset (mem s) (unat x) 0 PGSIZE\<rparr>"

lemma kalloc_zeroed:
  assumes "vm_ok s pt (x # F)"
  shows "\<exists>t. kalloc s = Inr (x, t) \<and> x \<noteq> 0 \<and> t = s\<lparr>mem := mem t, freelist := freelist t\<rparr> \<and>
    set_mem (\<lambda>m. memset m (unat x) 0 PGSIZE) t = zero_page x s"
proof -
  have f: "free_pages s (x # F)" "KmemLk \<notin> held s" using assms by (auto simp: vm_ok_def)
  then have "x \<noteq> 0" by (auto simp: free_pages_def kpage_def)
  then show ?thesis using kalloc_pop[OF f] by (simp add: zero_page_def set_mem_def memset_memset)
qed

lemma zero_page_uspace:
  assumes u: "uspace s pt (x # F)"
  shows "uspace (zero_page x s) pt F" "same_space s pt (zero_page x s)" "x \<notin> pt_pages (mem (zero_page x s)) pt" "x \<notin> set F"
    "kpage s x" "va < MAXVA \<Longrightarrow> vmap (mem (zero_page x s)) pt va = vmap (mem s) pt va"
    "va < MAXVA \<Longrightarrow> vmap (mem s) pt va AND PTE_V \<noteq> 0 \<Longrightarrow> PTE2PA (vmap (mem s) pt va) \<noteq> x"
    "in_page x a \<Longrightarrow> mem (zero_page x s) a = 0"
proof -
  let ?t = "zero_page x s"
  have v: "vm_ok s pt (x # F)" using u by (simp add: uspace_def)
  then have f: "free_pages s (x # F)" "KmemLk \<notin> held s" "x \<notin> pt_pages (mem s) pt" by (auto simp: vm_ok_def)
  then show d: "x \<notin> set F" and k: "kpage s x" by (auto simp: free_pages_def)
  have a: "page_aligned x" using k by (simp add: kpage_def)
  have m: "\<forall>a. mem ?t a \<noteq> mem s a \<longrightarrow> in_page x a" by (simp add: zero_page_def memset_in_page split: if_splits)
  have n: "\<forall>va<MAXVA. vmap (mem s) pt va AND PTE_V \<noteq> 0 \<longrightarrow> PTE2PA (vmap (mem s) pt va) \<noteq> x"
    using u list.set_intros(1)[of x F] unfolding uspace_def by metis
  then show "va < MAXVA \<Longrightarrow> vmap (mem s) pt va AND PTE_V \<noteq> 0 \<Longrightarrow> PTE2PA (vmap (mem s) pt va) \<noteq> x" by blast
  note O = uspace_outside[OF u a f(3) n m]
  show "same_space s pt ?t" by (rule O(4))
  show "x \<notin> pt_pages (mem ?t) pt" unfolding O(2) by (rule f(3))
  show "va < MAXVA \<Longrightarrow> vmap (mem ?t) pt va = vmap (mem s) pt va" by (rule O(5))
  show "in_page x a \<Longrightarrow> mem ?t a = 0" by (simp add: zero_page_def memset_in_page)
  obtain t where t: "kalloc s = Inr (x, t)" "t = s\<lparr>mem := mem t, freelist := freelist t\<rparr>"
    "set_mem (\<lambda>m. memset m (unat x) 0 PGSIZE) t = ?t" using kalloc_zeroed[OF v] by blast
  have g: "free_pages t F" using kalloc_free_pages[OF f(1,2) t(1)] by simp
  have "free_pages ?t F"
  proof (rule free_pages_frame[OF g])
    show "freelist ?t = freelist t" "k_end ?t = k_end t" by (simp_all flip: t(3) add: set_mem_def)
    fix b assume "mem ?t b \<noteq> mem t b"
    then have "in_page x b" by (simp flip: t(3) add: set_mem_def memset_in_page split: if_splits)
    then show "\<exists>p. page_aligned p \<and> p \<notin> set F \<and> in_page p b" using a d by blast
  qed
  then have "vm_ok ?t pt F" using v O(1,2) by (auto simp: vm_ok_def zero_page_def kpage_def)
  then show "uspace ?t pt F" using u O(3,5) by (simp add: uspace_def)
qed

text \<open>Growing the tables out of the free list touches neither frames nor the new page.\<close>

lemma mapped_keeps:
  assumes u: "uspace z pt F" and m: "mapped z pt us M t" and F: "set us \<subseteq> set F"
  shows "page_aligned x \<Longrightarrow> x \<notin> pt_pages (mem z) pt \<Longrightarrow> x \<notin> set F \<Longrightarrow> in_page x a \<Longrightarrow> mem t a = mem z a"
    "vb < MAXVA \<Longrightarrow> vmap (mem z) pt vb AND PTE_V \<noteq> 0 \<Longrightarrow> M vb = vmap (mem z) pt vb \<Longrightarrow> uread (mem t) pt vb = uread (mem z) pt vb"
    "vb < MAXVA \<Longrightarrow> vmap (mem z) pt vb AND PTE_V \<noteq> 0 \<Longrightarrow> PTE2PA (vmap (mem z) pt vb) \<notin> pt_pages (mem t) pt"
proof -
  have P: "pt_pages (mem t) pt = pt_pages (mem z) pt \<union> set us" "\<And>a. mem t a \<noteq> mem z a \<Longrightarrow> \<exists>b\<in>pt_pages (mem t) pt. in_page b a"
    "\<And>vb. vb < MAXVA \<Longrightarrow> vmap (mem t) pt vb = M vb" using m unfolding mapped_def by blast+
  have al: "page_aligned b" if "b \<in> pt_pages (mem t) pt" for b
  proof -
    have "\<forall>a\<in>pt_pages (mem z) pt. page_aligned a" "\<forall>a\<in>set F. kpage z a"
      using u unfolding uspace_def vm_ok_def pt_ok_def free_pages_def by blast+
    then show ?thesis using that F P(1) unfolding kpage_def by blast
  qed
  show k: "page_aligned x \<Longrightarrow> x \<notin> pt_pages (mem z) pt \<Longrightarrow> x \<notin> set F \<Longrightarrow> in_page x a \<Longrightarrow> mem t a = mem z a" for x a
    using P(1,2) al in_page_unique F by blast
  have n: "PTE2PA (vmap (mem z) pt vb) \<notin> pt_pages (mem z) pt" "PTE2PA (vmap (mem z) pt vb) \<notin> set F"
    if "vb < MAXVA" "vmap (mem z) pt vb AND PTE_V \<noteq> 0" for vb
    using u that unfolding uspace_def frames_ok_def by blast+
  then show "vb < MAXVA \<Longrightarrow> vmap (mem z) pt vb AND PTE_V \<noteq> 0 \<Longrightarrow> PTE2PA (vmap (mem z) pt vb) \<notin> pt_pages (mem t) pt"
    using P(1) F by blast
  show "uread (mem t) pt vb = uread (mem z) pt vb"
    if v: "vb < MAXVA" "vmap (mem z) pt vb AND PTE_V \<noteq> 0" and e: "M vb = vmap (mem z) pt vb"
    by (rule uread_frame) (use P(3)[OF v(1)] e k[OF page_aligned_PTE2PA n[OF v]] in auto)
qed

lemma unat_4096: "unat (4096 :: u64) = 4096"
  by simp

lemma one_page: "more_pages (PGROUNDDOWN va) 4096 = 0"
  by (simp add: more_pages_def page_simps)

lemma page_range_1:
  "mapped_range (PGROUNDDOWN va) x perm 1 M vb =
     (if unat vb div 4096 = unat va div 4096 then PA2PTE x OR perm OR PTE_V else M vb)"
  by (auto simp: mapped_range_def PGROUNDDOWN_le)

lemma mapped_none:
  assumes u: "uspace z pt F" and m: "mapped z pt us (vmap (mem z) pt) t" and v: "vm_ok t pt F'" "F = us @ F'"
  shows "uspace t pt F'" "same_space z pt t"
proof -
  have e: "vmap (mem t) pt vb = vmap (mem z) pt vb" if "vb < MAXVA" for vb using mapped_vmap[OF m that] .
  have us: "set us \<subseteq> set F" using v(2) by simp
  show "same_space z pt t" using mapped_keeps(2)[OF u m us] e by (simp add: same_space_def)
  have z: "frames_ok (mem z) pt" "\<And>va. va < MAXVA \<Longrightarrow> vmap (mem z) pt va AND PTE_V \<noteq> 0 \<Longrightarrow> PTE2PA (vmap (mem z) pt va) \<notin> set F"
    using u unfolding uspace_def by blast+
  have "frames_ok (mem t) pt"
    using z(1) vm_ok_root[OF v(1)] mapped_keeps(3)[OF u m us] e unfolding frames_ok_def by metis
  then show "uspace t pt F'" using z(2) v e unfolding uspace_def by (metis Un_iff set_append)
qed

lemma mapped_fresh:
  assumes u: "uspace z pt F" and m: "mapped z pt us (mapped_range (PGROUNDDOWN va) x perm 1 (vmap (mem z) pt)) t"
    and v: "vm_ok t pt F'" "F = us @ F'" and x: "page_aligned x" "x \<notin> pt_pages (mem z) pt" "x \<notin> set F"
    and n: "\<forall>vb<MAXVA. vmap (mem z) pt vb AND PTE_V \<noteq> 0 \<longrightarrow> PTE2PA (vmap (mem z) pt vb) \<noteq> x"
    and o: "\<forall>a. in_page x a \<longrightarrow> mem z a = 0" and p: "unat perm < 1024"
    and f: "va < MAXVA" "vmap (mem z) pt va AND PTE_V = 0"
  shows "uspace t pt F'" "fresh_page z pt va x perm t"
proof -
  have us: "set us \<subseteq> set F" using v(2) by simp
  note K = mapped_keeps[OF u m us]
  have e: "vmap (mem t) pt vb = (if unat vb div 4096 = unat va div 4096 then PA2PTE x OR perm OR PTE_V else vmap (mem z) pt vb)"
    if "vb < MAXVA" for vb using mapped_vmap[OF m that] by (simp only: page_range_1)
  have pa: "PTE2PA (PA2PTE x OR perm OR PTE_V) = x" using PTE2PA_PA2PTE[OF x(1) or_less_1024[OF p PTE_flags_small(1)]] by (simp add: or.assoc)
  have old: "vmap (mem t) pt vb = vmap (mem z) pt vb \<and> uread (mem t) pt vb = uread (mem z) pt vb"
    if "vb < MAXVA" "vmap (mem z) pt vb AND PTE_V \<noteq> 0" "unat vb div 4096 \<noteq> unat va div 4096" for vb
    using K(2)[OF that(1,2)] e[OF that(1)] that(3) unfolding page_range_1 by simp
  have new: "uread (mem t) pt vb = 0" if "vb < MAXVA" "unat vb div 4096 = unat va div 4096" for vb
  proof -
    have "PTE2PA (vmap (mem t) pt vb) = x" using e[OF that(1)] that(2) pa by simp
    then have "in_page x (phys (mem t) pt vb)" using frame_byte[of "mem t" pt vb] by simp
    then show ?thesis using K(1)[OF x] o unfolding uread_def by metis
  qed
  show "fresh_page z pt va x perm t" unfolding fresh_page_def using e old new by auto
  have z: "frames_ok (mem z) pt" "\<And>va. va < MAXVA \<Longrightarrow> vmap (mem z) pt va AND PTE_V \<noteq> 0 \<Longrightarrow> PTE2PA (vmap (mem z) pt va) \<notin> set F"
    using u unfolding uspace_def by blast+
  have xt: "x \<notin> pt_pages (mem t) pt" using m x us unfolding mapped_def by blast
  have c: "unat vb div 4096 = unat va div 4096 \<and> PTE2PA (vmap (mem t) pt vb) = x \<or>
      unat vb div 4096 \<noteq> unat va div 4096 \<and> vmap (mem t) pt vb = vmap (mem z) pt vb" if "vb < MAXVA" for vb
    using e[OF that] pa by simp
  have "frames_ok (mem t) pt"
    unfolding frames_ok_def
  proof (intro conjI allI impI)
    show "pt_ok (mem t) pt" by (rule vm_ok_root[OF v(1)])
    fix vb assume vb: "vb < MAXVA" "vmap (mem t) pt vb AND PTE_V \<noteq> 0"
    show "PTE2PA (vmap (mem t) pt vb) \<notin> pt_pages (mem t) pt" using c[OF vb(1)] xt K(3)[OF vb(1)] vb(2) by auto
    fix vc assume vc: "vc < MAXVA" "vmap (mem t) pt vc AND PTE_V \<noteq> 0" "PTE2PA (vmap (mem t) pt vb) = PTE2PA (vmap (mem t) pt vc)"
    show "unat vb div 4096 = unat vc div 4096"
      using c[OF vb(1)] c[OF vc(1)] vb vc n z(1) unfolding frames_ok_def by metis
  qed
  then show "uspace t pt F'" using v z(2) c x(3) unfolding uspace_def by (metis Un_iff set_append)
qed

lemma kfree_back:
  assumes u: "uspace t pt []" and x: "kpage t x" "x \<notin> pt_pages (mem t) pt"
    and n: "\<forall>vb<MAXVA. vmap (mem t) pt vb AND PTE_V \<noteq> 0 \<longrightarrow> PTE2PA (vmap (mem t) pt vb) \<noteq> x"
  shows "\<exists>t'. kfree x t = Inr t' \<and> t' = t\<lparr>mem := mem t', freelist := freelist t'\<rparr> \<and> uspace t' pt [x] \<and> same_space t pt t'"
proof -
  have v: "vm_ok t pt []" using u by (simp add: uspace_def)
  then have l: "KmemLk \<notin> held t" "free_pages t []" by (simp_all add: vm_ok_def)
  obtain t' where t': "kfree x t = Inr t'" "t' = t\<lparr>mem := mem t', freelist := freelist t'\<rparr>" using kfree_push[OF x(1) l(1)] by simp
  have a: "page_aligned x" using x(1) by (simp add: kpage_def)
  have m: "\<forall>a. mem t' a \<noteq> mem t a \<longrightarrow> in_page x a" using kfree_mem[OF x(1) l(1) t'(1)] by blast
  note O = uspace_outside[OF u a x(2) n m]
  have r: "held t' = held t" "k_end t' = k_end t" by (subst t'(2), simp)+
  have "free_pages t' [x]" using kfree_free_pages[OF l(2) x(1) _ l(1) t'(1)] by simp
  then have "vm_ok t' pt [x]" using v O(1,2) x(2) r by (simp add: vm_ok_def kpage_def)
  moreover have "\<forall>va<MAXVA. vmap (mem t') pt va AND PTE_V \<noteq> 0 \<longrightarrow> PTE2PA (vmap (mem t') pt va) \<notin> set [x]" using O(5) n by simp
  ultimately have "uspace t' pt [x]" using O(3) unfolding uspace_def by blast
  then show ?thesis using t' O(4) by blast
qed

lemma page_in:
  assumes u: "uspace s pt (x # F)" and va: "va < MAXVA" "vmap (mem s) pt va AND PTE_V = 0" and perm: "unat perm < 1024"
  shows "\<exists>r t us F'. mappages pt (PGROUNDDOWN va) 4096 x perm (zero_page x s) = Inr (r, t) \<and> F = us @ F' \<and> uspace t pt F' \<and>
    t = s\<lparr>mem := mem t, freelist := freelist t\<rparr> \<and>
    (r = 0 \<and> fresh_page s pt va x perm t \<or>
     r = -1 \<and> (\<exists>t'. kfree x t = Inr t' \<and> t' = s\<lparr>mem := mem t', freelist := freelist t'\<rparr> \<and> uspace t' pt [x] \<and> same_space s pt t'))"
proof -
  let ?z = "zero_page x s" and ?a = "PGROUNDDOWN va"
  note Z = zero_page_uspace[OF u]
  have a: "unat ?a + unat (4096 :: u64) \<le> 2 ^ 38"
    using va(1) by (simp add: page_simps word_less_nat_alt)
  have fr: "\<forall>vb<MAXVA. unat ?a div 4096 \<le> unat vb div 4096 \<and> unat vb div 4096 \<le> unat ?a div 4096 + more_pages ?a 4096 \<longrightarrow>
      vmap (mem ?z) pt vb AND PTE_V = 0"
  proof (intro allI impI)
    fix vb assume vb: "vb < MAXVA" "unat ?a div 4096 \<le> unat vb div 4096 \<and> unat vb div 4096 \<le> unat ?a div 4096 + more_pages ?a 4096"
    then have "unat vb div 4096 = unat va div 4096" unfolding one_page PGROUNDDOWN_le by linarith
    then have "vmap (mem s) pt vb = vmap (mem s) pt va" by (rule vmap_page[OF vb(1) va(1)])
    then show "vmap (mem ?z) pt vb AND PTE_V = 0" using va(2) Z(6)[OF vb(1)] by simp
  qed
  have vz: "vm_ok ?z pt F" using Z(1) by (simp add: uspace_def)
  obtain r t us F' j where M: "mappages pt ?a 4096 x perm ?z = Inr (r, t)" "F = us @ F'" "vm_ok t pt F'"
    "mapped ?z pt us (mapped_range ?a x perm j (vmap (mem ?z) pt)) t" "r = 0 \<and> j = Suc (more_pages ?a 4096) \<or> r = -1 \<and> j \<le> more_pages ?a 4096 \<and> F' = []"
    using mappages_ok[OF vz _ a fr, of x perm] by (metis unat_4096 zero_less_numeral)
  have al: "page_aligned x" using Z(5) by (simp add: kpage_def)
  have zx: "\<forall>vb<MAXVA. vmap (mem ?z) pt vb AND PTE_V \<noteq> 0 \<longrightarrow> PTE2PA (vmap (mem ?z) pt vb) \<noteq> x" using Z(6,7) by simp
  have fld: "t = s\<lparr>mem := mem t, freelist := freelist t\<rparr>"
  proof -
    have "t = ?z\<lparr>mem := mem t, freelist := freelist t\<rparr>" using M(4) unfolding mapped_def by blast
    then show ?thesis by (simp add: zero_page_def)
  qed
  show ?thesis
  proof (cases "r = 0")
    case True
    then have j: "j = 1" using M(5) by (simp add: one_page)
    have "uspace t pt F'" "fresh_page ?z pt va x perm t"
      using mapped_fresh[OF Z(1) M(4)[unfolded j] M(3,2) al Z(3,4) zx _ perm va(1)] Z(6,8) va by simp_all
    then show ?thesis using M(1,2) fld True same_space_fresh[OF Z(2)] by blast
  next
    case False
    then have j: "j = 0" "F' = []" "r = -1" using M(5) by (simp_all add: one_page)
    have T: "uspace t pt []" "same_space ?z pt t"
      using mapped_none[OF Z(1) M(4)[unfolded j(1) mapped_range_0] M(3,2)] j(2) by simp_all
    have k: "kpage t x" using Z(5) by (subst fld) (simp add: kpage_def)
    have q: "x \<notin> pt_pages (mem t) pt" using M(2,4) Z(3,4) unfolding mapped_def by simp
    have "\<forall>vb<MAXVA. vmap (mem t) pt vb AND PTE_V \<noteq> 0 \<longrightarrow> PTE2PA (vmap (mem t) pt vb) \<noteq> x"
      using zx T(2) unfolding same_space_def by simp
    from kfree_back[OF T(1) k q this] obtain t' where t': "kfree x t = Inr t'" "t' = t\<lparr>mem := mem t', freelist := freelist t'\<rparr>"
      "uspace t' pt [x]" "same_space t pt t'" by blast
    have "t' = s\<lparr>mem := mem t', freelist := freelist t'\<rparr>" by (subst t'(2), subst fld) simp
    then show ?thesis using M(1,2) fld j T t' same_space_trans[OF Z(2) same_space_trans[OF T(2) t'(4)]] by blast
  qed
qed

section \<open>Page faults and kernel accesses\<close>

lemma lazy_perms: "unat (PTE_W OR PTE_R OR PTE_U) < 1024" "unat (PTE_W OR PTE_R OR PTE_U OR PTE_X) < 1024"
  by (simp_all add: or_less_1024)

lemma pagefault_ok:
  fixes s :: kernel and i :: nat
  defines "pt \<equiv> p_pagetable (procs s ! i)" and "va \<equiv> stval (csr s)"
  assumes u: "uspace s pt F" and va: "va < MAXVA" "vmap (mem s) pt va AND PTE_V = 0"
    and r: "va < p_sz (procs s ! i)" "PGROUNDDOWN (tf_get i tf_sp s) \<le> va"
  shows "\<exists>t F'. pagefault i s = Inr t \<and> uspace t pt F' \<and>
    (t = set_killed i (s\<lparr>mem := mem t, freelist := freelist t\<rparr>) \<and> same_space s pt t \<and> length F' \<le> 1 \<or>
     t = s\<lparr>mem := mem t, freelist := freelist t\<rparr> \<and> (\<exists>x us. F = x # us @ F' \<and> fresh_page s pt va x (PTE_W OR PTE_R OR PTE_U) t))"
proof (cases F)
  have g: "\<not> (va \<ge> p_sz (procs s ! i) \<or> va < PGROUNDDOWN (tf_get i tf_sp s))" using r by (metis leD)
  have v: "vm_ok s pt F" using u by (simp add: uspace_def)
  have sk: "set_killed i s = s\<lparr>procs := procs (set_killed i s)\<rparr>" for s by (simp add: set_killed_def upd_proc_def)
  have usk: "uspace (set_killed i t) pt G = uspace t pt G" "same_space s pt (set_killed i t) = same_space s pt t" for t G
    by (simp_all add: set_killed_def upd_proc_def uspace_def vm_ok_def free_pages_def kpage_def same_space_def)
  {
    case Nil
    then have "kalloc s = Inr (0, s)" using kalloc_empty v by (simp add: vm_ok_def)
    then have "pagefault i s = Inr (set_killed i s)" using g by (simp add: pagefault_def va_def)
    then show ?thesis using u Nil usk by (intro exI[of _ "set_killed i s"] exI[of _ "[]"]) (simp add: set_killed_def upd_proc_def)
  next
    case (Cons x G)
    obtain k where k: "kalloc s = Inr (x, k)" "x \<noteq> 0" "k = s\<lparr>mem := mem k, freelist := freelist k\<rparr>"
      "set_mem (\<lambda>m. memset m (unat x) 0 PGSIZE) k = zero_page x s" using kalloc_zeroed v Cons by blast
    have pk: "p_pagetable (procs k ! i) = pt" unfolding pt_def by (subst k(3)) simp
    obtain q t us F' where P: "mappages pt (PGROUNDDOWN va) 4096 x (PTE_W OR PTE_R OR PTE_U) (zero_page x s) = Inr (q, t)" "G = us @ F'"
      "uspace t pt F'" "t = s\<lparr>mem := mem t, freelist := freelist t\<rparr>"
      "q = 0 \<and> fresh_page s pt va x (PTE_W OR PTE_R OR PTE_U) t \<or>
       q = -1 \<and> (\<exists>t'. kfree x t = Inr t' \<and> t' = s\<lparr>mem := mem t', freelist := freelist t'\<rparr> \<and> uspace t' pt [x] \<and> same_space s pt t')"
      using page_in[OF u[unfolded Cons] va lazy_perms(1)] by blast
    have e: "pagefault i s = (if q \<noteq> 0 then bindE (kfree x t) (\<lambda>s. Inr (set_killed i s)) else Inr t)"
      using g k P(1) by (simp add: pagefault_def va_def[symmetric] Let_def pk)
    from P(5) show ?thesis
    proof (elim disjE conjE exE)
      assume "q = 0" "fresh_page s pt va x (PTE_W OR PTE_R OR PTE_U) t"
      then show ?thesis using e P(2-4) Cons by auto
    next
      fix t' assume "q = -1" and t': "kfree x t = Inr t'" "t' = s\<lparr>mem := mem t', freelist := freelist t'\<rparr>" "uspace t' pt [x]" "same_space s pt t'"
      then have "pagefault i s = Inr (set_killed i t')" using e by simp
      moreover have "set_killed i t' = set_killed i (s\<lparr>mem := mem (set_killed i t'), freelist := freelist (set_killed i t')\<rparr>)"
        by (subst t'(2)) (simp add: set_killed_def upd_proc_def)
      ultimately show ?thesis using t'(3,4) usk by (intro exI[of _ "set_killed i t'"] exI[of _ "[x]"]) simp
    qed
  }
qed

lemma walkaddr_lazy_ok:
  fixes s :: kernel and i :: nat
  defines "pt \<equiv> p_pagetable (procs s ! i)"
  assumes u: "uspace s pt F" and va: "va < MAXVA" "vmap (mem s) pt va AND PTE_V = 0" and c: "myproc s = Inr i"
  shows "\<exists>pa t F'. walkaddr pt va s = Inr (pa, t) \<and> uspace t pt F' \<and> t = s\<lparr>mem := mem t, freelist := freelist t\<rparr> \<and>
    (if va \<ge> p_sz (procs s ! i) \<or> va < PGROUNDUP (tf_get i tf_sp s) then pa = 0 \<and> t = s
     else pa = 0 \<and> same_space s pt t \<and> length F' \<le> 1 \<or>
       (\<exists>us. F = pa # us @ F' \<and> pa \<noteq> 0 \<and> fresh_page s pt va pa (PTE_W OR PTE_R OR PTE_U OR PTE_X) t))"
proof -
  let ?out = "va \<ge> p_sz (procs s ! i) \<or> va < PGROUNDUP (tf_get i tf_sp s)"
  have v: "vm_ok s pt F" "pt_ok (mem s) pt" using u by (simp_all add: uspace_def vm_ok_def)
  let ?q = "case node (mem s) pt (tix va) of None \<Rightarrow> 0 | Some a \<Rightarrow> a + 8 * PX 0 va"
  have w: "walk pt va False s = Inr (?q, s)" by (rule walk_lookup[OF v(2) va(1)])
  have "?q = 0 \<or> load64 (mem s) (unat ?q) AND PTE_V = 0"
  proof (cases "node (mem s) pt (tix va)")
    case (Some a)
    then have "unat (a + 8 * PX 0 va) = unat a + 8 * unat (PX 0 va)" using pte_addr pt_ok_page[OF v(2) tix_paths(1)] by blast
    then show ?thesis using va(2) Some by (simp add: vmap_def leaf_def ent_def)
  qed simp
  then have e: "walkaddr pt va s = (if ?out then Inr (0, s) else bindE (kalloc s) (\<lambda>(pa, s). if pa = 0 then Inr (0, s) else
        bindE (mappages pt (PGROUNDDOWN va) 4096 pa (PTE_W OR PTE_R OR PTE_U OR PTE_X) (set_mem (\<lambda>m. memset m (unat pa) 0 PGSIZE) s))
          (\<lambda>(r, s). if r \<noteq> 0 then bindE (kfree pa s) (\<lambda>s. Inr (0, s)) else Inr (pa, s))))"
    using va(1) w c unfolding walkaddr_def Let_def tf_get_def tf_sp_def
    by (simp add: pt_def[symmetric] linorder_not_le[symmetric] cong: if_cong)
  show ?thesis
  proof (cases "?out")
    case True
    then show ?thesis using e u by (intro exI[of _ 0] exI[of _ s] exI[of _ F]) simp
  next
    case out: False
    show ?thesis
    proof (cases F)
      case Nil
      then have "kalloc s = Inr (0, s)" using kalloc_empty v by (simp add: vm_ok_def)
      then show ?thesis using e u Nil out by (intro exI[of _ 0] exI[of _ s] exI[of _ "[]"]) simp
    next
      case (Cons x G)
      obtain k where k: "kalloc s = Inr (x, k)" "x \<noteq> 0" "set_mem (\<lambda>m. memset m (unat x) 0 PGSIZE) k = zero_page x s"
        using kalloc_zeroed v Cons by blast
      obtain q t us F' where P: "mappages pt (PGROUNDDOWN va) 4096 x (PTE_W OR PTE_R OR PTE_U OR PTE_X) (zero_page x s) = Inr (q, t)"
        "G = us @ F'" "uspace t pt F'" "t = s\<lparr>mem := mem t, freelist := freelist t\<rparr>"
        "q = 0 \<and> fresh_page s pt va x (PTE_W OR PTE_R OR PTE_U OR PTE_X) t \<or>
         q = -1 \<and> (\<exists>t'. kfree x t = Inr t' \<and> t' = s\<lparr>mem := mem t', freelist := freelist t'\<rparr> \<and> uspace t' pt [x] \<and> same_space s pt t')"
        using page_in[OF u[unfolded Cons] va lazy_perms(2)] by blast
      have f: "walkaddr pt va s = (if q \<noteq> 0 then bindE (kfree x t) (\<lambda>s. Inr (0, s)) else Inr (x, t))"
        using e out k P(1) by simp
      from P(5) show ?thesis
      proof (elim disjE conjE exE)
        assume "q = 0" "fresh_page s pt va x (PTE_W OR PTE_R OR PTE_U OR PTE_X) t"
        then show ?thesis using f P(2-4) Cons out k(2) by (intro exI[of _ x] exI[of _ t] exI[of _ F']) simp
      next
        fix t' assume "q = -1" and t': "kfree x t = Inr t'" "t' = s\<lparr>mem := mem t', freelist := freelist t'\<rparr>" "uspace t' pt [x]" "same_space s pt t'"
        then show ?thesis using f out by (intro exI[of _ 0] exI[of _ t'] exI[of _ "[x]"]) simp
      qed
    qed
  qed
qed

end
