(* ===== verification/Boot_Lazy.thy ===== *)
theory Boot_Lazy
  imports Boot_Vm Vm_Lazy
begin

text \<open>
  A process that has grown by a page it has not touched yet: the process of \<open>Boot_Vm\<close> with a size of
  two pages, one free page of memory, and a fault at address 5000.
\<close>

definition spare_page :: u64 where "spare_page = 0x87ffb000"

definition lazy_state :: kernel where
  "lazy_state = user_state\<lparr>freelist := spare_page, csr := csrs0\<lparr>scause := 13, stval := 5000\<rparr>,
     procs := user_proc\<lparr>p_sz := 8192\<rparr> # replicate 63 proc0\<rparr>"

lemma spare_facts: "page_aligned spare_page" "spare_page \<noteq> 0" "spare_page \<notin> {leaf_page, mid_page, root_page, user_frame}"
  by (simp_all add: spare_page_def page_addrs page_aligned_def)

lemma user_mem_outside:
  assumes "page_aligned a" "a \<notin> {leaf_page, mid_page, root_page}" "i < 512"
  shows "load64 user_mem (unat a + 8 * i) = 0"
proof -
  have l: "(0 :: nat) < 512" by simp
  have "ent user_mem a i = 0"
    using assms page_facts unfolding user_mem_def table2_def table1_def
    by (simp add: ent_store[OF _ _ _ l, simplified] ent_cleared ent_def[of "\<lambda>_. 0"] load_zero)
  then show ?thesis by (simp add: ent_def)
qed

lemma lazy_state_fields:
  "mem lazy_state = user_mem" "procs lazy_state ! 0 = user_proc\<lparr>p_sz := 8192\<rparr>" "stval (csr lazy_state) = 5000"
  "p_pagetable (procs lazy_state ! 0) = root_page" "tf_get 0 tf_sp lazy_state = 0" "myproc lazy_state = Inr 0"
proof -
  show "mem lazy_state = user_mem" "procs lazy_state ! 0 = user_proc\<lparr>p_sz := 8192\<rparr>" "stval (csr lazy_state) = 5000"
    "p_pagetable (procs lazy_state ! 0) = root_page" "myproc lazy_state = Inr 0"
    by (simp_all add: lazy_state_def user_state_fields user_proc_def myproc_def)
  have "page_aligned 0" "0 \<notin> {leaf_page, mid_page, root_page}" by (simp_all add: page_aligned_def page_addrs)
  from user_mem_outside[OF this, of 6] show "tf_get 0 tf_sp lazy_state = 0"
    by (simp add: tf_get_def tf_sp_def lazy_state_def user_state_fields user_proc_def proc0_def)
qed

lemma lazy_uspace: "uspace lazy_state root_page [spare_page]"
proof -
  have l: "load64 user_mem (unat spare_page) = 0" using user_mem_outside[of spare_page 0] spare_facts by simp
  have v: "vm_ok user_state root_page []" by (rule user_vm_ok)
  have k: "kpage lazy_state = kpage user_state" by (simp add: kpage_def fun_eq_iff lazy_state_def)
  have e: "k_end user_state = 0x80026020"
    unfolding user_state_def booted_def by (subst binit_frame, simp add: kernel0_def)
  have s: "kpage user_state spare_page" by (simp add: kpage_def e spare_page_def page_aligned_def word_less_nat_alt layout_vals)
  have m: "mem lazy_state = user_mem" "mem user_state = user_mem" by (simp_all add: lazy_state_def user_state_fields)
  have "free_pages lazy_state [spare_page]"
    using l s spare_facts by (simp add: free_pages_def k m) (simp add: lazy_state_def)
  then have "vm_ok lazy_state root_page [spare_page]"
    using v spare_facts(3) by (simp add: vm_ok_def k m user_mem_pt) (simp add: lazy_state_def)
  moreover have "\<forall>va<MAXVA. vmap user_mem root_page va AND PTE_V \<noteq> 0 \<longrightarrow> PTE2PA (vmap user_mem root_page va) \<notin> set [spare_page]"
    using spare_facts(3) by (auto simp: user_mem_vmap user_pte_bits)
  ultimately show ?thesis using user_frames by (simp add: uspace_def m)
qed

end
