(* ===== verification/Fs_Files.thy ===== *)
theory Fs_Files
  imports Fs_Blocks Vm_User
begin

text \<open>
  The contents of files: \<^verbatim>\<open>bmap\<close>, \<^verbatim>\<open>readi\<close> and \<^verbatim>\<open>writei\<close> of \<^verbatim>\<open>kernel/fs.c\<close> over the buffer cache and the
  log. The view is \<open>fbyte s i x\<close>, byte \<open>x\<close> of the file of inode \<open>i\<close>, found through the direct and
  indirect addresses.
\<close>

section \<open>Where the bytes of a file are\<close>

definition faddr :: "kernel \<Rightarrow> nat \<Rightarrow> nat \<Rightarrow> u32" where
  "faddr s i bn =
     (if bn < NDIRECT then i_addrs (icache s ! i) ! bn
      else load32 (blk s (i_addrs (icache s ! i) ! NDIRECT)) (4 * (bn - NDIRECT)))"

definition fbyte :: "kernel \<Rightarrow> nat \<Rightarrow> nat \<Rightarrow> u8" where
  "fbyte s i x = blk s (faddr s i (x div 1024)) (x mod 1024)"

text \<open>
  The first \<open>nb\<close> blocks of the file are allocated, apart from each other, from the indirect block
  and from the log.
\<close>

definition file_ok :: "kernel \<Rightarrow> nat \<Rightarrow> nat \<Rightarrow> bool" where
  "file_ok s i nb \<longleftrightarrow> i_dev (icache s ! i) = ROOTDEV \<and> nb \<le> MAXFILE \<and>
     (\<forall>bn<nb. faddr s i bn \<noteq> 0 \<and> faddr s i bn \<notin> log_region s) \<and> inj_on (faddr s i) {..<nb} \<and>
     (NDIRECT < nb \<longrightarrow> i_addrs (icache s ! i) ! NDIRECT \<notin> insert 0 (faddr s i ` {..<nb}))"

lemma file_cong:
  assumes "icache t = icache s" "blk t = blk s"
  shows "faddr t = faddr s" "fbyte t = fbyte s"
  by (simp_all add: fun_eq_iff faddr_def fbyte_def assms)

lemma file_ok_cong:
  assumes "icache t = icache s" "blk t = blk s" "log_region t = log_region s"
  shows "file_ok t i nb = file_ok s i nb"
  using file_cong[OF assms(1,2)] assms(3) by (simp add: file_ok_def assms(1))

lemma bmap_present:
  assumes b: "budget (Suc k) s" and f: "file_ok s i nb" and bn: "unat bn < nb"
  shows "\<exists>s'. bmap i bn s = Inr (faddr s i (unat bn), s') \<and> same_view s s' \<and> budget (Suc k) s'"
proof (cases "unat bn < NDIRECT")
  case True
  have "faddr s i (unat bn) \<noteq> 0" using f bn by (simp add: file_ok_def)
  moreover have "same_view s s" using budgetD(4)[OF b] by (simp add: same_view_def bio_frame_refl)
  ultimately show ?thesis using True b by (simp add: bmap_def bmap_slot_def faddr_def)
next
  case False
  let ?k = "unat bn - NDIRECT" and ?a = "i_addrs (icache s ! i) ! NDIRECT"
  have n: "?k < NINDIRECT" "?a \<noteq> 0" "i_dev (icache s ! i) = ROOTDEV" "faddr s i (unat bn) \<noteq> 0"
    using f bn False by (auto simp: file_ok_def MAXFILE_def)
  obtain c s1 s2 where r: "bread ROOTDEV ?a s = Inr (c, s1)" "bio_frame s s1" "b_data (bufs s1 ! c) = blk s ?a"
    "brelse c s1 = Inr s2" "same_view s s2" "budget (Suc k) s2" by (rule budget_read[OF b, of ?a], rule that)
  have "load32 (b_data (bufs s1 ! c)) (4 * ?k) = faddr s i (unat bn)" using False by (simp add: r(3) faddr_def)
  then show ?thesis using False n r by (simp add: bmap_def bmap_slot_def)
qed

section \<open>Reading\<close>

text \<open>A buffer stays readable while memory changes.\<close>

lemma bio_frame_mem:
  assumes "bio_frame s s'"
  shows "bio_frame (set_mem f s) (set_mem f s')"
proof -
  obtain B P D W where "s' = s\<lparr>bufs := B, procs := P, disk := D, wtrace := W\<rparr>" "woken (procs s) P"
    using assms unfolding bio_frame_def by blast
  then show ?thesis unfolding bio_frame_def set_mem_def by (intro exI[of _ B] exI[of _ P] exI[of _ D] exI[of _ W]) simp
qed

lemma set_mem_view:
  "bc_inv (set_mem f s) = bc_inv s" "owner (set_mem f s) = owner s" "blk (set_mem f s) = blk s" "refs (set_mem f s) = refs s"
  "lkd (set_mem f s) = lkd s" "settled (set_mem f s) = settled s" "bio_ctx (set_mem f s) = bio_ctx s" "mypid (set_mem f s) = mypid s"
  "budget k (set_mem f s) = budget k s" "log_region (set_mem f s) = log_region s" "klog (set_mem f s) = klog s"
  "icache (set_mem f s) = icache s" "disk (set_mem f s) = disk s" "wtrace (set_mem f s) = wtrace s" "sblk (set_mem f s) = sblk s"
  "curproc (set_mem f s) = curproc s" "mem (set_mem f s) = f (mem s)"
proof -
  have e: "bufs (set_mem f s) = bufs s" "disk (set_mem f s) = disk s" by (simp_all add: set_mem_def)
  show "bc_inv (set_mem f s) = bc_inv s" "owner (set_mem f s) = owner s" "blk (set_mem f s) = blk s" "refs (set_mem f s) = refs s"
    "lkd (set_mem f s) = lkd s" "settled (set_mem f s) = settled s" using view_cong[OF e] by simp_all
  show "bio_ctx (set_mem f s) = bio_ctx s" "mypid (set_mem f s) = mypid s"
    by (simp_all add: set_mem_def bio_ctx_def mypid_def no_proc_lock_def procs_ok_def)
  show "budget k (set_mem f s) = budget k s" by (rule budget_cong) (simp_all add: set_mem_def)
  show "log_region (set_mem f s) = log_region s" by (rule klog_cong(3)) (simp add: set_mem_def)
qed (simp_all add: set_mem_def)

lemma read_copy:
  assumes b: "budget (Suc k) s"
  obtains c s1 s2 where "bread ROOTDEV x s = Inr (c, s1)" "bio_frame s s1" "b_data (bufs s1 ! c) = blk s x"
    "brelse c (set_mem f s1) = Inr s2" "same_view (set_mem f s) s2"
proof -
  have ok: "bio_ok s" and rd: "reads x s" using budgetD[OF b] by simp_all
  obtain c s1 where r: "bread ROOTDEV x s = Inr (c, s1)" "bio_ok s1" "bio_frame s s1" "owner s1 x = Some c"
    "blk s1 = blk s" "refs s1 = (refs s)(x := refs s x + 1)" "lkd s1 = (lkd s)(x := Some (mypid s))"
    "disk s1 = disk s" "wtrace s1 = wtrace s" "b_data (bufs s1 ! c) = blk s x"
    "\<forall>m c. owner s m = Some c \<longrightarrow> refs s m \<noteq> 0 \<longrightarrow> owner s1 m = Some c"
    by (rule bread_step[OF ok rd], rule that)
  let ?m = "set_mem f s1"
  have i1: "bc_inv ?m" "bio_ctx ?m" and pid: "mypid s1 = mypid s"
    using r(2) bio_frame_ctx[OF r(3)] ok by (auto simp: bio_ok_def set_mem_view)
  have o: "owner ?m x = Some c" and l: "lkd ?m x = Some (mypid ?m)" and u: "refs ?m x = 1 \<longrightarrow> blk ?m x = disk ?m x"
    using r(4) pid unused_clean[OF ok, of x] by (auto simp: set_mem_view r(5-8))
  obtain s2 where e: "brelse c ?m = Inr s2" "bc_inv s2" "bio_ctx s2" "mypid s2 = mypid ?m" "bio_frame ?m s2"
    "owner s2 = owner ?m" "blk s2 = blk ?m" "refs s2 = (refs ?m)(x := refs ?m x - 1)"
    "lkd s2 = (lkd ?m)(x := None)" "disk s2 = disk ?m" "wtrace s2 = wtrace ?m"
    by (rule brelse_step[OF i1 o l], use u in simp, rule that)
  have v: "blk s2 = blk s" "refs s2 = refs s" "lkd s2 = lkd s" "disk s2 = disk s" "wtrace s2 = wtrace s"
    using rd by (auto simp: e(7-11) set_mem_view r(5-9) reads_def fun_eq_iff)
  have "settled s2" using ok by (simp add: bio_ok_def settled_def v)
  then have "same_view (set_mem f s) s2"
    using v e(2,3) bio_frame_trans[OF bio_frame_mem[OF r(3)] e(5)] by (simp add: same_view_def bio_ok_def set_mem_view)
  then show ?thesis by (rule that[OF r(1,3,10) e(1)])
qed

lemma same_view_mem: "same_view s t \<Longrightarrow> same_view (set_mem f s) (set_mem f t)"
  using bio_frame_mem[of s t f] by (simp add: same_view_def bio_ok_def set_mem_view)

lemma set_mem_set_mem: "set_mem g (set_mem f s) = set_mem (\<lambda>m. g (f m)) s"
  by (simp add: set_mem_def)

lemma same_view_fields:
  assumes "same_view s t"
  shows "icache t = icache s" "mem t = mem s" "curproc t = curproc s" "held t = held s" "file_ok t = file_ok s" "fbyte t = fbyte s" "faddr t = faddr s"
proof -
  note F = bio_frame_fields[of s t] and V = same_viewD[OF assms]
  show i: "icache t = icache s" and "mem t = mem s" "curproc t = curproc s" "held t = held s" using assms F by (auto simp: same_view_def)
  show "fbyte t = fbyte s" "faddr t = faddr s" by (rule file_cong[OF i V(1)])+
  show "file_ok t = file_ok s" by (intro ext file_ok_cong[OF i V(1,4)])
qed

lemma rw_chunk_facts:
  assumes t: "tot < n" and o: "unat off + (unat n - unat tot) < 2 ^ 32"
  defines "m \<equiv> rw_chunk off (n - tot)"
  shows "0 < unat m" "unat m \<le> unat n - unat tot" "unat off mod 1024 + unat m \<le> 1024"
    "unat (off + m) = unat off + unat m" "unat (tot + m) = unat tot + unat m" "unat (ucast m :: u64) = unat m"
    "unat (off div 1024) = unat off div 1024" "unat (off mod 1024) = unat off mod 1024"
    "k < unat m \<Longrightarrow> (unat off + k) div 1024 = unat off div 1024 \<and> (unat off + k) mod 1024 = unat off mod 1024 + k"
proof -
  have t': "unat tot < unat n" using t by (simp add: word_less_nat_alt)
  then have d: "unat (n - tot) = unat n - unat tot" by (simp add: unat_sub_if')
  then have m: "unat m = min (unat n - unat tot) (1024 - unat off mod 1024)" by (simp add: m_def unat_rw_chunk)
  then show b: "0 < unat m" "unat m \<le> unat n - unat tot" "unat off mod 1024 + unat m \<le> 1024" using t' by (auto simp: min_def)
  show "unat (off + m) = unat off + unat m" using b(2) o by (simp add: unat_word_ariths)
  show "unat (tot + m) = unat tot + unat m" using b(2) t' unat_less_32[of n] by (simp add: unat_word_ariths)
  show "unat (ucast m :: u64) = unat m" using unat_less_32[of m] by (simp add: unsigned_ucast_eq take_bit_nat_eq_self)
  show "unat (off div 1024) = unat off div 1024" "unat (off mod 1024) = unat off mod 1024" by (simp_all add: unat_div unat_mod)
  show "k < unat m \<Longrightarrow> (unat off + k) div 1024 = unat off div 1024 \<and> (unat off + k) mod 1024 = unat off mod 1024 + k"
    using div_mod_within[of "unat off" 1024 k] b(3) by simp
qed

lemma file_room: "file_ok s i nb \<Longrightarrow> x \<le> nb * 1024 \<Longrightarrow> x < 2 ^ 32"
  by (simp add: file_ok_def param_defs)

lemma budget_proc: "budget k s \<Longrightarrow> \<exists>p. curproc s = Some p"
  by (auto simp: budget_def txn_def bio_ok_def bio_ctx_def)

lemma blit_cong: "(\<And>k. k < n \<Longrightarrow> f k = g k) \<Longrightarrow> blit M a f 0 n = blit M a g 0 n"
  by (rule ext) (simp add: blit_def less_diff_conv2)

lemma blit_none: "blit M a f j 0 = M"
  by (rule ext) (auto simp: blit_def)

lemma readi_step:
  assumes b: "budget (Suc k) s" and f: "file_ok s i nb" and t: "tot < n" and o: "unat off + (unat n - unat tot) \<le> nb * 1024"
  defines "m \<equiv> rw_chunk off (n - tot)"
  shows "\<exists>s'. readi_from i False dst off n tot s = readi_from i False (dst + ucast m) (off + m) n (tot + m) s' \<and>
    same_view (set_mem (\<lambda>M. blit M (unat dst) (\<lambda>k. fbyte s i (unat off + k)) 0 (unat m)) s) s'"
proof -
  note C = rw_chunk_facts[OF t file_room[OF f o], folded m_def]
  have "unat off div 1024 < nb" using C(1,2) o by (simp add: div_less_iff_less_mult)
  then obtain s0 where s0: "bmap i (off div 1024) s = Inr (faddr s i (unat off div 1024), s0)" "same_view s s0" "budget (Suc k) s0"
    using bmap_present[OF b f, of "off div 1024"] C(7) by auto
  note V = same_view_fields[OF s0(2)]
  let ?x = "faddr s i (unat off div 1024)"
  let ?f = "\<lambda>M. blit M (unat dst) (\<lambda>k. blk s ?x (unat off mod 1024 + k)) 0 (unat m)"
  obtain c s1 s2 where r: "bread ROOTDEV ?x s0 = Inr (c, s1)" "bio_frame s0 s1" "b_data (bufs s1 ! c) = blk s0 ?x"
    "brelse c (set_mem ?f s1) = Inr s2" "same_view (set_mem ?f s0) s2" by (rule read_copy[OF s0(3), of ?x ?f], rule that)
  obtain p where p: "curproc s1 = Some p" using budget_proc[OF s0(3)] bio_frame_fields(3)[OF r(2)] by auto
  have dev: "i_dev (icache s0 ! i) = ROOTDEV" using f V by (simp add: file_ok_def)
  have d: "b_data (bufs s1 ! c) = blk s ?x" using r(3) same_viewD(1)[OF s0(2)] by simp
  have e: "readi_from i False dst off n tot s = readi_from i False (dst + ucast m) (off + m) n (tot + m) s2"
    by (subst readi_from.simps, subst if_P[OF t])
      (simp add: s0(1) dev r(1) either_copyout_def myproc_def p d C(6,8) m_def[symmetric] Let_def, simp add: r(4))
  have "?f M = blit M (unat dst) (\<lambda>k. fbyte s i (unat off + k)) 0 (unat m)" for M
    by (rule blit_cong) (use C(9) in \<open>simp add: fbyte_def\<close>)
  then have "same_view (set_mem (\<lambda>M. blit M (unat dst) (\<lambda>k. fbyte s i (unat off + k)) 0 (unat m)) s) s2"
    using same_view_trans[OF same_view_mem[OF s0(2)] r(5)] by simp
  then show ?thesis using e by blast
qed

lemma blit_blit:
  "blit (blit M a f 0 m) (a + m) (\<lambda>k. f (m + k)) 0 l = blit M a f 0 (m + l)"
  by (rule ext) (auto simp: blit_def intro: arg_cong[of _ _ f])

lemma readi_loop:
  assumes "budget (Suc k) s" "file_ok s i nb" "tot \<le> n" "unat off + (unat n - unat tot) \<le> nb * 1024"
    and "unat dst + (unat n - unat tot) < 2 ^ 64"
  shows "\<exists>s'. readi_from i False dst off n tot s = Inr (n, s') \<and>
    same_view (set_mem (\<lambda>M. blit M (unat dst) (\<lambda>k. fbyte s i (unat off + k)) 0 (unat n - unat tot)) s) s'"
  using assms
proof (induction "unat n - unat tot" arbitrary: s dst off tot rule: less_induct)
  case less
  show ?case
  proof (cases "tot < n")
    case False
    then have "tot = n" using less.prems(3) by simp
    moreover have "same_view s s" using budgetD(4)[OF less.prems(1)] by (simp add: same_view_def bio_frame_refl)
    moreover have "set_mem (\<lambda>M. blit M a f 0 0) s = s" for a f by (simp add: set_mem_def blit_none)
    ultimately show ?thesis by (subst readi_from.simps) simp
  next
    case True
    define m where "m = rw_chunk off (n - tot)"
    note C = rw_chunk_facts[OF True file_room[OF less.prems(2,4)], folded m_def]
    let ?f = "\<lambda>k. fbyte s i (unat off + k)"
    obtain s1 where s1: "readi_from i False dst off n tot s = readi_from i False (dst + ucast m) (off + m) n (tot + m) s1"
      "same_view (set_mem (\<lambda>M. blit M (unat dst) ?f 0 (unat m)) s) s1"
      using readi_step[OF less.prems(1,2) True less.prems(4), folded m_def] by blast
    note V = same_view_fields[OF s1(2)]
    have d: "unat (dst + ucast m) = unat dst + unat m" using less.prems(5) C(2,6) by (simp add: unat_word_ariths)
    have l: "unat n - unat (tot + m) = unat n - unat tot - unat m" using C(5) by simp
    have b1: "budget (Suc k) s1" using budget_same[OF _ s1(2)] less.prems(1) by (simp add: set_mem_view)
    have f1: "file_ok s1 i nb" "fbyte s1 = fbyte s"
      using V(5,6) less.prems(2) file_ok_cong[of "set_mem f s" s i nb for f] file_cong[of "set_mem f s" s for f] by (simp_all add: set_mem_view)
    have "tot + m \<le> n" using C(2,5) True by (simp add: word_le_nat_alt word_less_nat_alt)
    moreover have "unat n - unat (tot + m) < unat n - unat tot" using C(1,5) True by (simp add: word_less_nat_alt)
    ultimately obtain s2 where s2: "readi_from i False (dst + ucast m) (off + m) n (tot + m) s1 = Inr (n, s2)"
      "same_view (set_mem (\<lambda>M. blit M (unat (dst + ucast m)) (\<lambda>k. fbyte s1 i (unat (off + m) + k)) 0 (unat n - unat (tot + m))) s1) s2"
      using less.hyps[of "tot + m" s1 "off + m" "dst + ucast m"] b1 f1 C(1,2) less.prems(4,5) unfolding d l C(4) by auto
    have "same_view (set_mem (\<lambda>M. blit M (unat dst) ?f 0 (unat n - unat tot)) s) s2"
      using same_view_trans[OF same_view_mem[OF s1(2)] s2(2)]
      unfolding set_mem_set_mem d l C(4) f1(2) add.assoc blit_blit[where f = ?f] le_add_diff_inverse[OF C(2)] .
    then show ?thesis using s1(1) s2(1) by auto
  qed
qed

section \<open>Writing\<close>

text \<open>
  The file after \<open>len\<close> bytes of memory from \<open>src\<close> on are written at \<open>off\<close>; the blocks of no other
  file change.
\<close>

definition fwritten :: "kernel \<Rightarrow> nat \<Rightarrow> nat \<Rightarrow> bytes \<Rightarrow> nat \<Rightarrow> nat \<Rightarrow> kernel \<Rightarrow> bool" where
  "fwritten s i nb x off len s' \<longleftrightarrow>
     (\<forall>y<nb * 1024. fbyte s' i y = (if off \<le> y \<and> y < off + len then x (y - off) else fbyte s i y)) \<and>
     (\<forall>z. z \<notin> faddr s i ` {..<nb} \<longrightarrow> blk s' z = blk s z) \<and> file_ok s' i nb \<and> (\<forall>bn<nb. faddr s' i bn = faddr s i bn) \<and> txn_frame s s'"

lemma log_region_step: "txn_step s x s' \<Longrightarrow> log_region s' = log_region s"
  by (simp add: txn_step_def log_region_def lblk_def[abs_def] log_append_def)

lemma fwritten_none: "file_ok s i nb \<Longrightarrow> fwritten s i nb x off 0 s"
  by (auto simp: fwritten_def txn_frame_def bio_frame_refl upd_log_def)

lemma fwritten_trans:
  assumes "fwritten s i nb x off m t" "fwritten t i nb (\<lambda>k. x (m + k)) (off + m) l u"
  shows "fwritten s i nb x off (m + l) u"
  unfolding fwritten_def
proof (intro conjI allI impI)
  fix y assume y: "y < nb * 1024"
  have "fbyte t i y = (if off \<le> y \<and> y < off + m then x (y - off) else fbyte s i y)"
    "fbyte u i y = (if off + m \<le> y \<and> y < off + m + l then x (m + (y - (off + m))) else fbyte t i y)"
    using assms y unfolding fwritten_def by blast+
  then show "fbyte u i y = (if off \<le> y \<and> y < off + (m + l) then x (y - off) else fbyte s i y)" by auto
next
  have "faddr t i ` {..<nb} = faddr s i ` {..<nb}" using assms(1) unfolding fwritten_def by (intro image_cong) auto
  then show "z \<notin> faddr s i ` {..<nb} \<Longrightarrow> blk u z = blk s z" for z using assms unfolding fwritten_def by metis
qed (use assms txn_frame_trans in \<open>auto simp: fwritten_def\<close>)

lemma fwritten_chunk:
  assumes f: "file_ok s i nb" and q: "q < nb" and o: "o1 + m \<le> 1024" and i: "icache t = icache s" "log_region t = log_region s"
    and b: "blk t = (blk s)(faddr s i q := blit (blk s (faddr s i q)) o1 x 0 m)" and fr: "txn_frame s t"
  shows "fwritten s i nb x (q * 1024 + o1) m t"
proof -
  let ?a = "faddr s i q" and ?ind = "i_addrs (icache s ! i) ! NDIRECT"
  have "NDIRECT < nb \<Longrightarrow> ?ind \<noteq> ?a" using f q unfolding file_ok_def by auto
  then have fa: "faddr t i bn = faddr s i bn" if "bn < nb" for bn using that by (auto simp: faddr_def i b)
  have "inj_on (faddr t i) {..<nb} = inj_on (faddr s i) {..<nb}" by (intro inj_on_cong) (simp add: fa)
  moreover have "faddr t i ` {..<nb} = faddr s i ` {..<nb}" by (intro image_cong) (simp_all add: fa)
  ultimately have ok: "file_ok t i nb" using f fa unfolding file_ok_def by (simp add: i)
  have "fbyte t i y = (if q * 1024 + o1 \<le> y \<and> y < q * 1024 + o1 + m then x (y - (q * 1024 + o1)) else fbyte s i y)" if y: "y < nb * 1024" for y
  proof -
    have yq: "y div 1024 < nb" using y by (simp add: div_less_iff_less_mult)
    have dec: "y = y div 1024 * 1024 + y mod 1024" "y mod 1024 < 1024" by simp_all
    show ?thesis
    proof (cases "y div 1024 = q")
      case True
      obtain r where r: "y = q * 1024 + r" "r < 1024" using dec True by blast
      then have "fbyte t i y = blit (blk s ?a) o1 x 0 m r" "fbyte s i y = blk s ?a r" using fa[OF q] by (simp_all add: fbyte_def b)
      then show ?thesis using r(1) by (simp add: blit_def)
    next
      case False
      then have "faddr s i (y div 1024) \<noteq> ?a" using f q yq unfolding file_ok_def inj_on_def by auto
      moreover have "\<not> (q * 1024 + o1 \<le> y \<and> y < q * 1024 + o1 + m)"
      proof
        assume "q * 1024 + o1 \<le> y \<and> y < q * 1024 + o1 + m"
        then have "1024 * q \<le> y" "y < 1024 * Suc q" using o by simp_all
        then have "y div 1024 = q" by (rule div_nat_eqI)
        then show False using False by simp
      qed
      ultimately show ?thesis using fa[OF yq] by (auto simp: fbyte_def b)
    qed
  qed
  then show ?thesis using ok fa fr q unfolding fwritten_def by (auto simp: b)
qed

lemma writei_step:
  assumes b: "budget (Suc k) s" and f: "file_ok s i nb" and t: "tot < n" and o: "unat off + (unat n - unat tot) \<le> nb * 1024"
  defines "m \<equiv> rw_chunk off (n - tot)"
  shows "\<exists>s'. writei_from i False src off n tot s = writei_from i False (src + ucast m) (off + m) n (tot + m) s' \<and> budget k s' \<and>
    fwritten s i nb (\<lambda>k. mem s (unat src + k)) (unat off) (unat m) s' \<and> log_region s' = log_region s"
proof -
  note C = rw_chunk_facts[OF t file_room[OF f o], folded m_def]
  have q: "unat off div 1024 < nb" using C(1,2) o by (simp add: div_less_iff_less_mult)
  then obtain s0 where s0: "bmap i (off div 1024) s = Inr (faddr s i (unat off div 1024), s0)" "same_view s s0" "budget (Suc k) s0"
    using bmap_present[OF b f, of "off div 1024"] C(7) by auto
  note V = same_view_fields[OF s0(2)] and W = same_viewD[OF s0(2)]
  let ?x = "faddr s i (unat off div 1024)" and ?o = "unat off mod 1024"
  have xl: "?x \<notin> log_region s0" using f q W(4) by (simp add: file_ok_def)
  obtain c s1 s2' where r: "bread ROOTDEV ?x s0 = Inr (c, s1)" "bio_frame s0 s1" "b_data (bufs s1 ! c) = blk s0 ?x"
    "brelse c s1 = Inr s2'" "same_view s0 s2'" "budget (Suc k) s2'" by (rule budget_read[OF s0(3), of ?x], rule that)
  let ?d = "blit (\<lambda>k. b_data (bufs s1 ! c) (?o + k)) 0 (mem s1) (unat src) (unat m)"
  let ?g = "\<lambda>d. blit d ?o ?d 0 (unat m)"
  obtain s2 s3 where w: "log_write c (bset c ?g s1) = Inr s2" "brelse c s2 = Inr s3" "txn_step s0 ?x s3" "budget k s3"
    "blk s3 = (blk s0)(?x := ?g (blk s0 ?x))" by (rule budget_put[OF s0(3) xl r(1), of ?g], rule that)
  obtain p where p: "curproc s1 = Some p" using budget_proc[OF s0(3)] bio_frame_fields(3)[OF r(2)] by auto
  have dev: "i_dev (icache s0 ! i) = ROOTDEV" using f V by (simp add: file_ok_def)
  have e: "writei_from i False src off n tot s = writei_from i False (src + ucast m) (off + m) n (tot + m) s3"
    by (subst writei_from.simps, subst if_P[OF t])
      (simp add: s0(1) dev r(1) either_copyin_def myproc_def p C(6,8) m_def[symmetric] Let_def w(1,2))
  have m1: "mem s1 = mem s" using bio_frame_fields(6)[OF r(2)] V(2) by simp
  have "?g d = blit d ?o (\<lambda>k. mem s (unat src + k)) 0 (unat m)" for d by (rule blit_cong) (simp add: blit_def m1)
  then have B: "blk s3 = (blk s)(?x := blit (blk s ?x) ?o (\<lambda>k. mem s (unat src + k)) 0 (unat m))" using w(5) W(1) by simp
  have fr: "txn_frame s s3" using s0(2) w(3) unfolding same_view_def txn_step_def by (blast intro: txn_frame_trans txn_frame_bio)
  have lr: "log_region s3 = log_region s" using log_region_step[OF w(3)] W(4) by simp
  have "fwritten s i nb (\<lambda>k. mem s (unat src + k)) (unat off div 1024 * 1024 + ?o) (unat m) s3"
    by (rule fwritten_chunk[OF f q C(3) txn_frame_fields(4)[OF fr] lr B fr])
  then show ?thesis using e w(4) lr by auto
qed

text \<open>The number of blocks a write of \<open>len\<close> bytes at \<open>off\<close> touches.\<close>

definition nchunks :: "nat \<Rightarrow> nat \<Rightarrow> nat" where
  "nchunks off len = (if len = 0 then 0 else (off mod 1024 + len + 1023) div 1024)"

lemma nchunks_step:
  assumes "0 < m" "m \<le> len" "m = min len (1024 - off mod 1024)"
  shows "nchunks (off + m) (len - m) + 1 \<le> nchunks off len"
proof (cases "m = len")
  case True
  have "1024 div 1024 \<le> (off mod 1024 + len + 1023) div 1024" using True assms(1) by (intro div_le_mono) simp
  then show ?thesis using True assms(1) by (simp add: nchunks_def)
next
  case False
  then have m: "m = 1024 - off mod 1024" using assms(3) by (auto simp: min_def split: if_splits)
  have "off mod 1024 < 1024" by simp
  then have e: "off mod 1024 + m = 1024" using m by simp
  then have "(off + m) mod 1024 = 0" by (metis mod_add_left_eq mod_self)
  moreover have "off mod 1024 + len + 1023 = 1024 + (len - m + 1023)" using e assms(2) by simp
  ultimately show ?thesis using False assms(2) by (simp add: nchunks_def)
qed

lemma writei_loop:
  assumes "budget (nchunks (unat off) (unat n - unat tot) + k) s" "file_ok s i nb" "tot \<le> n"
    and "unat off + (unat n - unat tot) \<le> nb * 1024" "unat src + (unat n - unat tot) < 2 ^ 64"
  shows "\<exists>s'. writei_from i False src off n tot s = Inr ((n, off + (n - tot)), s') \<and> budget k s' \<and>
    fwritten s i nb (\<lambda>k. mem s (unat src + k)) (unat off) (unat n - unat tot) s' \<and> log_region s' = log_region s"
  using assms
proof (induction "unat n - unat tot" arbitrary: s src off tot rule: less_induct)
  case less
  show ?case
  proof (cases "tot < n")
    case False
    then have "tot = n" using less.prems(3) by simp
    then show ?thesis using fwritten_none[OF less.prems(2)] budget_mono[OF less.prems(1), of k] by (subst writei_from.simps) simp
  next
    case True
    define m where "m = rw_chunk off (n - tot)"
    note C = rw_chunk_facts[OF True file_room[OF less.prems(2,4)], folded m_def]
    have tn: "unat tot < unat n" using True by (simp add: word_less_nat_alt)
    have um: "unat m = min (unat n - unat tot) (1024 - unat off mod 1024)"
      using tn by (simp add: m_def unat_rw_chunk unat_sub_if')
    have l: "unat n - unat (tot + m) = unat n - unat tot - unat m" using C(5) by simp
    let ?j = "nchunks (unat (off + m)) (unat n - unat (tot + m)) + k"
    have "Suc ?j \<le> nchunks (unat off) (unat n - unat tot) + k"
      using nchunks_step[OF C(1,2) um] unfolding C(4) l by simp
    then have b: "budget (Suc ?j) s" by (rule budget_mono[OF less.prems(1)])
    obtain s1 where s1: "writei_from i False src off n tot s = writei_from i False (src + ucast m) (off + m) n (tot + m) s1" "budget ?j s1"
      "fwritten s i nb (\<lambda>k. mem s (unat src + k)) (unat off) (unat m) s1" "log_region s1 = log_region s"
      using writei_step[OF b less.prems(2) True less.prems(4), folded m_def] by blast
    have f1: "file_ok s1 i nb" "mem s1 = mem s" using s1(3) txn_frame_fields(5) unfolding fwritten_def by blast+
    have d: "unat (src + ucast m) = unat src + unat m" using less.prems(5) C(2,6) by (simp add: unat_word_ariths)
    have le: "tot + m \<le> n" "unat n - unat (tot + m) < unat n - unat tot" using C(1,2,5) tn by (simp_all add: word_le_nat_alt)
    have bd: "unat (off + m) + (unat n - unat (tot + m)) \<le> nb * 1024" "unat (src + ucast m) + (unat n - unat (tot + m)) < 2 ^ 64"
      using less.prems(4,5) C(2) unfolding d l C(4) by simp_all
    obtain s2 where s2: "writei_from i False (src + ucast m) (off + m) n (tot + m) s1 = Inr ((n, off + m + (n - (tot + m))), s2)" "budget k s2"
      "fwritten s1 i nb (\<lambda>k. mem s1 (unat (src + ucast m) + k)) (unat (off + m)) (unat n - unat (tot + m)) s2" "log_region s2 = log_region s1"
      using less.hyps[OF le(2) s1(2) f1(1) le(1) bd] by blast
    have "fwritten s i nb (\<lambda>k. mem s (unat src + k)) (unat off) (unat m + (unat n - unat tot - unat m)) s2"
      using fwritten_trans[OF s1(3)] s2(3) unfolding d l C(4) f1(2) add.assoc by blast
    then have "fwritten s i nb (\<lambda>k. mem s (unat src + k)) (unat off) (unat n - unat tot) s2" unfolding le_add_diff_inverse[OF C(2)] .
    then show ?thesis using s1(1,4) s2(1,2,4) C(2) by (intro exI[of _ s2]) simp
  qed
qed

lemma iupdate_ok:
  assumes b: "budget (Suc k) s" and d: "i_dev (icache s ! i) = ROOTDEV" and x: "IBLOCK (i_inum (icache s ! i)) (sblk s) \<notin> log_region s"
  defines "B \<equiv> IBLOCK (i_inum (icache s ! i)) (sblk s)"
  shows "\<exists>s'. iupdate i s = Inr s' \<and> budget k s' \<and> txn_step s B s' \<and>
    blk s' = (blk s)(B := put_dinode (icache s ! i) (dinode_off (i_inum (icache s ! i))) (blk s B))"
proof -
  obtain c s1 s2' where r: "bread ROOTDEV B s = Inr (c, s1)" "bio_frame s s1" "b_data (bufs s1 ! c) = blk s B"
    "brelse c s1 = Inr s2'" "same_view s s2'" "budget (Suc k) s2'" by (rule budget_read[OF b, of B], rule that)
  obtain s2 s3 where w: "log_write c (bset c (put_dinode (icache s ! i) (dinode_off (i_inum (icache s ! i)))) s1) = Inr s2"
    "brelse c s2 = Inr s3" "txn_step s B s3" "budget k s3"
    "blk s3 = (blk s)(B := put_dinode (icache s ! i) (dinode_off (i_inum (icache s ! i))) (blk s B))"
    by (rule budget_put[OF b x[folded B_def] r(1)], rule that)
  have "iupdate i s = Inr s3" unfolding iupdate_def Let_def d B_def[symmetric] using r(1) w(1,2) by simp
  then show ?thesis using w by blast
qed

text \<open>The block of the inode itself is none of the file's.\<close>

definition inode_apart :: "kernel \<Rightarrow> nat \<Rightarrow> nat \<Rightarrow> bool" where
  "inode_apart s i nb \<longleftrightarrow> i < length (icache s) \<and>
     IBLOCK (i_inum (icache s ! i)) (sblk s) \<notin> log_region s \<union> faddr s i ` {..<nb} \<union> {i_addrs (icache s ! i) ! NDIRECT}"

lemma size_view:
  fixes z :: u32
  assumes "i < length (icache s)"
  defines "t \<equiv> upd_inode i (\<lambda>ip. ip\<lparr>i_size := z\<rparr>) s"
  shows "blk t = blk s" "budget k t = budget k s" "log_region t = log_region s" "sblk t = sblk s" "mem t = mem s"
    "icache t ! i = (icache s ! i)\<lparr>i_size := z\<rparr>" "faddr t i = faddr s i" "fbyte t i = fbyte s i" "file_ok t i nb = file_ok s i nb"
proof -
  have e: "bufs t = bufs s" "disk t = disk s" by (simp_all add: t_def upd_inode_def)
  show b: "blk t = blk s" by (rule view_cong(3)[OF e])
  show "budget k t = budget k s" by (rule budget_cong) (simp_all add: t_def upd_inode_def)
  show l: "log_region t = log_region s" by (rule klog_cong(3)) (simp add: t_def upd_inode_def)
  show "sblk t = sblk s" "mem t = mem s" by (simp_all add: t_def upd_inode_def)
  show i: "icache t ! i = (icache s ! i)\<lparr>i_size := z\<rparr>" using assms(1) by (simp add: t_def upd_inode_def)
  show f: "faddr t i = faddr s i" by (simp add: fun_eq_iff faddr_def i b)
  show "fbyte t i = fbyte s i" by (simp add: fun_eq_iff fbyte_def f b)
  show "file_ok t i nb = file_ok s i nb" by (simp add: file_ok_def i f l)
qed

lemma inode_write_keeps:
  assumes f: "file_ok s i nb" and a: "B \<notin> faddr s i ` {..<nb} \<union> {i_addrs (icache s ! i) ! NDIRECT}"
    and t: "blk t = (blk s)(B := v)" "icache t = icache s" "log_region t = log_region s"
  shows "file_ok t i nb" "y < nb * 1024 \<Longrightarrow> fbyte t i y = fbyte s i y" "bn < nb \<Longrightarrow> faddr t i bn = faddr s i bn"
proof -
  show fa: "faddr t i bn = faddr s i bn" if "bn < nb" for bn using a that by (auto simp: faddr_def t)
  have "inj_on (faddr t i) {..<nb} = inj_on (faddr s i) {..<nb}" by (intro inj_on_cong) (simp add: fa)
  moreover have "faddr t i ` {..<nb} = faddr s i ` {..<nb}" by (intro image_cong) (simp_all add: fa)
  ultimately show "file_ok t i nb" using f fa unfolding file_ok_def by (simp add: t)
  show "fbyte t i y = fbyte s i y" if "y < nb * 1024"
  proof -
    have q: "y div 1024 < nb" using that by (simp add: div_less_iff_less_mult)
    then have "faddr s i (y div 1024) \<noteq> B" using a by blast
    then show ?thesis using fa[OF q] by (simp add: fbyte_def t)
  qed
qed

lemma sint_small: "unat (n :: u32) < 2 ^ 31 \<Longrightarrow> sint n = int (unat n)"
proof -
  assume "unat n < 2 ^ 31"
  then have "int (unat n) < int (2 ^ 31)" by (simp only: of_nat_less_iff)
  then have u: "uint n < 2 ^ 31" by simp
  have l: "- (2 ^ 31) \<le> uint n" by (rule order_trans[OF _ uint_ge_0]) simp
  show ?thesis using signed_take_bit_int_eq_self[OF l u] by (simp add: sint_uint)
qed

lemma writei_ok:
  assumes b: "budget (nchunks (unat off) (unat n) + Suc k) s" and f: "file_ok s i nb" and ia: "inode_apart s i nb"
    and o: "off \<le> i_size (icache s ! i)" "unat off + unat n \<le> nb * 1024" "0 < n" and src: "unat src + unat n < 2 ^ 64"
  shows "\<exists>s'. writei i False src off n s = Inr (int (unat n), s') \<and> budget k s' \<and> file_ok s' i nb \<and>
    (\<forall>y<nb * 1024. fbyte s' i y = (if unat off \<le> y \<and> y < unat off + unat n then mem s (unat src + (y - unat off)) else fbyte s i y)) \<and>
    i_size (icache s' ! i) = max (i_size (icache s ! i)) (off + n)"
proof -
  have lim: "unat off + unat n < 2 ^ 31" using f o(2) by (simp add: file_ok_def param_defs)
  then have on: "unat (off + n) = unat off + unat n" by (simp add: unat_word_ariths)
  have g: "\<not> (off > i_size (icache s ! i) \<or> off + n < off)" "\<not> unat (off + n) > MAXFILE * BSIZE"
    using o f unfolding on by (auto simp: word_less_nat_alt word_le_nat_alt on file_ok_def param_defs)
  have b': "budget (nchunks (unat off) (unat n - unat (0 :: u32)) + Suc k) s" using b by simp
  obtain s1 where s1: "writei_from i False src off n 0 s = Inr ((n, off + n), s1)" "budget (Suc k) s1"
    "fwritten s i nb (\<lambda>k. mem s (unat src + k)) (unat off) (unat n) s1" "log_region s1 = log_region s"
    using writei_loop[OF b' f, of src] o(2) src by auto
  have fr: "icache s1 = icache s" "sblk s1 = sblk s" "file_ok s1 i nb"
    and fa1: "faddr s1 i ` {..<nb} = faddr s i ` {..<nb}" using s1(3) txn_frame_fields(3,4) unfolding fwritten_def by (auto intro!: image_cong)
  define s2 where "s2 = (if off + n > i_size (icache s1 ! i) then upd_inode i (\<lambda>ip. ip\<lparr>i_size := off + n\<rparr>) s1 else s1)"
  have L: "i < length (icache s1)" using ia fr(1) by (simp add: inode_apart_def)
  note Z = size_view[OF L, where z = "off + n"]
  have v: "budget (Suc k) s2" "log_region s2 = log_region s" "sblk s2 = sblk s" "fbyte s2 i = fbyte s1 i" "faddr s2 i = faddr s1 i" "file_ok s2 i nb"
    "i_inum (icache s2 ! i) = i_inum (icache s ! i)" "i_addrs (icache s2 ! i) = i_addrs (icache s ! i)" "i_dev (icache s2 ! i) = ROOTDEV"
    "i_size (icache s2 ! i) = max (i_size (icache s ! i)) (off + n)"
    using Z s1(2,4) fr f by (auto simp: s2_def fr(1,2) file_ok_def max_def)
  have ap: "IBLOCK (i_inum (icache s2 ! i)) (sblk s2) \<notin> log_region s2"
    "IBLOCK (i_inum (icache s2 ! i)) (sblk s2) \<notin> faddr s2 i ` {..<nb} \<union> {i_addrs (icache s2 ! i) ! NDIRECT}"
    using ia v fa1 by (simp_all add: inode_apart_def)
  obtain s3 where s3: "iupdate i s2 = Inr s3" "budget k s3" "txn_step s2 (IBLOCK (i_inum (icache s2 ! i)) (sblk s2)) s3"
    "blk s3 = (blk s2)(IBLOCK (i_inum (icache s2 ! i)) (sblk s2) := put_dinode (icache s2 ! i) (dinode_off (i_inum (icache s2 ! i)))
        (blk s2 (IBLOCK (i_inum (icache s2 ! i)) (sblk s2))))" using iupdate_ok[OF v(1,9) ap(1)] by blast
  have i3: "icache s3 = icache s2" "log_region s3 = log_region s2" using s3(3) txn_frame_fields(4) log_region_step unfolding txn_step_def by blast+
  note K = inode_write_keeps[OF v(6) ap(2) s3(4) i3]
  have "sint n = int (unat n)" using lim by (intro sint_small) simp
  then have "writei i False src off n s = Inr (int (unat n), s3)"
    using g s1(1) s3(1) o(3) by (simp add: writei_def s2_def[symmetric])
  moreover have "fbyte s3 i y = (if unat off \<le> y \<and> y < unat off + unat n then mem s (unat src + (y - unat off)) else fbyte s i y)"
    if "y < nb * 1024" for y using K(2)[OF that] s1(3) that unfolding v(4) fwritten_def by simp
  ultimately show ?thesis using s3(2) K(1) v(10) i3(1) by auto
qed

lemma readi_ok:
  assumes b: "budget (Suc k) s" and f: "file_ok s i nb"
    and o: "unat off + unat n \<le> unat (i_size (icache s ! i))" "unat off + unat n \<le> nb * 1024" and dst: "unat dst + unat n < 2 ^ 64"
  shows "\<exists>s'. readi i False dst off n s = Inr (int (unat n), s') \<and>
    same_view (set_mem (\<lambda>M. blit M (unat dst) (\<lambda>k. fbyte s i (unat off + k)) 0 (unat n)) s) s'"
proof -
  have lim: "unat off + unat n < 2 ^ 31" using f o(2) by (simp add: file_ok_def param_defs)
  then have on: "unat (off + n) = unat off + unat n" by (simp add: unat_word_ariths)
  have g: "\<not> (off > i_size (icache s ! i) \<or> off + n < off)" "\<not> off + n > i_size (icache s ! i)"
    using o(1) by (auto simp: word_less_nat_alt on)
  have "sint n = int (unat n)" using lim by (intro sint_small) simp
  moreover obtain s' where "readi_from i False dst off n 0 s = Inr (n, s')"
    "same_view (set_mem (\<lambda>M. blit M (unat dst) (\<lambda>k. fbyte s i (unat off + k)) 0 (unat n)) s) s'"
    using readi_loop[OF b f, of 0 n off dst] o(2) dst by auto
  ultimately show ?thesis using g by (simp add: readi_def Let_def)
qed

end
