(* ===== verification/Fs_Inodes.thy ===== *)
theory Fs_Inodes
  imports Fs_Files
begin

text \<open>
  On-disk inodes: what \<^verbatim>\<open>iupdate\<close> writes, \<^verbatim>\<open>ilock\<close> reads back, and the other inodes of the same block
  are left alone (\<^verbatim>\<open>kernel/fs.c\<close>).
\<close>

lemma load16_cong: "(\<And>i. i < 2 \<Longrightarrow> m (a + i) = m' (a + i)) \<Longrightarrow> load16 m a = load16 m' a"
  by (simp add: load16_def loadn_cong[of 2 m a m' a])

lemma store_addrs:
  fixes v :: "nat \<Rightarrow> u32"
  shows "x < b \<or> b + 4 * n \<le> x \<Longrightarrow> fold (\<lambda>k d. store32 d (b + 4 * k) (v k)) [0..<n] d x = d x"
    "k < n \<Longrightarrow> load32 (fold (\<lambda>k d. store32 d (b + 4 * k) (v k)) [0..<n] d) (b + 4 * k) = v k"
proof (induction n)
  case (Suc n)
  { case 1
    then have "x < b + 4 * n \<or> b + 4 * n + 4 \<le> x" "x < b \<or> b + 4 * n \<le> x" by auto
    then show ?case using Suc.IH(1) by (simp add: store32_other)
  next
    case 2
    then show ?case using Suc.IH(2) by (cases "k = n") (simp_all add: load32_store32_disjoint)
  }
qed simp_all

text \<open>The fields an on-disk inode carries.\<close>

definition dfields :: "inode \<Rightarrow> inode \<Rightarrow> inode" where
  "dfields ip jp = jp\<lparr>i_type := i_type ip, i_major := i_major ip, i_minor := i_minor ip, i_nlink := i_nlink ip,
     i_size := i_size ip, i_addrs := i_addrs ip\<rparr>"

lemma put_dinode_other: "x < a \<or> a + 64 \<le> x \<Longrightarrow> put_dinode ip a d x = d x"
  unfolding put_dinode_def Let_def by (subst store_addrs(1)) (auto simp: NDIRECT_def store16_other store32_other)

lemma get_put_dinode:
  assumes "length (i_addrs ip) = NDIRECT + 1"
  shows "get_dinode (put_dinode ip a d) a jp = dfields ip jp"
proof -
  define t where "t = store16 d a (i_type ip)"
  define u where "u = store16 t (a + 2) (i_major ip)"
  define v where "v = store16 u (a + 4) (i_minor ip)"
  define w where "w = store16 v (a + 6) (i_nlink ip)"
  define h where "h = store32 w (a + 8) (i_size ip)"
  define p where "p = fold (\<lambda>k d. store32 d (a + 12 + 4 * k) (i_addrs ip ! k)) [0..<NDIRECT + 1] h"
  have e: "put_dinode ip a d = p" by (simp only: put_dinode_def Let_def p_def h_def w_def v_def u_def t_def)
  have low: "p x = h x" if "x < a + 12" for x unfolding p_def by (rule store_addrs(1)) (use that in simp)
  have hw: "h x = w x" if "x < a + 8" for x unfolding h_def by (rule store32_other) (use that in simp)
  have wv: "w x = v x" if "x < a + 6" for x unfolding w_def by (rule store16_other) (use that in simp)
  have vu: "v x = u x" if "x < a + 4" for x unfolding v_def by (rule store16_other) (use that in simp)
  have ut: "u x = t x" if "x < a + 2" for x unfolding u_def by (rule store16_other) (use that in simp)
  have "load16 p a = load16 t a" by (rule load16_cong) (simp add: low hw wv vu ut)
  moreover have "load16 p (a + 2) = load16 u (a + 2)" by (rule load16_cong) (simp add: low hw wv vu)
  moreover have "load16 p (a + 4) = load16 v (a + 4)" by (rule load16_cong) (simp add: low hw wv)
  moreover have "load16 p (a + 6) = load16 w (a + 6)" by (rule load16_cong) (simp add: low hw)
  moreover have "load32 p (a + 8) = load32 h (a + 8)" by (rule load32_cong) (simp add: low)
  moreover have "map (\<lambda>k. load32 p (a + 12 + 4 * k)) [0..<NDIRECT + 1] = i_addrs ip"
    unfolding p_def using assms by (intro nth_equalityI) (simp_all add: store_addrs(2) del: upt_Suc)
  ultimately show ?thesis unfolding e get_dinode_def dfields_def by (simp add: t_def u_def v_def w_def h_def byte_simps del: upt_Suc)
qed

lemma get_dinode_cong:
  assumes "\<And>x. a \<le> x \<Longrightarrow> x < a + 64 \<Longrightarrow> d x = e x"
  shows "get_dinode d a jp = get_dinode e a jp"
proof -
  have "load16 d (a + j) = load16 e (a + j)" if "j \<le> 6" for j by (rule load16_cong) (use that assms in simp)
  from this[of 0] this[of 2] this[of 4] this[of 6]
  have "load16 d a = load16 e a" "load16 d (a + 2) = load16 e (a + 2)" "load16 d (a + 4) = load16 e (a + 4)" "load16 d (a + 6) = load16 e (a + 6)" by simp_all
  moreover have "load32 d (a + j) = load32 e (a + j)" if "j \<le> 60" for j by (rule load32_cong) (use that assms in simp)
  from this[of 8] this have "load32 d (a + 8) = load32 e (a + 8)" "\<forall>k\<in>set [0..<NDIRECT + 1]. load32 d (a + 12 + 4 * k) = load32 e (a + 12 + 4 * k)"
    by (simp_all add: NDIRECT_def add.assoc)
  ultimately show ?thesis unfolding get_dinode_def by (simp cong: map_cong)
qed

text \<open>Two inodes lie in different blocks or at different places of one block.\<close>

lemma inode_places:
  assumes "i \<noteq> j" "IBLOCK i sb = IBLOCK j sb"
  shows "dinode_off i + 64 \<le> dinode_off j \<or> dinode_off j + 64 \<le> dinode_off i"
proof -
  have "i div of_nat IPB = j div of_nat IPB" using assms(2) by (simp add: IBLOCK_def)
  then have "i mod of_nat IPB \<noteq> j mod of_nat IPB" using assms(1) by (metis mult_div_mod_eq)
  then have "unat (i mod of_nat IPB) \<noteq> unat (j mod of_nat IPB)" by (simp add: word_unat_eq_iff)
  then show ?thesis unfolding dinode_off_def by linarith
qed

lemma iupdate_inode_ok:
  assumes b: "budget (Suc k) s" and d: "i_dev (icache s ! i) = ROOTDEV" and x: "IBLOCK (i_inum (icache s ! i)) (sblk s) \<notin> log_region s"
    and l: "length (i_addrs (icache s ! i)) = NDIRECT + 1"
  shows "\<exists>s'. iupdate i s = Inr s' \<and> budget k s' \<and>
    get_dinode (blk s' (IBLOCK (i_inum (icache s ! i)) (sblk s))) (dinode_off (i_inum (icache s ! i))) jp = dfields (icache s ! i) jp \<and>
    (\<forall>j. j \<noteq> i_inum (icache s ! i) \<longrightarrow> get_dinode (blk s' (IBLOCK j (sblk s))) (dinode_off j) jp =
       get_dinode (blk s (IBLOCK j (sblk s))) (dinode_off j) jp) \<and>
    (\<forall>y. y \<noteq> IBLOCK (i_inum (icache s ! i)) (sblk s) \<longrightarrow> blk s' y = blk s y)"
proof -
  let ?n = "i_inum (icache s ! i)"
  let ?B = "IBLOCK ?n (sblk s)"
  obtain s' where s': "iupdate i s = Inr s'" "budget k s'" "blk s' = (blk s)(?B := put_dinode (icache s ! i) (dinode_off ?n) (blk s ?B))"
    using iupdate_ok[OF b d x] by blast
  have "get_dinode (blk s' (IBLOCK j (sblk s))) (dinode_off j) jp = get_dinode (blk s (IBLOCK j (sblk s))) (dinode_off j) jp" if j: "j \<noteq> ?n" for j
  proof (cases "IBLOCK j (sblk s) = ?B")
    case True
    note p = inode_places[OF j True]
    show ?thesis by (rule get_dinode_cong) (use p in \<open>simp add: s'(3) True, subst put_dinode_other, auto\<close>)
  qed (simp add: s'(3))
  moreover have "get_dinode (blk s' ?B) (dinode_off ?n) jp = dfields (icache s ! i) jp" using get_put_dinode[OF l] by (simp add: s'(3))
  ultimately show ?thesis using s' by auto
qed

end
