(* ===== verification/Boot_File.thy ===== *)
theory Boot_File
  imports Boot_State Fs_Inodes
begin

text \<open>
  The operation of \<open>fs_op\<close> with one regular file in the inode cache: inode 16, 100 bytes long, its
  only data block at 500.
\<close>

definition file_inode :: inode where
  "file_inode = inode0\<lparr>i_dev := ROOTDEV, i_inum := 16, i_ref := 1, i_valid := True, i_type := T_FILE, i_nlink := 1,
     i_size := 100, i_addrs := 500 # replicate 12 0\<rparr>"

definition file_op :: kernel where
  "file_op = fs_op\<lparr>icache := file_inode # replicate (NINODE - 1) inode0\<rparr>"

lemma file_op_fields: "icache file_op = file_inode # replicate (NINODE - 1) inode0" "sblk file_op = fs_sb" "log_region file_op = of_nat ` {2..32}"
proof -
  show "log_region file_op = of_nat ` {2..32}" using klog_cong(3)[of file_op fs_op] by (simp add: file_op_def fs_op_fields)
qed (simp_all add: file_op_def fs_op_fields)

lemma file_op_budget: "k \<le> 29 \<Longrightarrow> budget k file_op"
  using budget_cong[of file_op fs_op] fs_op_budget[of k] by (simp add: file_op_def)

lemma file_op_inode: "icache file_op ! 0 = file_inode" "IBLOCK 16 fs_sb = 33" "length (i_addrs file_inode) = NDIRECT + 1"
  by (simp_all add: file_op_fields file_inode_def IBLOCK_def fs_sb_def param_defs IPB_def)

lemma file_op_apart: "(33 :: u32) \<notin> log_region file_op" "(500 :: u32) \<notin> log_region file_op"
  using outside_region[of 33] outside_region[of 500] by (simp_all add: file_op_fields)

lemma file_op_file: "file_ok file_op 0 1" "inode_apart file_op 0 1"
proof -
  have a: "faddr file_op 0 0 = 500" by (simp add: faddr_def file_op_inode file_inode_def param_defs)
  have "{..<1 :: nat} = {0}" by auto
  then show "file_ok file_op 0 1" "inode_apart file_op 0 1"
    using file_op_apart a file_op_inode(2)
    by (simp_all add: file_ok_def inode_apart_def file_op_inode file_op_fields(1,2)) (simp_all add: file_inode_def param_defs file_op_inode)
qed

end
