(* ===== verification/Ring.thy ===== *)
theory Ring
  imports Prelude
begin

text \<open>
  The contract of a bounded FIFO buffer, as the pipe, the console input and the UART output rings
  keep it, and what follows for any interleaving of writers and readers.
\<close>

datatype 'a ring_op = Put 'a | Get

text \<open>A run of operations; it stops at a \<open>Put\<close> on a full ring or a \<open>Get\<close> on an empty one.\<close>

fun ring_run :: "('a \<Rightarrow> 'r \<Rightarrow> 'r) \<Rightarrow> ('r \<Rightarrow> 'a \<times> 'r) \<Rightarrow> ('r \<Rightarrow> bool) \<Rightarrow> ('r \<Rightarrow> bool) \<Rightarrow>
    'a ring_op list \<Rightarrow> 'r \<Rightarrow> ('a list \<times> 'r) option" where
  "ring_run put get full nodata [] r = Some ([], r)"
| "ring_run put get full nodata (Put a # ops) r =
     (if full r then None else ring_run put get full nodata ops (put a r))"
| "ring_run put get full nodata (Get # ops) r =
     (if nodata r then None
      else case ring_run put get full nodata ops (snd (get r)) of
        None \<Rightarrow> None | Some (out, r') \<Rightarrow> Some (fst (get r) # out, r'))"

fun puts :: "'a ring_op list \<Rightarrow> 'a list" where
  "puts [] = []"
| "puts (Put a # ops) = a # puts ops"
| "puts (Get # ops) = puts ops"

locale ring_buffer =
  fixes inv :: "'r \<Rightarrow> bool" and contents :: "'r \<Rightarrow> 'a list" and cap :: nat
    and put :: "'a \<Rightarrow> 'r \<Rightarrow> 'r" and get :: "'r \<Rightarrow> 'a \<times> 'r" and full :: "'r \<Rightarrow> bool" and nodata :: "'r \<Rightarrow> bool"
  assumes full_iff: "inv r \<Longrightarrow> full r \<longleftrightarrow> length (contents r) = cap"
    and nodata_iff: "inv r \<Longrightarrow> nodata r \<longleftrightarrow> contents r = []"
    and bounded: "inv r \<Longrightarrow> length (contents r) \<le> cap"
    and put_ok: "inv r \<Longrightarrow> \<not> full r \<Longrightarrow> inv (put a r) \<and> contents (put a r) = contents r @ [a]"
    and get_ok: "inv r \<Longrightarrow> \<not> nodata r \<Longrightarrow> inv (snd (get r)) \<and> contents r = fst (get r) # contents (snd (get r))"
begin

lemma run_fifo:
  "inv r \<Longrightarrow> ring_run put get full nodata ops r = Some (out, r') \<Longrightarrow>
     inv r' \<and> contents r @ puts ops = out @ contents r'"
proof (induction ops arbitrary: r out)
  case (Cons x ops)
  show ?case
  proof (cases x)
    case (Put a)
    then have "\<not> full r" "ring_run put get full nodata ops (put a r) = Some (out, r')"
      using Cons.prems(2) by (auto split: if_splits)
    then show ?thesis using Cons.IH[of "put a r" out] Cons.prems(1) put_ok[of r a] Put by simp
  next
    case Get
    then obtain out' where "\<not> nodata r" "ring_run put get full nodata ops (snd (get r)) = Some (out', r')" "out = fst (get r) # out'"
      using Cons.prems(2) by (auto split: if_splits option.splits)
    then show ?thesis using Cons.IH[of "snd (get r)" out'] Cons.prems(1) get_ok[of r] Get by simp
  qed
qed simp

lemma run_bounded:
  assumes "inv r" "ring_run put get full nodata ops r = Some (out, r')"
  shows "length (contents r) + length (puts ops) \<le> length out + cap"
proof -
  have "length (contents r @ puts ops) = length (out @ contents r')" "inv r'"
    using run_fifo[OF assms] by (simp_all only:)
  then show ?thesis using bounded[of r'] by simp
qed

end

section \<open>Rings with free-running counters\<close>

text \<open>
  The bytes between the counters \<open>r\<close> and \<open>w\<close> of a ring of \<open>n\<close> places, where \<open>n\<close> is a power of two
  and the counters wrap at \<open>2 ^ 32\<close>.
\<close>

definition ring_bytes :: "nat \<Rightarrow> (nat \<Rightarrow> 'a) \<Rightarrow> u32 \<Rightarrow> u32 \<Rightarrow> 'a list" where
  "ring_bytes n buf r w = map (\<lambda>i. buf (unat ((r + of_nat i) mod of_nat n))) [0..<unat (w - r)]"

lemma length_ring_bytes [simp]: "length (ring_bytes n buf r w) = unat (w - r)"
  by (simp add: ring_bytes_def)

lemma unat_add_mod:
  assumes "n dvd 2 ^ 32" "0 < n" "n < 2 ^ 32"
  shows "unat ((r + of_nat i :: u32) mod of_nat n) = (unat r + i) mod n"
proof -
  have n: "unat (of_nat n :: u32) = n" using assms(3) by (simp add: unat_of_nat)
  have "unat (r + of_nat i) = (unat r + i) mod 2 ^ 32" by (simp add: unat_word_ariths unat_of_nat mod_simps)
  then have "unat ((r + of_nat i) mod of_nat n) = (unat r + i) mod 2 ^ 32 mod n" by (simp add: unat_mod n)
  then show ?thesis using assms(1) by (simp add: mod_mod_cancel)
qed

lemma ring_index_inj:
  assumes "i < n" "j < n" "(a + i) mod n = (a + j) mod n"
  shows "i = (j :: nat)"
proof -
  have "\<not> x < y" if "y < n" "(a + x) mod n = (a + y) mod n" for x y
  proof
    assume "x < y"
    moreover from this have "n dvd y - x" using that(2) mod_eq_dvd_iff_nat[of "a + x" "a + y" n] by simp
    ultimately show False using that(1) nat_dvd_not_less[of "y - x" n] by simp
  qed
  then show ?thesis using assms by (metis linorder_neqE_nat)
qed

lemma ring_bytes_put:
  assumes n: "n dvd 2 ^ 32" "0 < n" "n < 2 ^ 32" and f: "unat (w - r) < n"
  shows "ring_bytes n (buf(unat (w mod of_nat n) := a)) r (w + 1) = ring_bytes n buf r w @ [a]"
proof -
  let ?k = "unat (w - r)"
  have k: "unat (w + 1 - r) = Suc ?k"
  proof -
    have "w + 1 - r = (w - r) + 1" by simp
    then show ?thesis using f n(3) by (simp only: unat_word_ariths) simp
  qed
  have w: "unat (w mod of_nat n) = (unat r + ?k) mod n" using unat_add_mod[OF n, of r ?k] by simp
  have ne: "unat ((r + of_nat i) mod of_nat n) \<noteq> unat (w mod of_nat n)" if "i < ?k" for i
  proof
    assume "unat ((r + of_nat i) mod of_nat n) = unat (w mod of_nat n)"
    then have "(unat r + i) mod n = (unat r + ?k) mod n" unfolding w unat_add_mod[OF n] .
    then show False using ring_index_inj[of i n ?k] that f by simp
  qed
  have "map (\<lambda>i. (buf(unat (w mod of_nat n) := a)) (unat ((r + of_nat i) mod of_nat n))) [0..<?k] =
      map (\<lambda>i. buf (unat ((r + of_nat i) mod of_nat n))) [0..<?k]" using ne by (intro map_cong) auto
  moreover have "(buf(unat (w mod of_nat n) := a)) (unat ((r + of_nat ?k) mod of_nat n)) = a" by simp
  ultimately show ?thesis unfolding ring_bytes_def k by (simp del: fun_upd_apply)
qed

lemma ring_bytes_get:
  assumes "w \<noteq> r"
  shows "ring_bytes n buf r w = buf (unat (r mod of_nat n)) # ring_bytes n buf (r + 1) w"
proof -
  have "0 < unat (w - r)" using assms by (simp add: unat_gt_0)
  then obtain k where k: "unat (w - r) = Suc k" using gr0_implies_Suc by blast
  have "unat (w - (r + 1)) = k"
  proof -
    have e: "w - (r + 1) = (w - r) - 1" by simp
    have "unat (x - 1) = unat x - 1" if "0 < unat x" for x :: u32
      using that by (subst unat_sub_if') simp
    from this[of "w - r"] k have "unat ((w - r) - 1) = unat (w - r) - 1" by linarith
    then show ?thesis unfolding e using k by simp
  qed
  then show ?thesis unfolding ring_bytes_def k by (simp add: upt_conv_Cons map_Suc_upt[symmetric] add.assoc del: upt_Suc)
qed

lemma ring_bytes_Nil: "ring_bytes n buf r w = [] \<longleftrightarrow> w = r"
  by (simp add: ring_bytes_def unat_eq_0)

lemma ring_step_bounds:
  assumes "unat (w - r) < n" "n < 2 ^ 32"
  shows "unat (w + 1 - r) = Suc (unat (w - r :: u32))"
proof -
  have "w + 1 - r = (w - r) + 1" by simp
  then show ?thesis using assms by (simp only: unat_word_ariths) simp
qed

lemma ring_full_iff:
  assumes "unat (w - r) \<le> n" "n < 2 ^ 32"
  shows "w = r + of_nat n \<longleftrightarrow> unat (w - r :: u32) = n"
proof
  assume "unat (w - r) = n"
  then have "w - r = of_nat n" by auto
  then show "w = r + of_nat n" by (metis add.commute diff_add_cancel)
qed (use assms in \<open>simp add: unat_of_nat\<close>)

end
