(* ===== verification/Pipe_Fifo.thy ===== *)
theory Pipe_Fifo
  imports Pipe Vm_User Ring
begin

text \<open>
  Pipes carry bytes in order: the 512-byte ring with its wrapping counters is a bounded FIFO
  buffer, \<open>pipewrite\<close> appends the caller's bytes to it and \<open>piperead\<close> delivers them.
\<close>

section \<open>The ring of a pipe\<close>

definition pipe_inv :: "pipe \<Rightarrow> bool" where
  "pipe_inv p \<longleftrightarrow> unat (pi_nwrite p - pi_nread p) \<le> PIPESIZE"

definition pipe_bytes :: "pipe \<Rightarrow> u8 list" where
  "pipe_bytes p = ring_bytes PIPESIZE (pi_data p) (pi_nread p) (pi_nwrite p)"

definition pipe_empty :: "pipe \<Rightarrow> bool" where
  "pipe_empty p \<longleftrightarrow> pi_nread p = pi_nwrite p"

lemma PIPESIZE_dvd: "PIPESIZE dvd 2 ^ 32" "0 < PIPESIZE" "PIPESIZE < 2 ^ 32"
proof -
  show "PIPESIZE dvd 2 ^ 32" by (rule dvdI[of _ _ "2 ^ 23"]) (simp add: PIPESIZE_def)
qed (simp_all add: PIPESIZE_def)

interpretation prb: ring_buffer pipe_inv pipe_bytes PIPESIZE pipe_put pipe_get pipe_full pipe_empty
proof
  fix r :: pipe and a :: u8
  assume i: "pipe_inv r"
  then have le: "unat (pi_nwrite r - pi_nread r) \<le> PIPESIZE" by (simp add: pipe_inv_def)
  show f: "pipe_full r \<longleftrightarrow> length (pipe_bytes r) = PIPESIZE"
    unfolding pipe_full_def pipe_bytes_def length_ring_bytes by (rule ring_full_iff[OF le PIPESIZE_dvd(3)])
  show e: "pipe_empty r \<longleftrightarrow> pipe_bytes r = []" by (auto simp: pipe_empty_def pipe_bytes_def ring_bytes_Nil)
  show "length (pipe_bytes r) \<le> PIPESIZE" using le by (simp add: pipe_bytes_def)
  show "pipe_inv (pipe_put a r) \<and> pipe_bytes (pipe_put a r) = pipe_bytes r @ [a]" if "\<not> pipe_full r"
  proof -
    have lt: "unat (pi_nwrite r - pi_nread r) < PIPESIZE" using that f le by (simp add: pipe_bytes_def)
    have "unat (pi_nwrite r + 1 - pi_nread r) = Suc (unat (pi_nwrite r - pi_nread r))"
      by (rule ring_step_bounds[OF lt PIPESIZE_dvd(3)])
    then have "pipe_inv (pipe_put a r)" using lt by (simp add: pipe_inv_def pipe_put_def)
    moreover have "pipe_bytes (pipe_put a r) = pipe_bytes r @ [a]"
      using ring_bytes_put[OF PIPESIZE_dvd lt, of "pi_data r" a] by (simp add: pipe_bytes_def pipe_put_def)
    ultimately show ?thesis by simp
  qed
  show "pipe_inv (snd (pipe_get r)) \<and> pipe_bytes r = fst (pipe_get r) # pipe_bytes (snd (pipe_get r))" if "\<not> pipe_empty r"
  proof -
    have ne: "pi_nwrite r \<noteq> pi_nread r" using that by (auto simp: pipe_empty_def)
    have b: "pipe_bytes r = fst (pipe_get r) # pipe_bytes (snd (pipe_get r))"
      using ring_bytes_get[OF ne, of PIPESIZE "pi_data r"] by (simp add: pipe_bytes_def pipe_get_def)
    then have "length (pipe_bytes (snd (pipe_get r))) < length (pipe_bytes r)" by simp
    then have "pipe_inv (snd (pipe_get r))" using le by (simp add: pipe_inv_def pipe_bytes_def)
    then show ?thesis using b by simp
  qed
qed

section \<open>Writing\<close>

text \<open>The caller of the loops: a process that holds the pipe's lock and no process lock.\<close>

definition pipe_ctx :: "u64 \<Rightarrow> nat \<Rightarrow> kernel \<Rightarrow> bool" where
  "pipe_ctx pi p s \<longleftrightarrow> curproc s = Some p \<and> PipeLk pi \<in> held s \<and> no_proc_lock s \<and> procs_ok s"

abbreviation (input) upt_of :: "nat \<Rightarrow> kernel \<Rightarrow> u64" where
  "upt_of p s \<equiv> p_pagetable (procs s ! p)"

lemma pipe_ctx_upd [simp]: "pipe_ctx pi p (upd_pipe pi f s) = pipe_ctx pi p s"
  by (simp add: pipe_ctx_def upd_pipe_def no_proc_lock_def procs_ok_def)

lemma wakeup_release:
  assumes "pipe_ctx pi p s"
  shows "wakeup ch s = Inr (s\<lparr>procs := map (wake1 ch) (procs s)\<rparr>)"
    "bindE (wakeup ch s) (release (PipeLk pi)) = Inr (s\<lparr>procs := map (wake1 ch) (procs s), held := held s - {PipeLk pi}\<rparr>)"
proof -
  show w: "wakeup ch s = Inr (s\<lparr>procs := map (wake1 ch) (procs s)\<rparr>)"
    using assms by (intro wakeup_eq) (auto simp: pipe_ctx_def)
  show "bindE (wakeup ch s) (release (PipeLk pi)) = Inr (s\<lparr>procs := map (wake1 ch) (procs s), held := held s - {PipeLk pi}\<rparr>)"
    using assms by (simp add: w release_def pipe_ctx_def)
qed

lemma copyin_1:
  assumes "pt_ok (mem s) pt" "umapped (mem s) pt va"
  shows "\<exists>ch. copyin pt (\<lambda>_. 0) va 1 s = Inr ((0, ch), s) \<and> ch 0 = uread (mem s) pt va"
proof -
  have "unat va + unat (1 :: u64) \<le> 2 ^ 38" using assms(2) by (simp add: umapped_def word_less_nat_alt layout_vals)
  then show ?thesis using copyin_mapped[OF assms(1), of va 1 "\<lambda>_. 0"] assms(2) by simp
qed

text \<open>
  How \<open>pipewrite\<close> leaves its loop after \<open>j\<close> of \<open>k\<close> bytes: with all of them, waiting for room, or
  with \<open>-1\<close> because nobody can make room any more.
\<close>

definition write_end :: "nat \<Rightarrow> nat \<Rightarrow> nat \<Rightarrow> bool \<Rightarrow> pipe \<Rightarrow> progress \<Rightarrow> bool" where
  "write_end i j k killed p r \<longleftrightarrow>
     (if j = k then r = Return (int (i + k))
      else pipe_full p \<and> (if \<not> pi_readopen p \<or> killed then r = Return (-1) else r = Block (i + j)))"

lemma pipewrite_loop_ok:
  assumes "pipe_ctx pi p s" "pt_ok (mem s) (upt_of p s)" "pipe_inv (pipes s pi)"
    and "\<forall>j<k. umapped (mem s) (upt_of p s) (addr + of_nat (i + j))"
  shows "\<exists>r s' j. pipewrite_loop pi addr i k s = Inr (r, s') \<and> j \<le> k \<and> mem s' = mem s \<and>
    pipe_inv (pipes s' pi) \<and> write_end i j k (p_killed (procs s ! p)) (pipes s' pi) r \<and>
    pipe_bytes (pipes s' pi) =
      pipe_bytes (pipes s pi) @ map (\<lambda>t. uread (mem s) (upt_of p s) (addr + of_nat (i + t))) [0..<j]"
  using assms
proof (induction k arbitrary: i s)
  case 0
  let ?w = "s\<lparr>procs := map (wake1 (ChPipeRead pi)) (procs s)\<rparr>"
  have "pipewrite_loop pi addr i 0 s = Inr (Return (int i), ?w\<lparr>held := held s - {PipeLk pi}\<rparr>)"
    using "0.prems"(1) wakeup_release(1)[OF "0.prems"(1), of "ChPipeRead pi"] by (simp add: release_def pipe_ctx_def)
  then show ?case using "0.prems"(3) by (auto simp: write_end_def)
next
  case (Suc k)
  have cur: "curproc s = Some p" "PipeLk pi \<in> held s" using Suc.prems(1) by (auto simp: pipe_ctx_def)
  show ?case
  proof (cases "pipe_full (pipes s pi)")
    case True
    show ?thesis
    proof (cases "\<not> pi_readopen (pipes s pi) \<or> p_killed (procs s ! p)")
      case gone: True
      then have "pipewrite_loop pi addr i (Suc k) s = Inr (Return (-1), s\<lparr>held := held s - {PipeLk pi}\<rparr>)"
        using True cur by (simp add: myproc_def release_def)
      then show ?thesis using True gone Suc.prems(3)
        by (intro exI[of _ "Return (-1)"] exI[of _ "s\<lparr>held := held s - {PipeLk pi}\<rparr>"] exI[of _ 0]) (simp add: write_end_def)
    next
      case False
      let ?w = "s\<lparr>procs := map (wake1 (ChPipeRead pi)) (procs s)\<rparr>"
      have "pipewrite_loop pi addr i (Suc k) s = Inr (Block i, ?w)"
        using True False cur wakeup_release(1)[OF Suc.prems(1)] by (simp add: myproc_def)
      then show ?thesis using True False Suc.prems(3)
        by (intro exI[of _ "Block i"] exI[of _ ?w] exI[of _ 0]) (simp add: write_end_def)
    qed
  next
    case False
    have "umapped (mem s) (upt_of p s) (addr + of_nat (i + 0))" using Suc.prems(4) by blast
    then obtain ch where ch: "copyin (upt_of p s) (\<lambda>_. 0) (addr + of_nat i) 1 s = Inr ((0, ch), s)"
      "ch 0 = uread (mem s) (upt_of p s) (addr + of_nat i)" using copyin_1[OF Suc.prems(2)] by auto
    let ?t = "upd_pipe pi (pipe_put (ch 0)) s"
    have t: "mem ?t = mem s" "procs ?t = procs s" "pipes ?t pi = pipe_put (ch 0) (pipes s pi)" by (simp_all add: upd_pipe_def)
    note P = prb.put_ok[OF Suc.prems(3) False, of "ch 0"]
    have step: "pipewrite_loop pi addr i (Suc k) s = pipewrite_loop pi addr (Suc i) k ?t"
      using False cur ch(1) by (simp add: myproc_def)
    have m: "\<forall>j<k. umapped (mem ?t) (upt_of p ?t) (addr + of_nat (Suc i + j))"
    proof (intro allI impI)
      fix j assume "j < k"
      then have "umapped (mem s) (upt_of p s) (addr + of_nat (i + Suc j))" using Suc.prems(4) by blast
      then show "umapped (mem ?t) (upt_of p ?t) (addr + of_nat (Suc i + j))" by (simp only: t add_Suc_right add_Suc)
    qed
    have "pipe_inv (pipes ?t pi)" "pt_ok (mem ?t) (upt_of p ?t)" "pipe_ctx pi p ?t" using P t Suc.prems(1,2) by auto
    from Suc.IH[OF this(3,2,1) m] obtain r s' j where IH: "pipewrite_loop pi addr (Suc i) k ?t = Inr (r, s')" "j \<le> k"
      "mem s' = mem s" "pipe_inv (pipes s' pi)" "write_end (Suc i) j k (p_killed (procs s ! p)) (pipes s' pi) r"
      "pipe_bytes (pipes s' pi) = (pipe_bytes (pipes s pi) @ [ch 0]) @
        map (\<lambda>t. uread (mem s) (upt_of p s) (addr + of_nat (Suc i + t))) [0..<j]" unfolding t using P by auto
    have "[ch 0] @ map (\<lambda>t. uread (mem s) (upt_of p s) (addr + of_nat (Suc i + t))) [0..<j] =
        map (\<lambda>t. uread (mem s) (upt_of p s) (addr + of_nat (i + t))) [0..<Suc j]"
      by (simp add: ch(2) upt_conv_Cons map_Suc_upt[symmetric] ac_simps del: upt_Suc)
    then show ?thesis using IH step
      by (intro exI[of _ r] exI[of _ s'] exI[of _ "Suc j"]) (auto simp: write_end_def split: if_splits)
  qed
qed

section \<open>Reading\<close>

lemma uwritten_pipes:
  assumes "uwritten s pt va src n t"
  shows "uwritten (s\<lparr>pipes := P\<rparr>) pt va src n (t\<lparr>pipes := P\<rparr>)"
proof -
  have t: "t = s\<lparr>mem := mem t\<rparr>" using assms by (simp add: uwritten_def)
  have "t\<lparr>pipes := P\<rparr> = s\<lparr>pipes := P\<rparr>\<lparr>mem := mem t\<rparr>" by (subst t) simp
  then show ?thesis using assms unfolding uwritten_def by simp
qed

lemma piperead_loop_ok:
  assumes "curproc s = Some p" "frames_ok (mem s) (upt_of p s)" "pipe_inv (pipes s pi)"
    and "\<forall>j<k. umapped (mem s) (upt_of p s) (addr + of_nat (i + j))" "unat addr + i + k \<le> 2 ^ 38"
  defines "n \<equiv> min k (length (pipe_bytes (pipes s pi)))"
  shows "\<exists>s'. piperead_loop pi addr i k s = Inr (i + n, s') \<and> curproc s' = curproc s \<and> procs s' = procs s \<and> held s' = held s \<and>
    pipe_inv (pipes s' pi) \<and> pipe_bytes (pipes s' pi) = drop n (pipe_bytes (pipes s pi)) \<and>
    uwritten s (upt_of p s) (addr + of_nat i) (\<lambda>t. pipe_bytes (pipes s pi) ! t) n (s'\<lparr>pipes := pipes s\<rparr>)"
  using assms(1-5) unfolding n_def
proof (induction k arbitrary: i s)
  case 0
  then show ?case using uwritten_none[OF "0.prems"(2)] by (intro exI[of _ s]) simp
next
  case (Suc k)
  show ?case
  proof (cases "pipe_empty (pipes s pi)")
    case True
    then have z: "pipe_bytes (pipes s pi) = []" using prb.nodata_iff[OF Suc.prems(3)] by simp
    have "piperead_loop pi addr i (Suc k) s = Inr (i, s)" using True Suc.prems(1) by (simp add: pipe_empty_def myproc_def)
    then show ?thesis using uwritten_none[OF Suc.prems(2)] Suc.prems(3) by (intro exI[of _ s]) (simp add: z)
  next
    case False
    note G = prb.get_ok[OF Suc.prems(3) False]
    let ?ch = "fst (pipe_get (pipes s pi))" and ?t = "upd_pipe pi (\<lambda>_. snd (pipe_get (pipes s pi))) s"
    have ne: "pi_nread (pipes s pi) \<noteq> pi_nwrite (pipes s pi)" using False by (simp add: pipe_empty_def)
    have t: "mem ?t = mem s" "procs ?t = procs s" "curproc ?t = curproc s" "pipes ?t pi = snd (pipe_get (pipes s pi))"
      by (simp_all add: upd_pipe_def)
    have "umapped (mem s) (upt_of p s) (addr + of_nat (i + 0))" using Suc.prems(4) by blast
    then have u0: "umapped (mem ?t) (upt_of p ?t) (addr + of_nat i)" by (simp add: t)
    obtain u where u: "copyout (upt_of p ?t) (addr + of_nat i) (\<lambda>_. ?ch) 1 ?t = Inr (0, u)"
      "uwritten ?t (upt_of p ?t) (addr + of_nat i) (\<lambda>_. ?ch) 1 u"
      using copyout_1[OF _ u0] Suc.prems(2) by (auto simp: t)
    have uf: "u = ?t\<lparr>mem := mem u\<rparr>" using u(2) by (simp add: uwritten_def)
    have f: "curproc u = curproc s" "procs u = procs s" "held u = held s" "pipes u = pipes ?t"
      by (subst uf, simp add: upd_pipe_def)+
    have step: "piperead_loop pi addr i (Suc k) s = piperead_loop pi addr (Suc i) k u"
      using ne Suc.prems(1) u(1) t(2) by (simp add: myproc_def pipe_get_def Let_def)
    have m: "\<forall>j<k. umapped (mem u) (upt_of p u) (addr + of_nat (Suc i + j))"
    proof (intro allI impI)
      fix j assume "j < k"
      then have "umapped (mem s) (upt_of p s) (addr + of_nat (i + Suc j))" using Suc.prems(4) by blast
      then show "umapped (mem u) (upt_of p u) (addr + of_nat (Suc i + j))"
        using umapped_written[OF u(2)] by (simp only: f t add_Suc_right add_Suc)
    qed
    have c: "curproc u = Some p" "frames_ok (mem u) (upt_of p u)" "pipe_inv (pipes u pi)" "unat addr + Suc i + k \<le> 2 ^ 38"
      using Suc.prems(1,5) u(2) G f t by (auto simp: uwritten_def)
    let ?b = "pipe_bytes (snd (pipe_get (pipes s pi)))" and ?n = "min k (length (pipe_bytes (snd (pipe_get (pipes s pi)))))"
    from Suc.IH[OF c(1-3) m c(4)] obtain s' where IH: "piperead_loop pi addr (Suc i) k u = Inr (Suc i + ?n, s')"
      "curproc s' = curproc s" "procs s' = procs s" "held s' = held s" "pipe_inv (pipes s' pi)"
      "pipe_bytes (pipes s' pi) = drop ?n ?b"
      "uwritten u (upt_of p s) (addr + of_nat (Suc i)) (\<lambda>t. ?b ! t) ?n (s'\<lparr>pipes := pipes u\<rparr>)"
      unfolding f t by auto
    have b: "pipe_bytes (pipes s pi) = ?ch # ?b" using G by simp
    have "uwritten s (upt_of p s) (addr + of_nat i) (\<lambda>t. (?ch # ?b) ! t) (1 + ?n) (s'\<lparr>pipes := pipes s\<rparr>)"
    proof (rule uwritten_trans)
      show "uwritten s (upt_of p s) (addr + of_nat i) (\<lambda>t. (?ch # ?b) ! t) 1 (u\<lparr>pipes := pipes s\<rparr>)"
      proof (rule uwritten_cong)
        show "uwritten s (upt_of p s) (addr + of_nat i) (\<lambda>_. ?ch) 1 (u\<lparr>pipes := pipes s\<rparr>)"
          using uwritten_pipes[OF u(2), of "pipes s"] by (simp add: upd_pipe_def)
      qed simp
      show "uwritten (u\<lparr>pipes := pipes s\<rparr>) (upt_of p s) (addr + of_nat (Suc i)) (\<lambda>t. (?ch # ?b) ! (1 + t)) ?n (s'\<lparr>pipes := pipes s\<rparr>)"
        using uwritten_pipes[OF IH(7), of "pipes s"] by simp
      show "unat (addr + of_nat (Suc i)) = unat (addr + of_nat i) + 1"
      proof -
        have l: "unat addr + Suc i \<le> 274877906944" using Suc.prems(5) by simp
        have "unat (addr + of_nat j) = unat addr + j" if "j \<le> Suc i" for j
          using l that by (simp add: unat_word_ariths unat_of_nat)
        from this[of i] this[of "Suc i"] show ?thesis by simp
      qed
    qed
    then show ?thesis using IH(1-6) step unfolding b by (intro exI[of _ s']) auto
  qed
qed

section \<open>The system-call halves\<close>

text \<open>With room for all of them, \<open>pipewrite\<close> moves \<open>n\<close> bytes into the pipe and returns \<open>n\<close>.\<close>

lemma pipewrite_ok:
  assumes c: "curproc s = Some p" "no_proc_lock s" "procs_ok s" "PipeLk pi \<notin> held s" and pt: "pt_ok (mem s) (upt_of p s)"
    and i: "pipe_inv (pipes s pi)" and m: "\<forall>j<n. umapped (mem s) (upt_of p s) (addr + of_nat j)"
    and room: "length (pipe_bytes (pipes s pi)) + n \<le> PIPESIZE"
  shows "\<exists>s'. pipewrite pi addr (int n) s = Inr (int n, s') \<and> mem s' = mem s \<and> pipe_inv (pipes s' pi) \<and>
    pipe_bytes (pipes s' pi) = pipe_bytes (pipes s pi) @ map (\<lambda>t. uread (mem s) (upt_of p s) (addr + of_nat t)) [0..<n]"
proof -
  let ?a = "s\<lparr>held := insert (PipeLk pi) (held s)\<rparr>"
  have a: "pipe_ctx pi p ?a" using c by (auto simp: pipe_ctx_def no_proc_lock_def procs_ok_def)
  have u: "\<forall>j<n. umapped (mem ?a) (upt_of p ?a) (addr + of_nat (0 + j))" using m by simp
  have pt': "pt_ok (mem ?a) (upt_of p ?a)" and i': "pipe_inv (pipes ?a pi)" using pt i by simp_all
  obtain r s' j where L: "pipewrite_loop pi addr 0 n ?a = Inr (r, s')" "j \<le> n" "mem s' = mem s" "pipe_inv (pipes s' pi)"
    "write_end 0 j n (p_killed (procs s ! p)) (pipes s' pi) r"
    "pipe_bytes (pipes s' pi) = pipe_bytes (pipes s pi) @ map (\<lambda>t. uread (mem s) (upt_of p s) (addr + of_nat t)) [0..<j]"
    using pipewrite_loop_ok[OF a pt' i' u] by auto
  have "j = n"
  proof (rule ccontr)
    assume "j \<noteq> n"
    then have "pipe_full (pipes s' pi)" using L(5) by (simp add: write_end_def)
    then have "length (pipe_bytes (pipes s' pi)) = PIPESIZE" using prb.full_iff[OF L(4)] by simp
    then show False using L(2,6) room \<open>j \<noteq> n\<close> by simp
  qed
  then have "pipewrite pi addr (int n) s = Inr (int n, s')"
    using L(1,5) c(4) by (simp add: pipewrite_def pipewrite_run_def write_end_def)
  then show ?thesis using L(3,4,6) \<open>j = n\<close> by (intro exI[of _ s']) simp
qed

text \<open>From a pipe that holds bytes, \<open>piperead\<close> takes the oldest ones, at most \<open>n\<close>, to the reader's memory.\<close>

lemma piperead_ok:
  assumes c: "curproc s = Some p" "no_proc_lock s" "procs_ok s" "PipeLk pi \<notin> held s" and pt: "frames_ok (mem s) (upt_of p s)"
    and i: "pipe_inv (pipes s pi)" "pipe_bytes (pipes s pi) \<noteq> []"
    and m: "\<forall>j<n. umapped (mem s) (upt_of p s) (addr + of_nat j)" "unat addr + n \<le> 2 ^ 38"
  defines "k \<equiv> min n (length (pipe_bytes (pipes s pi)))"
  shows "\<exists>s'. piperead pi addr (int n) s = Inr (int k, s') \<and> pipe_inv (pipes s' pi) \<and>
    pipe_bytes (pipes s' pi) = drop k (pipe_bytes (pipes s pi)) \<and>
    (\<forall>j<k. uread (mem s') (upt_of p s) (addr + of_nat j) = pipe_bytes (pipes s pi) ! j)"
proof -
  let ?a = "s\<lparr>held := insert (PipeLk pi) (held s)\<rparr>" and ?pt = "upt_of p s"
  have ne: "pi_nread (pipes s pi) \<noteq> pi_nwrite (pipes s pi)" using i(2) by (auto simp: pipe_bytes_def ring_bytes_Nil)
  have a: "curproc ?a = Some p" "frames_ok (mem ?a) (upt_of p ?a)" "pipe_inv (pipes ?a pi)" using c pt i by simp_all
  have u: "\<forall>j<n. umapped (mem ?a) (upt_of p ?a) (addr + of_nat (0 + j))" "unat addr + 0 + n \<le> 2 ^ 38" using m by simp_all
  obtain t where L: "piperead_loop pi addr 0 n ?a = Inr (k, t)" "curproc t = curproc s" "procs t = procs s"
    "held t = insert (PipeLk pi) (held s)" "pipe_inv (pipes t pi)" "pipe_bytes (pipes t pi) = drop k (pipe_bytes (pipes s pi))"
    "uwritten ?a ?pt addr (\<lambda>t. pipe_bytes (pipes s pi) ! t) k (t\<lparr>pipes := pipes s\<rparr>)"
    using piperead_loop_ok[OF a u] unfolding k_def by auto
  have "pipe_ctx pi p t" using c L(2,3,4) by (auto simp: pipe_ctx_def no_proc_lock_def procs_ok_def)
  note w = wakeup_release[OF this, of "ChPipeWrite pi"]
  let ?s = "t\<lparr>procs := map (wake1 (ChPipeWrite pi)) (procs t), held := held t - {PipeLk pi}\<rparr>"
  have "piperead pi addr (int n) s = Inr (int k, ?s)"
    using c(1,4) ne L(1,4) w(1) by (simp add: piperead_def piperead_run_def myproc_def release_def)
  moreover have "uread (mem t) ?pt (addr + of_nat j) = pipe_bytes (pipes s pi) ! j" if j: "j < k" for j
  proof -
    have jn: "j < n" using j by (simp add: k_def)
    then have v: "addr + of_nat j < MAXVA" "vmap (mem s) ?pt (addr + of_nat j) AND PTE_V \<noteq> 0" using m(1) by (auto simp: umapped_def)
    have "unat addr + j < 18446744073709551616" using m(2) jn by simp
    then have e: "unat (addr + of_nat j) = unat addr + j" by (simp add: unat_word_ariths unat_of_nat)
    show ?thesis using L(7) v j e unfolding uwritten_def by simp
  qed
  ultimately show ?thesis using L(5,6) by (intro exI[of _ ?s]) simp
qed

end
