(* ===== verification/Term_Fifo.thy ===== *)
theory Term_Fifo
  imports Console Vm_User Ring
begin

text \<open>
  The terminal: the UART's 32-byte output ring sends the bytes of \<open>uartputc\<close> in order, and the
  console's input ring hands lines from the interrupt handler to readers.
\<close>

section \<open>The output ring\<close>

definition tx_inv :: "uart \<Rightarrow> bool" where
  "tx_inv u \<longleftrightarrow> u_tx_r u < UART_TX_BUF_SIZE \<and> u_tx_w u < UART_TX_BUF_SIZE"

definition tx_bytes :: "uart \<Rightarrow> u8 list" where
  "tx_bytes u = map (\<lambda>i. u_tx_buf u ((u_tx_r u + i) mod UART_TX_BUF_SIZE))
     [0..<(u_tx_w u + UART_TX_BUF_SIZE - u_tx_r u) mod UART_TX_BUF_SIZE]"

definition tx_put :: "u8 \<Rightarrow> uart \<Rightarrow> uart" where
  "tx_put c u = u\<lparr>u_tx_buf := (u_tx_buf u)(u_tx_w u := c), u_tx_w := (u_tx_w u + 1) mod UART_TX_BUF_SIZE\<rparr>"

definition tx_get :: "uart \<Rightarrow> u8 \<times> uart" where
  "tx_get u = (u_tx_buf u (u_tx_r u), u\<lparr>u_tx_r := (u_tx_r u + 1) mod UART_TX_BUF_SIZE\<rparr>)"

definition tx_full :: "uart \<Rightarrow> bool" where
  "tx_full u \<longleftrightarrow> (u_tx_w u + 1) mod UART_TX_BUF_SIZE = u_tx_r u"

definition tx_empty :: "uart \<Rightarrow> bool" where
  "tx_empty u \<longleftrightarrow> u_tx_w u = u_tx_r u"

text \<open>The number of bytes in a ring with indices \<open>r\<close> and \<open>w\<close> below \<open>n\<close>.\<close>

lemma ring_count:
  fixes r w n :: nat
  assumes "r < n" "w < n"
  shows "(w + n - r) mod n = (if r \<le> w then w - r else w + n - r)"
proof (cases "r \<le> w")
  case True
  then have e: "w + n - r = (w - r) + n" by simp
  show ?thesis unfolding e mod_add_self2 using True assms by simp
qed (use assms in simp)

lemma ring_count_steps:
  fixes r w n :: nat
  assumes "r < n" "w < n"
  defines "k \<equiv> (w + n - r) mod n"
  shows "(w + 1) mod n = r \<longleftrightarrow> k = n - 1" "w = r \<longleftrightarrow> k = 0"
    "(w + 1) mod n \<noteq> r \<Longrightarrow> ((w + 1) mod n + n - r) mod n = Suc k"
    "w \<noteq> r \<Longrightarrow> (w + n - (r + 1) mod n) mod n = k - 1" "(r + k) mod n = w" "k < n"
proof -
  have m: "(x + 1) mod n = (if Suc x = n then 0 else Suc x)" if "x < n" for x using that by auto
  have k: "k = (if r \<le> w then w - r else w + n - r)" unfolding k_def by (rule ring_count[OF assms(1,2)])
  show "(w + 1) mod n = r \<longleftrightarrow> k = n - 1" "w = r \<longleftrightarrow> k = 0" using assms(1,2) unfolding m[OF assms(2)] k by auto
  have w1: "(w + 1) mod n < n" and r1: "(r + 1) mod n < n" using assms by simp_all
  show "((w + 1) mod n + n - r) mod n = Suc k" if "(w + 1) mod n \<noteq> r"
    unfolding ring_count[OF assms(1) w1] using that assms(1,2) unfolding m[OF assms(2)] k by auto
  show "(w + n - (r + 1) mod n) mod n = k - 1" if "w \<noteq> r"
    unfolding ring_count[OF r1 assms(2)] using that assms(1,2) unfolding m[OF assms(1)] k by auto
  show "(r + k) mod n = w" using assms(1,2) unfolding k by auto
  show "k < n" unfolding k_def using assms by simp
qed

interpretation txb: ring_buffer tx_inv tx_bytes "UART_TX_BUF_SIZE - 1" tx_put tx_get tx_full tx_empty
proof
  fix u :: uart and c :: u8
  assume i: "tx_inv u"
  let ?n = UART_TX_BUF_SIZE and ?r = "u_tx_r u" and ?w = "u_tx_w u"
  let ?k = "(u_tx_w u + UART_TX_BUF_SIZE - u_tx_r u) mod UART_TX_BUF_SIZE"
  have b: "?r < ?n" "?w < ?n" using i by (auto simp: tx_inv_def)
  note S = ring_count_steps[OF b]
  have len: "length (tx_bytes u) = ?k" by (simp add: tx_bytes_def)
  show f: "tx_full u \<longleftrightarrow> length (tx_bytes u) = ?n - 1" unfolding len tx_full_def by (rule S(1))
  show e: "tx_empty u \<longleftrightarrow> tx_bytes u = []" using S(2) by (simp add: tx_empty_def tx_bytes_def)
  show "length (tx_bytes u) \<le> ?n - 1" using S(6) unfolding len by linarith
  have n0: "0 < ?n" using b by simp
  show "tx_inv (tx_put c u) \<and> tx_bytes (tx_put c u) = tx_bytes u @ [c]" if "\<not> tx_full u"
  proof -
    have k: "((?w + 1) mod ?n + ?n - ?r) mod ?n = Suc ?k" using S(3) that by (simp add: tx_full_def)
    have "(?r + i) mod ?n \<noteq> ?w" if "i < ?k" for i
    proof
      assume "(?r + i) mod ?n = ?w"
      then have "(?r + i) mod ?n = (?r + ?k) mod ?n" using S(5) by simp
      then show False using ring_index_inj[of i ?n ?k ?r] that S(6) by simp
    qed
    then have "map (\<lambda>i. ((u_tx_buf u)(?w := c)) ((?r + i) mod ?n)) [0..<?k] = tx_bytes u"
      unfolding tx_bytes_def by (intro map_cong) auto
    then have "tx_bytes (tx_put c u) = tx_bytes u @ [c]"
      using S(5) unfolding tx_bytes_def[of "tx_put c u"] by (simp add: tx_put_def k[simplified])
    then show ?thesis using b n0 by (simp add: tx_inv_def tx_put_def)
  qed
  show "tx_inv (snd (tx_get u)) \<and> tx_bytes u = fst (tx_get u) # tx_bytes (snd (tx_get u))" if "\<not> tx_empty u"
  proof -
    have "?k \<noteq> 0" using S(2) that by (simp add: tx_empty_def)
    then obtain j where j: "?k = Suc j" using not0_implies_Suc by blast
    have k: "(?w + ?n - (?r + 1) mod ?n) mod ?n = j" using S(4) that j by (simp add: tx_empty_def)
    have "((?r + 1) mod ?n + i) mod ?n = (?r + Suc i) mod ?n" for i by (simp add: mod_simps)
    then have "tx_bytes (snd (tx_get u)) = map (\<lambda>i. u_tx_buf u ((?r + Suc i) mod ?n)) [0..<j]"
      unfolding tx_bytes_def by (simp add: tx_get_def k[simplified])
    moreover have "tx_bytes u = u_tx_buf u (?r mod ?n) # map (\<lambda>i. u_tx_buf u ((?r + Suc i) mod ?n)) [0..<j]"
      unfolding tx_bytes_def j by (simp add: upt_conv_Cons map_Suc_upt[symmetric] del: upt_Suc)
    ultimately show ?thesis using b n0 by (simp add: tx_inv_def tx_get_def)
  qed
qed

section \<open>Sending\<close>

text \<open>The bytes given to the driver so far: on the wire, then in the ring.\<close>

definition accepted :: "kernel \<Rightarrow> u8 list" where
  "accepted s = u_out (kuart s) @ tx_bytes (kuart s)"

lemma tx_WriteTHR [simp]: "tx_inv (WriteTHR c u) = tx_inv u" "tx_bytes (WriteTHR c u) = tx_bytes u"
  "u_out (WriteTHR c u) = u_out u @ [c]" "u_room (WriteTHR c u) = u_room u - 1"
  by (simp_all add: WriteTHR_def tx_inv_def tx_bytes_def)

lemma uartstart_loop_ok:
  assumes "tx_inv (kuart s)" "no_proc_lock s" "procs_ok s"
  shows "\<exists>s'. uartstart_loop k s = Inr s' \<and> s' = s\<lparr>kuart := kuart s', procs := procs s'\<rparr> \<and> tx_inv (kuart s') \<and>
    woken (procs s) (procs s') \<and> u_out (kuart s') = u_out (kuart s) @ take k (tx_bytes (kuart s)) \<and>
    tx_bytes (kuart s') = drop k (tx_bytes (kuart s))"
  using assms
proof (induction k arbitrary: s)
  case 0
  then show ?case by (intro exI[of _ s]) simp
next
  case (Suc k)
  show ?case
  proof (cases "tx_empty (kuart s)")
    case True
    then have "tx_bytes (kuart s) = []" using txb.nodata_iff[OF Suc.prems(1)] by simp
    then show ?thesis using True Suc.prems by (intro exI[of _ s]) (simp add: tx_empty_def)
  next
    case False
    note G = txb.get_ok[OF Suc.prems(1) False]
    let ?c = "fst (tx_get (kuart s))" and ?u = "snd (tx_get (kuart s))"
    let ?t = "s\<lparr>procs := map (wake1 ChUart) (procs s), kuart := WriteTHR ?c ?u\<rparr>"
    let ?p = "upd_uart (\<lambda>u. u\<lparr>u_tx_r := (u_tx_r u + 1) mod UART_TX_BUF_SIZE\<rparr>) s"
    have "wakeup ChUart ?p = Inr (?p\<lparr>procs := map (wake1 ChUart) (procs ?p)\<rparr>)"
      using Suc.prems(2,3) by (intro wakeup_eq) (auto simp: upd_uart_def no_proc_lock_def procs_ok_def)
    then have step: "uartstart_loop (Suc k) s = uartstart_loop k ?t"
      using False by (simp add: tx_empty_def Let_def upd_uart_def tx_get_def)
    have "tx_inv (kuart ?t)" "no_proc_lock ?t" "procs_ok ?t" using G Suc.prems(2,3) by (auto simp: no_proc_lock_def procs_ok_def)
    from Suc.IH[OF this] obtain s' where IH: "uartstart_loop k ?t = Inr s'" "s' = ?t\<lparr>kuart := kuart s', procs := procs s'\<rparr>"
      "tx_inv (kuart s')" "woken (procs ?t) (procs s')" "u_out (kuart s') = u_out (kuart ?t) @ take k (tx_bytes (kuart ?t))"
      "tx_bytes (kuart s') = drop k (tx_bytes (kuart ?t))" by blast
    have "u_out ?u = u_out (kuart s)" by (simp add: tx_get_def)
    then have o: "u_out (kuart s') = u_out (kuart s) @ take (Suc k) (tx_bytes (kuart s))"
      "tx_bytes (kuart s') = drop (Suc k) (tx_bytes (kuart s))" using IH(5,6) G by simp_all
    have w: "woken (procs s) (procs s')" using IH(4) woken_trans[OF woken_map_wake1] by simp
    have "s' = s\<lparr>kuart := kuart s', procs := procs s'\<rparr>" by (subst IH(2)) simp
    then show ?thesis using step IH(1,3) o w by (intro exI[of _ s']) simp
  qed
qed

lemma uartputc_ok:
  assumes i: "tx_inv (kuart s)" and c: "no_proc_lock s" "procs_ok s" "UartLk \<notin> held s" and p: "\<not> panicked s"
    and f: "\<not> tx_full (kuart s)"
  shows "\<exists>s'. uartputc c s = Inr s' \<and> s' = s\<lparr>kuart := kuart s', procs := procs s'\<rparr> \<and> tx_inv (kuart s') \<and>
    woken (procs s) (procs s') \<and> accepted s' = accepted s @ [c] \<and> (\<exists>zs. u_out (kuart s') = u_out (kuart s) @ zs)"
proof -
  let ?a = "s\<lparr>held := insert UartLk (held s)\<rparr>"
  let ?t = "?a\<lparr>kuart := tx_put c (kuart s)\<rparr>"
  note P = txb.put_ok[OF i f, of c]
  have "tx_inv (kuart ?t)" "no_proc_lock ?t" "procs_ok ?t" using P c by (auto simp: no_proc_lock_def procs_ok_def)
  from uartstart_loop_ok[OF this, of "u_room (kuart ?t)"] obtain s1 where s1: "uartstart ?t = Inr s1"
    "s1 = ?t\<lparr>kuart := kuart s1, procs := procs s1\<rparr>" "tx_inv (kuart s1)" "woken (procs ?t) (procs s1)"
    "u_out (kuart s1) = u_out (kuart ?t) @ take (u_room (kuart ?t)) (tx_bytes (kuart ?t))"
    "tx_bytes (kuart s1) = drop (u_room (kuart ?t)) (tx_bytes (kuart ?t))" unfolding uartstart_def by blast
  let ?s' = "s1\<lparr>held := held s\<rparr>"
  have h: "held s1 = insert UartLk (held s)" by (subst s1(2)) simp
  have "uartputc c s = bindE (uartstart ?t) (release UartLk)"
    using c(3) p f by (simp add: uartputc_def Let_def upd_uart_def tx_full_def tx_put_def)
  then have u: "uartputc c s = Inr ?s'" using c(3) by (simp add: s1(1) release_def h)
  have "accepted ?s' = u_out (kuart ?t) @ tx_bytes (kuart ?t)" by (simp add: accepted_def s1(5,6))
  then have "accepted ?s' = accepted s @ [c]" using P by (simp add: accepted_def) (simp add: tx_put_def)
  moreover have "?s' = s\<lparr>kuart := kuart ?s', procs := procs ?s'\<rparr>" by (subst s1(2)) simp
  moreover have "\<exists>zs. u_out (kuart ?s') = u_out (kuart s) @ zs" by (simp add: s1(5) tx_put_def)
  ultimately show ?thesis using u s1(3,4) by (intro exI[of _ ?s']) simp
qed

section \<open>The line discipline\<close>

text \<open>
  What the console is meant to do: complete lines wait for readers, and the line being typed can
  be edited until it is complete.
\<close>

definition cons_ready :: "cons \<Rightarrow> u8 list" where
  "cons_ready x = ring_bytes INPUT_BUF (c_buf x) (c_r x) (c_w x)"

definition cons_typed :: "cons \<Rightarrow> u8 list" where
  "cons_typed x = ring_bytes INPUT_BUF (c_buf x) (c_r x) (c_e x)"

definition cons_line :: "cons \<Rightarrow> u8 list" where
  "cons_line x = drop (length (cons_ready x)) (cons_typed x)"

definition cons_inv :: "cons \<Rightarrow> bool" where
  "cons_inv x \<longleftrightarrow> unat (c_w x - c_r x) \<le> unat (c_e x - c_r x) \<and> unat (c_e x - c_r x) \<le> INPUT_BUF \<and> 10 \<notin> set (cons_line x)"

definition line_put :: "u8 \<Rightarrow> u8 list \<times> u8 list \<Rightarrow> u8 list \<times> u8 list" where
  "line_put c v = (case v of (ready, line) \<Rightarrow>
     if c = 10 \<or> c = 4 \<or> length ready + length line + 1 = INPUT_BUF then (ready @ line @ [c], []) else (ready, line @ [c]))"

definition line_step :: "u8 \<Rightarrow> u8 list \<times> u8 list \<Rightarrow> u8 list \<times> u8 list" where
  "line_step c v = (case v of (ready, line) \<Rightarrow>
     if c = 16 then v
     else if c = 21 then (ready, [])
     else if c = 8 \<or> c = 127 then (ready, butlast line)
     else if c \<noteq> 0 \<and> length ready + length line < INPUT_BUF then line_put (if c = 13 then 10 else c) v
     else v)"

lemma INPUT_BUF_dvd: "INPUT_BUF dvd 2 ^ 32" "0 < INPUT_BUF" "INPUT_BUF < 2 ^ 32"
proof -
  show "INPUT_BUF dvd 2 ^ 32" by (rule dvdI[of _ _ "2 ^ 25"]) (simp add: INPUT_BUF_def)
qed (simp_all add: INPUT_BUF_def)

lemma take_ring_bytes: "unat (w - r) \<le> unat (e - r) \<Longrightarrow> take (unat (w - r)) (ring_bytes n buf r e) = ring_bytes n buf r w"
  by (simp add: ring_bytes_def take_map)

lemma cons_ready_line: "cons_inv x \<Longrightarrow> cons_typed x = cons_ready x @ cons_line x"
proof -
  assume "cons_inv x"
  then have "take (length (cons_ready x)) (cons_typed x) = cons_ready x"
    by (simp add: cons_inv_def cons_ready_def cons_typed_def take_ring_bytes)
  then show ?thesis unfolding cons_line_def by (metis append_take_drop_id)
qed

lemma cons_lengths:
  assumes "cons_inv x"
  shows "length (cons_ready x) + length (cons_line x) = unat (c_e x - c_r x)" "c_e x = c_w x \<longleftrightarrow> cons_line x = []"
    "unat (c_e x - c_w x) = length (cons_line x)"
proof -
  have "length (cons_ready x @ cons_line x) = unat (c_e x - c_r x)"
    unfolding cons_ready_line[OF assms, symmetric] by (simp add: cons_typed_def)
  then show l: "length (cons_ready x) + length (cons_line x) = unat (c_e x - c_r x)" by simp
  have le: "c_w x - c_r x \<le> c_e x - c_r x" using assms by (simp add: cons_inv_def word_le_nat_alt)
  have "unat ((c_e x - c_r x) - (c_w x - c_r x)) = unat (c_e x - c_r x) - unat (c_w x - c_r x)"
    using le by (subst unat_sub) simp_all
  moreover have "(c_e x - c_r x) - (c_w x - c_r x) = c_e x - c_w x" by simp
  ultimately show k: "unat (c_e x - c_w x) = length (cons_line x)"
    using l by (simp add: cons_ready_def)
  show "c_e x = c_w x \<longleftrightarrow> cons_line x = []" using k by (metis diff_self eq_iff_diff_eq_0 length_0_conv unat_eq_0)
qed

lemma cons_store_ok:
  fixes c :: u8
  assumes i: "cons_inv x" and f: "unat (c_e x - c_r x) < INPUT_BUF"
  defines "x' \<equiv> fst (cons_store c x)"
  shows "cons_inv x' \<and> (cons_ready x', cons_line x') = line_put c (cons_ready x, cons_line x)"
proof -
  let ?x = "x\<lparr>c_buf := (c_buf x)(cbuf_at (c_e x) := c), c_e := c_e x + 1\<rparr>"
  let ?full = "c = 10 \<or> c = 4 \<or> c_e x + 1 = c_r x + of_nat INPUT_BUF"
  have x': "x' = (if ?full then ?x\<lparr>c_w := c_e x + 1\<rparr> else ?x)" by (simp add: x'_def cons_store_def Let_def)
  have k: "unat (c_e x + 1 - c_r x) = Suc (unat (c_e x - c_r x))" by (rule ring_step_bounds[OF f INPUT_BUF_dvd(3)])
  have t: "cons_typed x' = cons_typed x @ [c]"
    using ring_bytes_put[OF INPUT_BUF_dvd f, of "c_buf x" c] by (simp add: x' cons_typed_def cbuf_at_def)
  have full: "?full \<longleftrightarrow> c = 10 \<or> c = 4 \<or> length (cons_ready x) + length (cons_line x) + 1 = INPUT_BUF"
    using ring_full_iff[of "c_e x + 1" "c_r x" INPUT_BUF] f INPUT_BUF_dvd(3) by (simp add: k cons_lengths[OF i])
  show ?thesis
  proof (cases ?full)
    case True
    then have "cons_ready x' = cons_typed x'" by (simp add: x' cons_ready_def cons_typed_def)
    moreover from this have l: "cons_line x' = []" by (simp add: cons_line_def)
    moreover have "cons_inv x'" using True f l by (simp add: cons_inv_def x' k)
    ultimately show ?thesis using True full by (simp add: line_put_def t cons_ready_line[OF i])
  next
    case False
    then have w: "c_w x' = c_w x" "c_r x' = c_r x" "c_e x' = c_e x + 1" by (simp_all add: x')
    have le: "unat (c_w x' - c_r x') \<le> unat (c_e x' - c_r x')" using i by (simp add: w k cons_inv_def)
    have "cons_ready x' = take (unat (c_w x' - c_r x')) (cons_typed x')"
      unfolding cons_ready_def cons_typed_def take_ring_bytes[OF le] ..
    also have "\<dots> = take (unat (c_w x - c_r x)) (cons_ready x @ cons_line x @ [c])" by (simp add: w t cons_ready_line[OF i])
    also have "\<dots> = cons_ready x" by (simp add: cons_ready_def)
    finally have r: "cons_ready x' = cons_ready x" .
    then have l: "cons_line x' = cons_line x @ [c]" by (simp add: cons_line_def[of x'] t cons_ready_line[OF i])
    have "cons_inv x'" using i f False le l by (simp add: cons_inv_def w k)
    then show ?thesis using False full r l by (simp add: line_put_def)
  qed
qed

lemma cons_erase_ok:
  assumes i: "cons_inv x" and ne: "c_e x \<noteq> c_w x"
  defines "x' \<equiv> x\<lparr>c_e := c_e x - 1\<rparr>"
  shows "cons_inv x' \<and> cons_ready x' = cons_ready x \<and> cons_line x' = butlast (cons_line x) \<and>
    c_buf x (cbuf_at (c_e x - 1)) = last (cons_line x)"
proof -
  have l: "cons_line x \<noteq> []" using cons_lengths[OF i] ne by simp
  obtain k where k: "unat (c_e x - c_r x) = Suc k" using cons_lengths(1)[OF i] l by (cases "unat (c_e x - c_r x)") auto
  have e1: "c_e x - 1 - c_r x = (c_e x - c_r x) - 1" by simp
  have k': "unat (c_e x - 1 - c_r x) = k"
  proof -
    have "unat (y - 1) = unat y - 1" if "0 < unat y" for y :: u32 using that by (subst unat_sub_if') simp
    from this[of "c_e x - c_r x"] k have "unat ((c_e x - c_r x) - 1) = unat (c_e x - c_r x) - 1" by linarith
    then show ?thesis unfolding e1 using k by simp
  qed
  have kk: "of_nat k = c_e x - 1 - c_r x" unfolding k'[symmetric] by simp
  have t: "cons_typed x = cons_typed x' @ [c_buf x (cbuf_at (c_e x - 1))]"
    unfolding cons_typed_def ring_bytes_def x'_def k by (simp add: k' kk cbuf_at_def)
  have r: "cons_ready x' = cons_ready x" by (simp add: cons_ready_def x'_def)
  have "length (cons_ready x) \<le> k" using cons_lengths(1)[OF i] l k by (cases "cons_line x") auto
  then have le: "unat (c_w x' - c_r x') \<le> unat (c_e x' - c_r x')" by (simp add: x'_def cons_ready_def k')
  then have lk: "length (cons_ready x) \<le> length (cons_typed x')" by (simp add: cons_ready_def cons_typed_def x'_def)
  have "cons_line x = cons_line x' @ [c_buf x (cbuf_at (c_e x - 1))]"
    unfolding cons_line_def r t using lk by simp
  then have b: "cons_line x' = butlast (cons_line x)" "c_buf x (cbuf_at (c_e x - 1)) = last (cons_line x)" by simp_all
  then have "10 \<notin> set (cons_line x')" using i in_set_butlastD by (fastforce simp: cons_inv_def)
  then have "cons_inv x'" using le i k unfolding cons_inv_def by (simp add: x'_def k')
  then show ?thesis using r b by simp
qed

section \<open>The interrupt handler\<close>

abbreviation cons_view :: "kernel \<Rightarrow> u8 list \<times> u8 list" where
  "cons_view s \<equiv> (cons_ready (kcons s), cons_line (kcons s))"

text \<open>Echoing needs an idle transmitter; three bytes are the most one character takes.\<close>

lemma consputc_ok:
  assumes "\<not> panicked s" "3 \<le> u_room (kuart s)"
  shows "\<exists>u. consputc c s = Inr (s\<lparr>kuart := u\<rparr>) \<and> u_room (kuart s) \<le> u_room u + 3"
  using assms by (cases c) (auto simp: consputc_def uartputc_sync_def LSR_TX_IDLE_def upd_uart_def WriteTHR_def)

lemma cons_kill_line_ok:
  assumes "cons_inv (kcons s)" "\<not> panicked s" "3 * k \<le> u_room (kuart s)" "k = length (cons_line (kcons s))"
  shows "\<exists>u x. cons_kill_line k s = Inr (s\<lparr>kuart := u, kcons := x\<rparr>) \<and> cons_inv x \<and>
    (cons_ready x, cons_line x) = (cons_ready (kcons s), [])"
  using assms
proof (induction k arbitrary: s)
  case 0
  then show ?case by (intro exI[of _ "kuart s"] exI[of _ "kcons s"]) simp
next
  case (Suc k)
  let ?x = "(kcons s)\<lparr>c_e := c_e (kcons s) - 1\<rparr>"
  have ne: "cons_line (kcons s) \<noteq> []" using Suc.prems(4) by auto
  then have "c_e (kcons s) \<noteq> c_w (kcons s)" using cons_lengths(2)[OF Suc.prems(1)] by simp
  note E = cons_erase_ok[OF Suc.prems(1) this]
  have "last (cons_line (kcons s)) \<in> set (cons_line (kcons s))" using ne by simp
  then have c: "c_buf (kcons s) (cbuf_at (c_e (kcons s) - 1)) \<noteq> 10"
    using E Suc.prems(1) by (auto simp: cons_inv_def)
  obtain u where u: "consputc None (s\<lparr>kcons := ?x\<rparr>) = Inr (s\<lparr>kcons := ?x, kuart := u\<rparr>)" "u_room (kuart s) \<le> u_room u + 3"
    using consputc_ok[of "s\<lparr>kcons := ?x\<rparr>" None] Suc.prems(2,3) by auto
  let ?t = "s\<lparr>kcons := ?x, kuart := u\<rparr>"
  have step: "cons_kill_line (Suc k) s = cons_kill_line k ?t" using c u(1) by (simp add: upd_cons_def)
  have "cons_inv (kcons ?t)" "\<not> panicked ?t" "3 * k \<le> u_room (kuart ?t)" "k = length (cons_line (kcons ?t))"
    using E Suc.prems(2,3,4) u(2) by simp_all
  from Suc.IH[OF this] obtain u' x' where IH: "cons_kill_line k ?t = Inr (?t\<lparr>kuart := u', kcons := x'\<rparr>)" "cons_inv x'"
    "(cons_ready x', cons_line x') = (cons_ready (kcons ?t), [])" by blast
  then show ?case using step E by (intro exI[of _ u'] exI[of _ x']) simp
qed

definition intr_ctx :: "kernel \<Rightarrow> bool" where
  "intr_ctx s \<longleftrightarrow> ConsLk \<notin> held s \<and> \<not> panicked s \<and> no_proc_lock s \<and> procs_ok s \<and> 3 * INPUT_BUF \<le> u_room (kuart s)"

lemma consoleintr_ok:
  assumes i: "cons_inv (kcons s)" and x: "intr_ctx s" and c: "c \<noteq> 16"
  shows "\<exists>s'. consoleintr c s = Inr s' \<and> held s' = held s \<and> cons_inv (kcons s') \<and> cons_view s' = line_step c (cons_view s)"
proof -
  let ?a = "s\<lparr>held := insert ConsLk (held s)\<rparr>"
  have ctx: "ConsLk \<notin> held s" "\<not> panicked s" "3 * INPUT_BUF \<le> u_room (kuart s)" using x by (auto simp: intr_ctx_def)
  have h: "insert ConsLk (held s) - {ConsLk} = held s" using ctx by simp
  note L = cons_lengths[OF i]
  have r3: "3 \<le> u_room (kuart s)" using ctx(3) by (simp add: INPUT_BUF_def)
  consider (kill) "c = 21" | (erase) "c = 8 \<or> c = 127" "c_e (kcons s) \<noteq> c_w (kcons s)"
    | (start) "c = 8 \<or> c = 127" "c_e (kcons s) = c_w (kcons s)"
    | (store) "c \<notin> {8, 21, 127}" "c \<noteq> 0" "unat (c_e (kcons s) - c_r (kcons s)) < INPUT_BUF"
    | (ignore) "c \<notin> {8, 21, 127}" "c = 0 \<or> \<not> unat (c_e (kcons s) - c_r (kcons s)) < INPUT_BUF" by blast
  then show ?thesis
  proof cases
    case kill
    have "length (cons_line (kcons s)) \<le> INPUT_BUF" using L(1) i by (simp add: cons_inv_def)
    then have "3 * length (cons_line (kcons ?a)) \<le> u_room (kuart ?a)" using ctx(3) by simp
    from cons_kill_line_ok[OF _ _ this] obtain u x where
      "cons_kill_line (length (cons_line (kcons s))) ?a = Inr (?a\<lparr>kuart := u, kcons := x\<rparr>)" "cons_inv x"
      "(cons_ready x, cons_line x) = (cons_ready (kcons s), [])" using i ctx by auto
    then show ?thesis using kill ctx h L(3) by (simp add: consoleintr_def line_step_def)
  next
    case erase
    let ?x = "(kcons s)\<lparr>c_e := c_e (kcons s) - 1\<rparr>"
    obtain u where "consputc None (?a\<lparr>kcons := ?x\<rparr>) = Inr (?a\<lparr>kcons := ?x, kuart := u\<rparr>)"
      using consputc_ok[of "?a\<lparr>kcons := ?x\<rparr>" None] ctx r3 by auto
    then show ?thesis using erase ctx h cons_erase_ok[OF i erase(2)] by (auto simp: consoleintr_def line_step_def upd_cons_def)
  next
    case start
    then have "cons_line (kcons s) = []" using L(2) by simp
    then show ?thesis using start ctx h i by (auto simp: consoleintr_def line_step_def)
  next
    case store
    let ?c = "if c = 13 then 10 else c" and ?x = "fst (cons_store (if c = 13 then 10 else c) (kcons s))"
    obtain u where u: "consputc (Some ?c) ?a = Inr (?a\<lparr>kuart := u\<rparr>)" using consputc_ok[of ?a "Some ?c"] ctx r3 by auto
    let ?t = "?a\<lparr>kuart := u, kcons := ?x\<rparr>"
    have w: "wakeup ChCons ?t = Inr (?t\<lparr>procs := map (wake1 ChCons) (procs ?t)\<rparr>)"
      using x by (intro wakeup_eq) (auto simp: intr_ctx_def no_proc_lock_def procs_ok_def)
    have lt: "c_e (kcons s) - c_r (kcons s) < of_nat INPUT_BUF"
      using store(3) by (simp add: word_less_nat_alt unat_of_nat INPUT_BUF_def)
    have "length (cons_ready (kcons s)) + length (cons_line (kcons s)) < INPUT_BUF" using store(3) L(1) by simp
    then have v: "line_step c (cons_view s) = line_put ?c (cons_view s)" using store c by (simp add: line_step_def)
    have "consoleintr c s = bindE (if snd (cons_store ?c (kcons s)) then wakeup ChCons ?t else Inr ?t) (release ConsLk)"
      using store(1,2) c ctx(1) lt u by (simp add: consoleintr_def Let_def case_prod_beta)
    then show ?thesis using w h cons_store_ok[OF i store(3), of ?c] v by (cases "snd (cons_store ?c (kcons s))") simp_all
  next
    case ignore
    show ?thesis
    proof (cases "c = 0")
      case True
      then show ?thesis using ctx h i by (simp add: consoleintr_def line_step_def)
    next
      case False
      then have "\<not> c_e (kcons s) - c_r (kcons s) < of_nat INPUT_BUF"
        "\<not> length (cons_ready (kcons s)) + length (cons_line (kcons s)) < INPUT_BUF"
        using ignore(2) L(1) by (auto simp: word_less_nat_alt unat_of_nat INPUT_BUF_def)
      then show ?thesis using ignore(1) c ctx h i by (simp add: consoleintr_def line_step_def)
    qed
  qed
qed

section \<open>Reading a line\<close>

lemma cons_get_ok:
  assumes i: "cons_inv x" and ne: "c_r x \<noteq> c_w x"
  shows "cons_inv (x\<lparr>c_r := c_r x + 1\<rparr>) \<and> cons_line (x\<lparr>c_r := c_r x + 1\<rparr>) = cons_line x \<and>
    cons_ready x = c_buf x (cbuf_at (c_r x)) # cons_ready (x\<lparr>c_r := c_r x + 1\<rparr>)"
proof -
  let ?x = "x\<lparr>c_r := c_r x + 1\<rparr>" and ?c = "c_buf x (cbuf_at (c_r x))"
  have r: "cons_ready x = ?c # cons_ready ?x"
    using ring_bytes_get[of "c_w x" "c_r x" INPUT_BUF "c_buf x"] ne by (simp add: cons_ready_def cbuf_at_def)
  have "c_e x \<noteq> c_r x" using i ne by (auto simp: cons_inv_def unat_eq_0)
  then have t: "cons_typed x = ?c # cons_typed ?x"
    using ring_bytes_get[of "c_e x" "c_r x" INPUT_BUF "c_buf x"] by (simp add: cons_typed_def cbuf_at_def)
  have l: "cons_line ?x = cons_line x" unfolding cons_line_def r t by simp
  have "unat (c_w x - c_r x) = Suc (unat (c_w ?x - c_r ?x))" "unat (c_e x - c_r x) = Suc (unat (c_e ?x - c_r ?x))"
    using arg_cong[OF r, of length] arg_cong[OF t, of length] by (simp_all add: cons_ready_def cons_typed_def)
  then have "cons_inv ?x" using i l unfolding cons_inv_def by simp
  then show ?thesis using r l by simp
qed

lemma uwritten_kcons:
  assumes "uwritten s pt va src n t"
  shows "uwritten (s\<lparr>kcons := X, held := H\<rparr>) pt va src n (t\<lparr>kcons := X, held := H\<rparr>)"
proof -
  have t: "t = s\<lparr>mem := mem t\<rparr>" using assms by (simp add: uwritten_def)
  have "t\<lparr>kcons := X, held := H\<rparr> = s\<lparr>kcons := X, held := H\<rparr>\<lparr>mem := mem t\<rparr>" by (subst t) simp
  then show ?thesis using assms unfolding uwritten_def by simp
qed

lemma consoleread_loop_char:
  assumes p: "curproc s = Some p" and f: "frames_ok (mem s) (p_pagetable (procs s ! p))" and i: "cons_inv (kcons s)"
    and l: "ConsLk \<in> held s" and r: "cons_ready (kcons s) = c # bs" "c \<noteq> 4"
    and m: "umapped (mem s) (p_pagetable (procs s ! p)) addr"
  defines "x \<equiv> (kcons s)\<lparr>c_r := c_r (kcons s) + 1\<rparr>"
  shows "\<exists>u. uwritten (s\<lparr>kcons := x\<rparr>) (p_pagetable (procs s ! p)) addr (\<lambda>_. c) 1 u \<and>
    consoleread_loop True addr target (Suc n) s =
      (if c = 10 then Inr (Inr (int target - int n), u\<lparr>held := held u - {ConsLk}\<rparr>)
       else consoleread_loop True (addr + 1) target n u)"
proof -
  have ne: "c_r (kcons s) \<noteq> c_w (kcons s)" using r(1) by (auto simp: cons_ready_def ring_bytes_def)
  have c: "c_buf (kcons s) (cbuf_at (c_r (kcons s))) = c" using cons_get_ok[OF i ne] r(1) by simp
  obtain u where u: "copyout (p_pagetable (procs s ! p)) addr (\<lambda>_. c) 1 (s\<lparr>kcons := x\<rparr>) = Inr (0, u)"
    "uwritten (s\<lparr>kcons := x\<rparr>) (p_pagetable (procs s ! p)) addr (\<lambda>_. c) 1 u"
    using copyout_1[of "s\<lparr>kcons := x\<rparr>" "p_pagetable (procs s ! p)" addr c] f m by auto
  have uf: "u = s\<lparr>kcons := x\<rparr>\<lparr>mem := mem u\<rparr>" using u(2) by (simp add: uwritten_def)
  have "ConsLk \<in> held u" by (subst uf) (simp add: l)
  then show ?thesis using u p ne c r(2) by (intro exI[of _ u]) (simp add: myproc_def upd_cons_def either_copyout_def x_def[symmetric])
qed

text \<open>The reader that wants \<open>k\<close> more bytes gets the rest of the line, up to its newline.\<close>

lemma consoleread_loop_line:
  assumes "curproc s = Some p" "frames_ok (mem s) (p_pagetable (procs s ! p))" "cons_inv (kcons s)" "ConsLk \<in> held s"
    and "cons_ready (kcons s) = line @ 10 # rest" "4 \<notin> set line" "10 \<notin> set line" "length line < k" "k \<le> target"
    and "\<forall>j\<le>length line. umapped (mem s) (p_pagetable (procs s ! p)) (addr + of_nat j)" "unat addr + length line < 2 ^ 38"
  shows "\<exists>s'. consoleread_loop True addr target k s = Inr (Inr (int (target - k + length line + 1)), s') \<and>
    held s' = held s - {ConsLk} \<and> cons_inv (kcons s') \<and> cons_view s' = (rest, cons_line (kcons s)) \<and>
    uwritten s (p_pagetable (procs s ! p)) addr (\<lambda>i. (line @ [10]) ! i) (length line + 1) (s'\<lparr>kcons := kcons s, held := held s\<rparr>)"
  using assms
proof (induction line arbitrary: s addr k)
  case Nil
  let ?pt = "p_pagetable (procs s ! p)" and ?x = "(kcons s)\<lparr>c_r := c_r (kcons s) + 1\<rparr>"
  obtain n where k: "k = Suc n" using Nil.prems(8) by (cases k) auto
  have m: "umapped (mem s) ?pt addr" using Nil.prems(10) by simp
  have r: "cons_ready (kcons s) = 10 # rest" using Nil.prems(5) by simp
  obtain u where u: "uwritten (s\<lparr>kcons := ?x\<rparr>) ?pt addr (\<lambda>_. 10) 1 u"
    "consoleread_loop True addr target k s = Inr (Inr (int target - int n), u\<lparr>held := held u - {ConsLk}\<rparr>)"
    using consoleread_loop_char[OF Nil.prems(1-4) r _ m, of target n] unfolding k by auto
  have uf: "u = s\<lparr>kcons := ?x\<rparr>\<lparr>mem := mem u\<rparr>" using u(1) by (simp add: uwritten_def)
  have f: "held u = held s" "kcons u = ?x" by (subst uf, simp)+
  have ne: "c_r (kcons s) \<noteq> c_w (kcons s)" using r by (auto simp: cons_ready_def ring_bytes_def)
  have g: "cons_inv ?x" "cons_line ?x = cons_line (kcons s)" "cons_ready ?x = rest" using cons_get_ok[OF Nil.prems(3) ne] r by simp_all
  have "uwritten s ?pt addr (\<lambda>_. 10) 1 (u\<lparr>kcons := kcons s, held := held s\<rparr>)"
    using uwritten_kcons[OF u(1), where X = "kcons s" and H = "held s"] by simp
  then have "uwritten s ?pt addr (\<lambda>i. ([] @ [10]) ! i) (length [] + 1) (u\<lparr>kcons := kcons s, held := held s\<rparr>)"
    using uwritten_cong[of s ?pt addr "\<lambda>_. 10" 1 _ "\<lambda>i. [10] ! i"] by simp
  then show ?case using u(2) g Nil.prems(9) k
    by (intro exI[of _ "u\<lparr>held := held u - {ConsLk}\<rparr>"]) (simp add: f of_nat_diff)
next
  case (Cons a line)
  let ?pt = "p_pagetable (procs s ! p)" and ?x = "(kcons s)\<lparr>c_r := c_r (kcons s) + 1\<rparr>"
  obtain n where k: "k = Suc n" using Cons.prems(8) by (cases k) auto
  have m: "umapped (mem s) ?pt addr" using Cons.prems(10)[rule_format, of 0] by simp
  have r: "cons_ready (kcons s) = a # line @ 10 # rest" using Cons.prems(5) by simp
  obtain u where u: "uwritten (s\<lparr>kcons := ?x\<rparr>) ?pt addr (\<lambda>_. a) 1 u"
    "consoleread_loop True addr target k s = consoleread_loop True (addr + 1) target n u"
    using consoleread_loop_char[OF Cons.prems(1-4) r _ m, of target n] Cons.prems(6,7) unfolding k by auto
  have uf: "u = s\<lparr>kcons := ?x\<rparr>\<lparr>mem := mem u\<rparr>" using u(1) by (simp add: uwritten_def)
  have f: "held u = held s" "kcons u = ?x" "curproc u = curproc s" "procs u = procs s" by (subst uf, simp)+
  have ne: "c_r (kcons s) \<noteq> c_w (kcons s)" using r by (auto simp: cons_ready_def ring_bytes_def)
  have g: "cons_inv ?x" "cons_line ?x = cons_line (kcons s)" "cons_ready ?x = line @ 10 # rest" using cons_get_ok[OF Cons.prems(3) ne] r by simp_all
  have um: "\<forall>j\<le>length line. umapped (mem u) (p_pagetable (procs u ! p)) (addr + 1 + of_nat j)"
  proof (intro allI impI)
    fix j assume "j \<le> length line"
    then have "umapped (mem s) ?pt (addr + of_nat (Suc j))" using Cons.prems(10) by auto
    then show "umapped (mem u) (p_pagetable (procs u ! p)) (addr + 1 + of_nat j)"
      using umapped_written[OF u(1)] by (simp add: f ac_simps)
  qed
  have a1: "unat (addr + 1) = unat addr + 1" using Cons.prems(11) by (simp add: unat_word_ariths)
  have c: "curproc u = Some p" "frames_ok (mem u) (p_pagetable (procs u ! p))" "cons_inv (kcons u)" "ConsLk \<in> held u"
    "cons_ready (kcons u) = line @ 10 # rest" "4 \<notin> set line" "10 \<notin> set line" "length line < n" "n \<le> target" "unat (addr + 1) + length line < 2 ^ 38"
    using Cons.prems u(1) f g k a1 by (auto simp: uwritten_def)
  from Cons.IH[OF c(1-9) um c(10)] obtain s' where IH:
    "consoleread_loop True (addr + 1) target n u = Inr (Inr (int (target - n + length line + 1)), s')"
    "held s' = held s - {ConsLk}" "cons_inv (kcons s')" "cons_view s' = (rest, cons_line (kcons s))"
    "uwritten u ?pt (addr + 1) (\<lambda>i. (line @ [10]) ! i) (length line + 1) (s'\<lparr>kcons := ?x, held := held s\<rparr>)" unfolding f g by blast
  have "uwritten s ?pt addr (\<lambda>i. (a # line @ [10]) ! i) (1 + (length line + 1)) (s'\<lparr>kcons := kcons s, held := held s\<rparr>)"
  proof (rule uwritten_trans)
    show "uwritten s ?pt addr (\<lambda>i. (a # line @ [10]) ! i) 1 (u\<lparr>kcons := kcons s, held := held s\<rparr>)"
    proof (rule uwritten_cong)
      show "uwritten s ?pt addr (\<lambda>_. a) 1 (u\<lparr>kcons := kcons s, held := held s\<rparr>)"
        using uwritten_kcons[OF u(1), where X = "kcons s" and H = "held s"] by simp
    qed simp
    show "uwritten (u\<lparr>kcons := kcons s, held := held s\<rparr>) ?pt (addr + 1) (\<lambda>i. (a # line @ [10]) ! (1 + i)) (length line + 1)
        (s'\<lparr>kcons := kcons s, held := held s\<rparr>)"
      using uwritten_kcons[OF IH(5), where X = "kcons s" and H = "held s"] by simp
  qed (rule a1)
  moreover have "target - k + length (a # line) + 1 = target - n + length line + 1" using Cons.prems(9) k by simp
  ultimately show ?case using u(2) IH(1-4) by (intro exI[of _ s']) simp
qed

text \<open>A call of \<open>consoleread\<close> with room for the line returns the first complete line and its length.\<close>

lemma consoleread_line:
  assumes c: "curproc s = Some p" "frames_ok (mem s) (p_pagetable (procs s ! p))" "cons_inv (kcons s)" "ConsLk \<notin> held s"
    and l: "cons_ready (kcons s) = line @ 10 # rest" "4 \<notin> set line" "10 \<notin> set line" "length line < n"
    and m: "\<forall>j\<le>length line. umapped (mem s) (p_pagetable (procs s ! p)) (addr + of_nat j)" "unat addr + length line < 2 ^ 38"
  shows "\<exists>s'. consoleread True addr (int n) s = Inr (int (length line + 1), s') \<and> held s' = held s \<and>
    cons_inv (kcons s') \<and> cons_view s' = (rest, cons_line (kcons s)) \<and>
    (\<forall>j\<le>length line. uread (mem s') (p_pagetable (procs s ! p)) (addr + of_nat j) = (line @ [10]) ! j)"
proof -
  let ?a = "s\<lparr>held := insert ConsLk (held s)\<rparr>" and ?pt = "p_pagetable (procs s ! p)"
  have a: "curproc ?a = Some p" "frames_ok (mem ?a) (p_pagetable (procs ?a ! p))" "cons_inv (kcons ?a)" "ConsLk \<in> held ?a"
    "cons_ready (kcons ?a) = line @ 10 # rest" "n \<le> n"
    "\<forall>j\<le>length line. umapped (mem ?a) (p_pagetable (procs ?a ! p)) (addr + of_nat j)" using c l(1) m(1) by simp_all
  obtain s' where L: "consoleread_loop True addr n n ?a = Inr (Inr (int (length line + 1)), s')" "held s' = held s"
    "cons_inv (kcons s')" "cons_view s' = (rest, cons_line (kcons s))"
    "uwritten ?a ?pt addr (\<lambda>i. (line @ [10]) ! i) (length line + 1) (s'\<lparr>kcons := kcons s, held := insert ConsLk (held s)\<rparr>)"
    using consoleread_loop_line[OF a(1-5) l(2-4) a(6,7) m(2)] c(4) by auto
  have "consoleread True addr (int n) s = Inr (int (length line + 1), s')"
    using c(4) l(4) L(1) by (simp add: consoleread_def)
  moreover have "uread (mem s') ?pt (addr + of_nat j) = (line @ [10]) ! j" if j: "j \<le> length line" for j
  proof -
    have v: "addr + of_nat j < MAXVA" "vmap (mem s) ?pt (addr + of_nat j) AND PTE_V \<noteq> 0" using m(1) j by (auto simp: umapped_def)
    have "unat addr + j < 18446744073709551616" using m(2) j by simp
    then have e: "unat (addr + of_nat j) = unat addr + j" by (simp add: unat_word_ariths unat_of_nat)
    show ?thesis using L(5) v j e unfolding uwritten_def by simp
  qed
  ultimately show ?thesis using L(2-4) by (intro exI[of _ s']) simp
qed

end
