(* ===== verification/Spec2Isabelle.thy ===== *)
theory Spec2Isabelle
  imports Trap Proc_Table Sleep_Wakeup Spinlock Virtio_Transfer Boot_Lazy Boot_File Pipe_Fifo Term_Fifo
begin

text \<open>
  A verification of xv6 for RISC-V.
\<close>

section \<open>The log: transactions and crashes\<close>

text \<open>
  C1. Crash safety of the log (\<^verbatim>\<open>kernel/log.c\<close>). Take a state with \<open>n\<close> blocks in the log, ready to
  commit, whose header on disk is empty. \<open>commit\<close> succeeds and performs the disk writes
  \<open>commit_trace\<close>, in that order. If the machine stops after any number \<open>k\<close> of these writes and
  boots from the disk it left, \<open>initlog\<close> succeeds, and outside the log area the disk holds either
  all the old blocks (\<open>k \<le> n\<close>: the header was not written yet) or all the blocks of the
  transaction, never a mixture; the header on disk is empty again.
\<close>

theorem crash_atomic:
  assumes "commit_ready n s" "n < NBUF" "load32 (disk s (lhdr s)) 0 = 0" "sint (sb_logstart sb) = l_start (klog s)"
    and "rebooted (apply_writes (take k (commit_trace n s)) (disk s)) r"
  shows "(\<exists>s'. commit s = Inr s' \<and> wtrace s' = wtrace s @ commit_trace n s) \<and>
    (\<exists>r'. initlog ROOTDEV sb r = Inr r' \<and> bio_ok r' \<and> load32 (disk r' (lhdr s)) 0 = 0 \<and>
      (\<forall>b. b \<notin> log_region s \<longrightarrow> same_block (disk r' b) (if k \<le> n then disk s b else committed n s b)))"
  using commit_ok[OF assms(1)] crash_recovery[OF assms(1-3) assms(5)[folded crash_disk_def] assms(4)] by blast

text \<open>Block 100 zeroed by \<open>bzero\<close>, and a crash after the header write, before the block is installed.\<close>

theorem crash_atomic_witness:
  "\<exists>r'. initlog ROOTDEV fs_sb (booted (crash_disk 2 1 zeroed_100)) = Inr r' \<and>
     same_block (disk r' 100) (\<lambda>_. 0) \<and> same_block (disk r' 101) (\<lambda>_. 1)"
proof -
  have r: "rebooted (crash_disk 2 1 zeroed_100) (booted (crash_disk 2 1 zeroed_100))"
    by (simp add: rebooted_def booted_fields booted_view log0_def)
  note h = zeroed_100_head
  have sb: "sint (sb_logstart fs_sb) = l_start (klog zeroed_100)" by (simp add: fs_sb_def zeroed_100_ready)
  have n: "1 < NBUF" by (simp add: param_defs)
  have o: "(100 :: u32) \<notin> log_region zeroed_100" "(101 :: u32) \<notin> log_region zeroed_100"
    unfolding zeroed_100_log using outside_region[of 100] outside_region[of 101] by simp_all
  have c: "committed 1 zeroed_100 100 = memset (ones_disk 100) 0 0 BSIZE" "committed 1 zeroed_100 101 = ones_disk 101"
    using zeroed_100_log(2) by (simp_all add: committed_def lessThan_Suc zeroed_100_ok zeroed_100_fields)
  obtain r' where "initlog ROOTDEV fs_sb (booted (crash_disk 2 1 zeroed_100)) = Inr r'"
    "\<forall>b. b \<notin> log_region zeroed_100 \<longrightarrow> same_block (disk r' b) (if 2 \<le> (1 :: nat) then disk zeroed_100 b else committed 1 zeroed_100 b)"
    using crash_atomic[OF zeroed_100_ready(1) n h sb r[unfolded crash_disk_def], folded crash_disk_def] by blast
  then show ?thesis using o c by (intro exI[of _ r']) (auto simp: same_block_def memset_eq ones_disk_def)
qed

text \<open>
  C2. What \<open>commit\<close> does when it is not interrupted: afterwards the disk holds the new contents
  of every logged block at its home location, the log is empty in memory and on disk, blocks outside
  the log area and the transaction are untouched, and every logged block is unpinned once.
\<close>

theorem commit_installs:
  assumes "commit_ready n s"
  shows "\<exists>s'. commit s = Inr s' \<and> bio_ok s' \<and> l_n (klog s') = 0 \<and> load32 (disk s' (lhdr s)) 0 = 0 \<and>
    (\<forall>b. b \<notin> log_region s \<longrightarrow> disk s' b = committed n s b) \<and>
    refs s' = unpinned (refs s) (home s ` {..<n}) \<and> lkd s' = lkd s"
proof -
  obtain s' where s': "commit s = Inr s'" "bio_ok s'" "klog s' = (klog s)\<lparr>l_n := 0\<rparr>"
    "disk s' = apply_writes (commit_trace n s) (disk s)" "refs s' = unpinned (refs s) (home s ` {..<n})" "lkd s' = lkd s"
    using commit_ok[OF assms] by blast
  have "length (commit_trace n s) \<le> 2 * n + 2" by (simp add: commit_trace_def Let_def)
  then have "disk s' = crash_disk (2 * n + 2) n s" by (simp add: s'(4) crash_disk_def)
  then show ?thesis using s' crash_disk_done[OF commit_readyD(2)[OF assms] order_refl] by (intro exI[of _ s']) simp
qed

theorem commit_installs_witness: "\<exists>s'. commit zeroed_100 = Inr s' \<and> same_block (disk s' 100) (\<lambda>_. 0) \<and> refs s' 100 = 0"
proof -
  obtain s' where s': "commit zeroed_100 = Inr s'" "refs s' = unpinned (refs zeroed_100) (home zeroed_100 ` {..<1})"
    "\<forall>b. b \<notin> log_region zeroed_100 \<longrightarrow> disk s' b = committed 1 zeroed_100 b"
    using commit_installs[OF zeroed_100_ready(1)] by blast
  have "(100 :: u32) \<notin> log_region zeroed_100" unfolding zeroed_100_log using outside_region[of 100] by simp
  then have "disk s' 100 = memset (ones_disk 100) 0 0 BSIZE"
    using s'(3) zeroed_100_log(2) by (simp add: committed_def lessThan_Suc zeroed_100_ok)
  moreover have "refs s' 100 = 0" using zeroed_100_log(2) by (simp add: s'(2) unpinned_def lessThan_Suc zeroed_100_fields)
  ultimately show ?thesis using s'(1) by (simp add: same_block_def memset_eq)
qed

text \<open>
  C3. \<open>log_write\<close> on a buffer the caller has read: the first write of a block in a transaction
  appends its number to the log and pins the buffer, a later one is absorbed and changes nothing;
  the buffer's contents, the locks and the disk stay as they are.
\<close>

theorem log_write_records:
  assumes "bc_inv s" "bio_ctx s" "owner s x = Some b" "refs s x + 1 \<noteq> 0" "log_open n s"
  shows "\<exists>s'. log_write b s = Inr s' \<and> bc_inv s' \<and> blk s' = blk s \<and> disk s' = disk s \<and> lkd s' = lkd s \<and>
    (if x \<in> logged_blocks s then klog s' = klog s \<and> refs s' = refs s
     else klog s' = log_append x (klog s) \<and> refs s' = (refs s)(x := refs s x + 1))"
proof -
  have "l_n (klog s) = int n" using assms(5) by (simp add: log_open_def)
  then have e: "x \<in> logged_blocks s \<longleftrightarrow> x \<in> set (take n (l_block (klog s)))" by (simp add: logged_blocks_def)
  obtain s' where "log_write b s = Inr s'" "bc_inv s'" "blk s' = blk s" "lkd s' = lkd s" "disk s' = disk s"
    "refs s' = (if x \<notin> set (take n (l_block (klog s))) then (refs s)(x := refs s x + 1) else refs s)"
    "klog s' = (if x \<notin> set (take n (l_block (klog s))) then log_append x (klog s) else klog s)"
    by (rule log_write_step[OF assms]) (rule that)
  then show ?thesis unfolding e by (intro exI[of _ s']) simp
qed

theorem log_write_records_witness:
  "\<exists>b s s'. bread ROOTDEV 100 (in_op ones_disk) = Inr (b, s) \<and> log_write b s = Inr s' \<and> l_n (klog s') = 1"
proof -
  obtain b s where bs: "bread ROOTDEV 100 (in_op ones_disk) = Inr (b, s)" "bread_post 100 (in_op ones_disk) b s"
    using bread_ok[of "in_op ones_disk" 100] in_op_fields(8)[of ones_disk]
    by (auto simp: bio_ok_def in_op_fields busy_def param_defs)
  have f: "s = (in_op ones_disk)\<lparr>bufs := bufs s\<rparr>" using bs(2) by (simp add: bread_post_def)
  have k: "klog s = klog (in_op ones_disk)" "held s = {}" "bio_ctx s"
    using in_op_fields(8)[of ones_disk]
    by (subst f, simp add: in_op_fields bio_ok_def bio_ctx_def no_proc_lock_def procs_ok_def)+
  have o: "log_open 0 s" by (simp add: log_open_def k in_op_fields log0_def param_defs)
  have v: "bc_inv s" "owner s 100 = Some b" "refs s 100 + 1 \<noteq> 0"
    using bs(2) by (simp_all add: bread_post_def in_op_fields)
  have n: "100 \<notin> logged_blocks s" by (simp add: logged_blocks_def k in_op_fields log0_def)
  show ?thesis using log_write_records[OF v(1) k(3) v(2,3) o] bs(1) n
    by (auto simp: log_append_def k in_op_fields log0_def)
qed

section \<open>The buffer cache\<close>

text \<open>
  C4. \<open>bread\<close> (\<^verbatim>\<open>kernel/bio.c\<close>), whether the block is cached or a buffer has to be recycled, returns
  a buffer that holds the current contents of the block, locked by the caller and with one more
  reference. The cache invariant holds again, the contents of no block changes, and no buffer
  another user refers to is taken away.
\<close>

theorem bread_contents:
  assumes "bc_inv s" "bio_ctx s" "settled s" "lkd s n = None" "refs s n + 1 \<noteq> 0"
    and "refs s n \<noteq> 0 \<or> card (busy s) < NBUF"
  shows "\<exists>b s'. bread ROOTDEV n s = Inr (b, s') \<and> b_data (bufs s' ! b) = blk s n \<and> b_blockno (bufs s' ! b) = n \<and>
    bc_inv s' \<and> blk s' = blk s \<and> refs s' = (refs s)(n := refs s n + 1) \<and> lkd s' = (lkd s)(n := Some (mypid s)) \<and>
    disk s' = disk s \<and> (\<forall>m c. owner s m = Some c \<longrightarrow> refs s m \<noteq> 0 \<longrightarrow> owner s' m = Some c)"
proof -
  obtain b s' where r: "bread ROOTDEV n s = Inr (b, s')" "bread_post n s b s'" using bread_ok[OF assms] by blast
  then have o: "owner s' n = Some b" "blk s' = blk s" by (simp_all add: bread_post_def)
  have f: "s' = s\<lparr>bufs := bufs s'\<rparr>" using r(2) by (simp add: bread_post_def)
  have "disk s' = disk s" by (subst f) simp
  then show ?thesis using r owner_fields[OF o(1)] o(2) by (intro exI[of _ b] exI[of _ s']) (simp add: bread_post_def)
qed

theorem bread_contents_witness:
  "\<exists>b s'. bread ROOTDEV 7 (booted ones_disk) = Inr (b, s') \<and> b_data (bufs s' ! b) = (\<lambda>_. 1) \<and> refs s' 7 = 1"
proof -
  have h: "bc_inv (booted ones_disk)" "bio_ctx (booted ones_disk)" "settled (booted ones_disk)"
    using booted_view(1)[of ones_disk] by (auto simp: bio_ok_def)
  show ?thesis using bread_contents[OF h, of 7] by (auto simp: booted_view busy_def param_defs ones_disk_def)
qed

text \<open>
  C5. \<open>brelse\<close> of a buffer the caller holds, whose last reference goes only when the disk has its
  contents: the buffer is unlocked and has one reference less, the contents of every block is
  unchanged, and the cache invariant (the LRU list threads all buffers, at most one buffer per
  block, unreferenced buffers agree with the disk) holds again.
\<close>

theorem brelse_keeps:
  assumes "bc_inv s" "bio_ctx s" "owner s n = Some b" "lkd s n = Some (mypid s)"
    and "refs s n = 1 \<Longrightarrow> blk s n = disk s n"
  shows "\<exists>s'. brelse b s = Inr s' \<and> bc_inv s' \<and> blk s' = blk s \<and> refs s' = (refs s)(n := refs s n - 1) \<and>
    lkd s' = (lkd s)(n := None)"
  using brelse_ok[OF assms] by (auto simp: brelse_post_def)

theorem brelse_keeps_witness:
  "\<exists>b s s'. bread ROOTDEV 7 (booted ones_disk) = Inr (b, s) \<and> brelse b s = Inr s' \<and> refs s' 7 = 0 \<and> lkd s' 7 = None"
proof -
  have h: "bc_inv (booted ones_disk)" "bio_ctx (booted ones_disk)" "settled (booted ones_disk)"
    using booted_view(1)[of ones_disk] by (auto simp: bio_ok_def)
  obtain b s where bs: "bread ROOTDEV 7 (booted ones_disk) = Inr (b, s)" "bread_post 7 (booted ones_disk) b s"
    using bread_ok[OF h, of 7] by (auto simp: booted_view busy_def param_defs)
  have f: "s = (booted ones_disk)\<lparr>bufs := bufs s\<rparr>" using bs(2) by (simp add: bread_post_def)
  have k: "bio_ctx s" "mypid s = mypid (booted ones_disk)" "disk s = ones_disk"
    using h(2) by (subst f, simp add: bio_ctx_def no_proc_lock_def procs_ok_def mypid_def booted_fields)+
  have v: "bc_inv s" "owner s 7 = Some b" "lkd s 7 = Some (mypid s)" "refs s 7 = 1" "blk s 7 = disk s 7"
    using bs(2) by (simp_all add: bread_post_def booted_view k)
  show ?thesis using brelse_keeps[OF v(1) k(1) v(2,3)] v(4,5) bs(1) by auto
qed

section \<open>The disk driver\<close>



text \<open>
  C17. The driver's book-keeping with any number of requests in flight: at most two fit; \<open>alloc3_desc\<close> either
  finds three free descriptors and the formatted chain joins the others without touching them, or two
  requests are already in flight and nothing is kept; and \<open>free_chain\<close> of any request in flight
  succeeds, without a panic, and frees exactly its descriptors.
\<close>

theorem virtio_descriptors:
  assumes "vd_inv v cs" "no_proc_lock s" "procs_ok s"
  shows "length cs \<le> 2 \<and>
    ((\<exists>c v'. alloc3_desc (v, s) = Inr (Some c, (v', s)) \<and> vd_inv (virtio_format b w n c v') (c # cs)) \<or>
     (\<exists>v' s'. alloc3_desc (v, s) = Inr (None, (v', s')) \<and> vd_inv v' cs \<and> length cs = 2)) \<and>
    (\<forall>as c bs. cs = as @ c # bs \<longrightarrow> (\<exists>v' s'. free_chain (fst c) (v, s) = Inr (v', s') \<and> vd_inv v' (as @ bs)))"
proof (intro conjI allI impI)
  show "length cs \<le> 2" by (rule two_in_flight[OF assms(1)])
  show "(\<exists>c v'. alloc3_desc (v, s) = Inr (Some c, (v', s)) \<and> vd_inv (virtio_format b w n c v') (c # cs)) \<or>
     (\<exists>v' s'. alloc3_desc (v, s) = Inr (None, (v', s')) \<and> vd_inv v' cs \<and> length cs = 2)"
    using alloc3_ok[OF assms]
  proof
    assume "\<exists>i0 i1 i2. alloc3_desc (v, s) = Inr (Some (i0, i1, i2), (v\<lparr>v_free := (v_free v)[i0 := False, i1 := False, i2 := False]\<rparr>, s)) \<and>
        distinct (in_flight ((i0, i1, i2) # cs)) \<and> {i0, i1, i2} \<subseteq> {..<NUM}"
    then obtain i0 i1 i2 where "alloc3_desc (v, s) = Inr (Some (i0, i1, i2), (v\<lparr>v_free := (v_free v)[i0 := False, i1 := False, i2 := False]\<rparr>, s))"
      "distinct (in_flight ((i0, i1, i2) # cs))" "{i0, i1, i2} \<subseteq> {..<NUM}" by blast
    then show ?thesis using format_inv[OF assms(1), of i0 i1 i2 b w n] by blast
  qed blast
  fix as c bs assume "cs = as @ c # bs"
  then show "\<exists>v' s'. free_chain (fst c) (v, s) = Inr (v', s') \<and> vd_inv v' (as @ bs)"
    using free_chain_ok[of v as "fst c" "fst (snd c)" "snd (snd c)" bs s] assms unfolding prod.collapse by blast
qed

theorem virtio_descriptors_witness:
  "\<exists>c v'. alloc3_desc (vdisk0, user_state) = Inr (Some c, (v', user_state)) \<and> vd_inv (virtio_format 0 True 7 c v') [c]"
  using virtio_descriptors[OF _ user_state_rest(3,4), of vdisk0 "[]" 0 True 7] vdisk0_idle by (auto simp: vdisk_idle_def)

section \<open>The block allocator of the file system\<close>

text \<open>
  C6. \<open>balloc\<close> (\<^verbatim>\<open>kernel/fs.c\<close>) inside a transaction with room for two more blocks returns the first
  free block: its bitmap bit is set and no other, the block is zeroed, and every other block of the
  file system keeps its contents. Nothing reaches the disk before the commit.
\<close>

theorem balloc_first_free:
  assumes "budget (Suc (Suc k)) s" "bitmap_ok s" "b < nblocks s" "\<not> used s b" "\<forall>c<b. used s c"
  shows "\<exists>s'. balloc ROOTDEV s = Inr (of_nat b, s') \<and> budget k s' \<and> disk s' = disk s \<and>
    (\<forall>c<nblocks s. used s' c \<longleftrightarrow> used s c \<or> c = b) \<and> same_block (blk s' (of_nat b)) (\<lambda>_. 0) \<and>
    (\<forall>y. y \<noteq> of_nat b \<longrightarrow> y \<noteq> BBLOCK b (sblk s) \<longrightarrow> blk s' y = blk s y)"
proof -
  obtain s' where "balloc ROOTDEV s = Inr (of_nat b, s')" "budget k s'" "disk s' = disk s"
    "\<forall>c<nblocks s. used s' c \<longleftrightarrow> used s c \<or> c = b" "blk s' (of_nat b) = memset (blk s (of_nat b)) 0 0 BSIZE"
    "\<forall>y. y \<noteq> of_nat b \<longrightarrow> y \<noteq> BBLOCK b (sblk s) \<longrightarrow> blk s' y = blk s y" using balloc_first[OF assms] by blast
  then show ?thesis by (intro exI[of _ s']) (simp add: same_block_def memset_eq)
qed

theorem balloc_first_free_witness: "\<exists>s'. balloc ROOTDEV fs_op = Inr (72, s') \<and> used s' 72 \<and> \<not> used s' 73"
proof -
  have h: "budget (Suc (Suc 0)) fs_op" "72 < nblocks fs_op" "\<not> used fs_op 72" "\<forall>c<72. used fs_op c"
    by (simp_all add: fs_op_budget fs_op_fields fs_op_used)
  obtain s' where s': "balloc ROOTDEV fs_op = Inr (of_nat 72, s')" "\<forall>c<nblocks fs_op. used s' c \<longleftrightarrow> used fs_op c \<or> c = 72"
    using balloc_first_free[OF h(1) fs_op_bitmap h(2-4)] by blast
  then show ?thesis by (intro exI[of _ s']) (simp add: fs_op_fields fs_op_used)
qed

text \<open>
  C31. When every block is in use, \<open>balloc\<close> panics.
\<close>

theorem balloc_out:
  assumes "budget (Suc k) s" "\<forall>b<nblocks s. used s b"
  shows "balloc ROOTDEV s = Inl (Panic ''balloc: out of blocks'')"
  by (rule balloc_full[OF assms])

theorem balloc_out_witness:
  "balloc ROOTDEV (fs_op\<lparr>sblk := fs_sb\<lparr>sb_size := 72\<rparr>\<rparr>) = Inl (Panic ''balloc: out of blocks'')"
proof (rule balloc_out)
  let ?s = "fs_op\<lparr>sblk := fs_sb\<lparr>sb_size := 72\<rparr>\<rparr>"
  show "budget (Suc 0) ?s" using fs_op_budget[of 1] budget_cong[of ?s fs_op] by simp
  have "blk ?s = blk fs_op" using view_cong(3)[of ?s fs_op] by simp
  then have "used ?s b = used fs_op b" for b by (simp add: used_def fs_op_fields BBLOCK_def)
  then show "\<forall>b<nblocks ?s. used ?s b" by (simp add: nblocks_def fs_op_used)
qed

text \<open>
  C28. \<open>bfree\<close> of a block in use clears its bit in the bitmap and nothing else.
\<close>

theorem bfree_frees:
  assumes "budget (Suc k) s" "BBLOCK (unat b) (sblk s) \<notin> log_region s" "used s (unat b)"
  shows "\<exists>s'. bfree ROOTDEV b s = Inr s' \<and> budget k s' \<and> disk s' = disk s \<and>
    (\<forall>y. y \<noteq> BBLOCK (unat b) (sblk s) \<longrightarrow> blk s' y = blk s y) \<and> (\<forall>c < 2 ^ 32. used s' c \<longleftrightarrow> used s c \<and> c \<noteq> unat b)"
  using bfree_ok[OF assms] unfolding txn_step_def by blast

theorem bfree_frees_witness: "\<exists>s'. bfree ROOTDEV 71 fs_op = Inr s' \<and> \<not> used s' 71 \<and> used s' 70"
proof -
  have h: "budget (Suc 0) fs_op" "BBLOCK (unat (71 :: u32)) (sblk fs_op) \<notin> log_region fs_op" "used fs_op (unat (71 :: u32))"
    using outside_region[of 45] by (simp_all add: fs_op_budget fs_op_fields fs_op_used fs_op_BBLOCK)
  obtain s' where "bfree ROOTDEV 71 fs_op = Inr s'" "\<forall>c < 2 ^ 32. used s' c \<longleftrightarrow> used fs_op c \<and> c \<noteq> unat (71 :: u32)"
    using bfree_frees[OF h] by blast
  then show ?thesis by (intro exI[of _ s']) (simp add: fs_op_used)
qed

text \<open>
  C30. Freeing a block that is free is caught: \<open>bfree\<close> panics.
\<close>

theorem bfree_twice:
  assumes "budget (Suc k) s" "\<not> used s (unat b)"
  shows "bfree ROOTDEV b s = Inl (Panic ''freeing free block'')"
  by (rule bfree_free_panics[OF assms])

theorem bfree_twice_witness: "bfree ROOTDEV 100 fs_op = Inl (Panic ''freeing free block'')"
  by (rule bfree_twice[of 0]) (simp_all add: fs_op_budget fs_op_used)

section \<open>File contents and inodes\<close>



text \<open>
  C8. \<open>iupdate\<close> writes a cached inode where \<open>ilock\<close> will read it: the fields read back from the disk block
  are the cached ones. Every other inode of the file system, in the same block or another, and every
  other block keep their contents (\<^verbatim>\<open>kernel/fs.c\<close>).
\<close>

theorem iupdate_inode:
  assumes "budget (Suc k) s" "i_dev (icache s ! i) = ROOTDEV" "IBLOCK (i_inum (icache s ! i)) (sblk s) \<notin> log_region s"
    and "length (i_addrs (icache s ! i)) = NDIRECT + 1"
  shows "\<exists>s'. iupdate i s = Inr s' \<and> budget k s' \<and>
    get_dinode (blk s' (IBLOCK (i_inum (icache s ! i)) (sblk s))) (dinode_off (i_inum (icache s ! i))) jp = dfields (icache s ! i) jp \<and>
    (\<forall>j. j \<noteq> i_inum (icache s ! i) \<longrightarrow> get_dinode (blk s' (IBLOCK j (sblk s))) (dinode_off j) jp =
       get_dinode (blk s (IBLOCK j (sblk s))) (dinode_off j) jp) \<and>
    (\<forall>y. y \<noteq> IBLOCK (i_inum (icache s ! i)) (sblk s) \<longrightarrow> blk s' y = blk s y)"
  by (rule iupdate_inode_ok[OF assms])

theorem iupdate_inode_witness:
  "\<exists>s'. iupdate 0 file_op = Inr s' \<and> get_dinode (blk s' 33) 0 inode0 = dfields file_inode inode0 \<and>
     get_dinode (blk s' 33) 64 inode0 = get_dinode (blk file_op 33) 64 inode0"
proof -
  have i: "i_inum (icache file_op ! 0) = 16" by (simp add: file_op_inode file_inode_def)
  have h: "budget (Suc 0) file_op" "i_dev (icache file_op ! 0) = ROOTDEV" "IBLOCK (i_inum (icache file_op ! 0)) (sblk file_op) \<notin> log_region file_op"
    "length (i_addrs (icache file_op ! 0)) = NDIRECT + 1"
    using file_op_apart(1) unfolding i by (simp_all add: file_op_budget file_op_inode file_op_fields(2)) (simp_all add: file_inode_def param_defs)
  obtain s' where s': "iupdate 0 file_op = Inr s'"
    "get_dinode (blk s' (IBLOCK 16 fs_sb)) (dinode_off 16) inode0 = dfields (icache file_op ! 0) inode0"
    "\<forall>j. j \<noteq> 16 \<longrightarrow> get_dinode (blk s' (IBLOCK j fs_sb)) (dinode_off j) inode0 = get_dinode (blk file_op (IBLOCK j fs_sb)) (dinode_off j) inode0"
    using iupdate_inode[OF h, of inode0] unfolding i file_op_fields(2) by blast
  have "IBLOCK 17 fs_sb = 33" "dinode_off 17 = 64" "dinode_off 16 = 0" by (simp_all add: IBLOCK_def fs_sb_def dinode_off_def IPB_def param_defs)
  then show ?thesis using s'(1,2) spec[OF s'(3), of 17] by (simp add: file_op_inode)
qed

section \<open>Spinlocks\<close>

text \<open>
  C14. Mutual exclusion (\<^verbatim>\<open>kernel/spinlock.c\<close>): in every state that any number of harts can reach by interleaving
  the steps of \<open>acquire\<close> and \<open>release\<close>, a lock belongs to at most one hart, its word is non-zero exactly
  while it belongs to one, the hart it belongs to has interrupts off, and no \<open>pop_off\<close> of a
  \<open>release\<close> has panicked.
\<close>

theorem spinlock_mutex:
  assumes "reachable s"
  shows "(owns_lock s h lk \<longrightarrow> owns_lock s h' lk \<longrightarrow> h = h') \<and> (lk_locked (slocks s lk) \<noteq> 0 \<longleftrightarrow> (\<exists>i. owns_lock s i lk)) \<and>
    (owns_lock s h lk \<and> (\<forall>e. pcs s h \<noteq> Stuck e) \<longrightarrow> \<not> sie s h) \<and> (\<forall>e. pcs s h = Stuck e \<longrightarrow> e \<in> {''acquire'', ''release''})"
proof (intro conjI)
  have x: "lock_excl s" "off_count s h" using reachable_inv[OF assms] by blast+
  show "owns_lock s h lk \<longrightarrow> owns_lock s h' lk \<longrightarrow> h = h'" "lk_locked (slocks s lk) \<noteq> 0 \<longleftrightarrow> (\<exists>i. owns_lock s i lk)"
    using lock_exclD(1,2)[OF x(1)] by blast+
  show "owns_lock s h lk \<and> (\<forall>e. pcs s h \<noteq> Stuck e) \<longrightarrow> \<not> sie s h" using owner_off(1)[OF assms] by blast
  show "\<forall>e. pcs s h = Stuck e \<longrightarrow> e \<in> {''acquire'', ''release''}" using x(2) unfolding off_count_def by blast
qed

theorem spinlock_mutex_witness:
  "reachable (acquire_run 3 KmemLk smp_init) \<and> owns_lock (acquire_run 3 KmemLk smp_init) 3 KmemLk \<and>
     \<not> owns_lock (acquire_run 3 KmemLk smp_init) 5 KmemLk"
proof -
  let ?s = "acquire_run 3 KmemLk smp_init"
  have r: "reachable ?s" by (intro reachable_acquire reach_init) (simp_all add: smp_init_def)
  have o: "owns_lock ?s 3 KmemLk" by (simp add: owns_lock_def acquire_run_def acquire_record_def)
  then show ?thesis using spinlock_mutex[OF r, of 3 KmemLk 5] r by auto
qed

text \<open>
  C15. What the rest of the kernel's model relies on: as long as \<open>held\<close> is the set of locks the hart has
  recorded, the check of the machine's \<open>acquire\<close> panics exactly when the abstract \<open>acquire\<close> does, its
  last step has the abstract effect, the same holds for \<open>release\<close>, and no step of another hart
  changes the set.
\<close>

theorem spinlock_view:
  assumes "reachable s" "held k = my_locks h s"
  shows "(pcs s h = Idle \<longrightarrow>
      (pcs (acquire_enter h lk s) h = Stuck ''acquire'' \<longleftrightarrow> acquire lk k = Inl (Panic ''acquire'')) \<and>
      (pcs (release_enter h lk s) h = Stuck ''release'' \<longleftrightarrow> release lk k = Inl (Panic ''release'')) \<and>
      (\<forall>k'. release lk k = Inr k' \<longrightarrow> held k' = my_locks h (release_enter h lk s))) \<and>
    (pcs s h = Taken lk \<longrightarrow> (\<exists>k'. acquire lk k = Inr k' \<and> held k' = my_locks h (acquire_record h lk s))) \<and>
    (\<forall>i s'. i \<noteq> h \<longrightarrow> smp_step i s s' \<longrightarrow> my_locks h s' = my_locks h s)"
proof (intro conjI impI allI)
  have x: "lock_excl s" using reachable_inv[OF assms(1)] by blast
  show "pcs (acquire_enter h lk s) h = Stuck ''acquire'' \<longleftrightarrow> acquire lk k = Inl (Panic ''acquire'')" if "pcs s h = Idle"
    using acquire_view(2)[OF x that, of lk] by (simp add: acquire_def assms(2))
  show "pcs (release_enter h lk s) h = Stuck ''release'' \<longleftrightarrow> release lk k = Inl (Panic ''release'')" if "pcs s h = Idle"
    using acquire_view(6)[OF x that, of lk] by (simp add: release_def assms(2))
  show "held k' = my_locks h (release_enter h lk s)" if "pcs s h = Idle" "release lk k = Inr k'" for k'
    using acquire_view(5)[OF x that(1), of lk] that(2) assms(2) by (simp add: release_eq_Inr)
  show "\<exists>k'. acquire lk k = Inr k' \<and> held k' = my_locks h (acquire_record h lk s)" if t: "pcs s h = Taken lk"
  proof -
    have "lk \<notin> my_locks h s" using lock_exclD(3)[OF x, of lk h] t by (auto simp: my_locks_def)
    then show ?thesis using acquire_view(4)[OF x t] assms(2) by simp
  qed
  show "my_locks h s' = my_locks h s" if "i \<noteq> h" "smp_step i s s'" for i s' using my_locks_step[OF that(2) x] that(1) by simp
qed

theorem spinlock_view_witness:
  "pcs (acquire_enter 0 KmemLk smp_init) 0 \<noteq> Stuck ''acquire'' \<and> release LogLk small_kernel = Inl (Panic ''release'')"
proof -
  have h: "held small_kernel = my_locks 0 smp_init" "pcs smp_init 0 = Idle"
    by (simp_all add: small_kernel_def kernel0_def my_locks_def smp_init_def)
  have a: "acquire KmemLk small_kernel \<noteq> Inl (Panic ''acquire'')" by (simp add: small_kernel_def kernel0_def acquire_def)
  have r: "pcs (release_enter 0 LogLk smp_init) 0 = Stuck ''release''" by (simp add: release_enter_def holding_def smp_init_def)
  show ?thesis using spinlock_view[OF reach_init h(1), of KmemLk] spinlock_view[OF reach_init h(1), of LogLk] h(2) a r by blast
qed

text \<open>
  C27. \<open>push_off\<close> and \<open>pop_off\<close> nest: a matched pair never panics and gives back the interrupt-enable bit
  and the nesting depth it found; inside another pair it changes nothing at all.
\<close>

theorem push_pop_nest:
  assumes "0 \<le> noff (cpus s h)" "0 < noff (cpus s h) \<Longrightarrow> \<not> sie s h"
  shows "\<not> sie (push_off h s) h \<and> (\<exists>t. pop_off h (push_off h s) = Inr t \<and> sie t = sie s \<and> noff (cpus t h) = noff (cpus s h) \<and>
    (0 < noff (cpus s h) \<longrightarrow> t = s))"
  using pop_push_off[OF assms] by simp

theorem push_pop_nest_witness:
  "\<exists>t. pop_off 0 (push_off 0 (set_sie 0 True smp_init)) = Inr t \<and> sie t 0"
  using push_pop_nest[of "set_sie 0 True smp_init" 0] by (auto simp: smp_init_def)

section \<open>Processes\<close>

text \<open>
  C16. No wakeup is lost (\<open>sleep\<close> and \<open>wakeup\<close> in \<^verbatim>\<open>kernel/proc.c\<close>): under every interleaving of processes that wait for a
  condition under its lock and processes that make it true and call \<open>wakeup\<close>, a process is found
  asleep while the condition holds only if a \<open>wakeup\<close> has still to come past it; and when no \<open>wakeup\<close> is
  running, every process that waits in \<open>sleep\<close> is runnable and the scheduler can switch to it.
\<close>

theorem no_lost_wakeup:
  assumes "sw_reach s" "sw_cond s"
  shows "(sleeper s q \<longrightarrow> coming s q) \<and>
    ((\<forall>w. \<not> waking (sw_pc s w)) \<and> sw_pc s q = Away \<longrightarrow> sw_state s q = RUNNABLE \<and> sw_step q s (sched_run q s))"
proof
  show "sleeper s q \<longrightarrow> coming s q" using sw_invD[OF sw_reach_inv[OF assms(1)]] assms(2) unfolding sleep_inv_def by blast
qed (use woken_can_run[OF assms] in blast)

theorem no_lost_wakeup_witness:
  "\<exists>s. sw_reach s \<and> sw_pc s 1 = Away \<and> sw_state s 1 = RUNNABLE \<and> sw_step 1 s (sched_run 1 s)"
proof -
  obtain s where s: "sw_reach s" "sw_pc s = (\<lambda>_. Out)(1 := Away)" "sw_cond s" using woken_reach by blast
  then have "\<forall>w. \<not> waking (sw_pc s w)" "sw_pc s 1 = Away" by simp_all
  then show ?thesis using no_lost_wakeup[OF s(1,3), of 1] s(1) by blast
qed



text \<open>
  C29. \<open>kill\<close> is a search of the table: it marks the first entry with the given pid killed, makes it runnable if
  it was asleep, changes nothing else and returns 0; or it returns -1, with nothing changed, when there is none.
\<close>

theorem kill_finds:
  assumes "no_proc_lock s" "procs_ok s"
  shows "kill pid s = (case find (\<lambda>i. p_pid (procs s ! i) = pid) [0..<NPROC] of
     None \<Rightarrow> Inr (-1, s) | Some i \<Rightarrow> Inr (0, s\<lparr>procs := (procs s)[i := killed (procs s ! i)]\<rparr>))"
  using kill_scan_eq[OF assms(1), of "[0..<NPROC]" pid] assms(2) by (simp add: kill_def procs_ok_def)

theorem kill_finds_witness:
  "\<exists>s'. kill 1 user_state = Inr (0, s') \<and> p_killed (procs s' ! 0)"
proof -
  have "[0..<NPROC] = 0 # [1..<NPROC]" by (simp add: NPROC_def upt_conv_Cons)
  then have "kill 1 user_state = Inr (0, user_state\<lparr>procs := (procs user_state)[0 := killed user_proc]\<rparr>)"
    using kill_finds[OF user_state_rest(3,4), of 1] by (simp add: user_state_fields user_proc_def)
  then show ?thesis by (simp add: user_state_fields killed_def)
qed

section \<open>Physical memory\<close>

text \<open>
  C24. Pages from \<open>kalloc\<close> (\<^verbatim>\<open>kernel/kalloc.c\<close>) are never handed out twice: from a free list that starts
  with \<open>ps\<close>, that many calls return exactly the pages \<open>ps\<close>, which are distinct and not null, and
  giving them back with \<open>kfree\<close> makes them available again.
\<close>

theorem kalloc_distinct:
  assumes "free_pages s (ps @ xs)" "KmemLk \<notin> held s"
  shows "\<exists>s1 s2. alloc_many kalloc (length ps) s = Inr (ps, s1) \<and> distinct ps \<and> 0 \<notin> set ps \<and>
    foldE kfree ps s1 = Inr s2 \<and> free_pages s2 (rev ps @ xs)"
  using kmem.alloc_free_many[of s ps xs] assms by (auto simp: kmem_pool_def)

text \<open>
  C26. \<open>kinit\<close> puts every whole page between the end of the kernel and \<open>PHYSTOP\<close> on the free list, the
  highest first.
\<close>

theorem kinit_frees_all:
  assumes "freelist s = 0" "KmemLk \<notin> held s" "0 < k_end s" "k_end s \<le> PHYSTOP"
  shows "\<exists>s'. kinit s = Inr s' \<and> free_pages s' (rev (range_pages (PGROUNDUP (k_end s)) PHYSTOP)) \<and> held s' = held s"
  by (rule kinit_ok[OF assms])

theorem kinit_frees_all_witness: "\<exists>s'. kinit small_kernel = Inr s' \<and> free_pages s' [0x87fff000, 0x87ffe000]"
  using kinit_frees_all[of small_kernel] small_kernel_pages by (auto simp: small_kernel_def kernel0_def word_le_nat_alt layout_vals)

theorem kalloc_distinct_witness:
  "\<exists>s s1 s2. kinit small_kernel = Inr s \<and> alloc_many kalloc 2 s = Inr ([0x87fff000, 0x87ffe000], s1) \<and>
     foldE kfree [0x87fff000, 0x87ffe000] s1 = Inr s2 \<and> free_pages s2 [0x87ffe000, 0x87fff000]"
proof -
  obtain s where s: "kinit small_kernel = Inr s" "free_pages s ([0x87fff000, 0x87ffe000] @ [])" "KmemLk \<notin> held s"
    using kinit_ok[of small_kernel] small_kernel_pages by (auto simp: small_kernel_def kernel0_def word_le_nat_alt layout_vals)
  show ?thesis using kalloc_distinct[OF s(2,3)] s(1) by (auto simp: numeral_2_eq_2)
qed



section \<open>Page tables and user memory\<close>

text \<open>
  C10. \<open>mappages\<close> (\<^verbatim>\<open>kernel/vm.c\<close>) on a well-formed page table and a range of unmapped pages below
  \<open>MAXVA\<close>: it maps the pages of the range, one after the other, to consecutive physical pages with the
  given permissions, and returns 0; or memory runs out, it returns -1 and a prefix of the range is
  mapped. Every other mapping is unchanged, the table stays well-formed, and the pages it grew by
  come from the front of the free list.
\<close>

theorem mappages_maps:
  assumes "vm_ok s pt F" "0 < unat sz" "unat va + unat sz \<le> 2 ^ 38"
    and "\<forall>vb<MAXVA. unat va div 4096 \<le> unat vb div 4096 \<and> unat vb div 4096 \<le> unat va div 4096 + more_pages va sz \<longrightarrow>
      vmap (mem s) pt vb AND PTE_V = 0"
  shows "\<exists>r s' us F' j. mappages pt va sz pa perm s = Inr (r, s') \<and> F = us @ F' \<and> vm_ok s' pt F' \<and>
    mapped s pt us (mapped_range va pa perm j (vmap (mem s) pt)) s' \<and>
    (r = 0 \<and> j = Suc (more_pages va sz) \<or> r = -1 \<and> j \<le> more_pages va sz \<and> F' = [])"
  by (rule mappages_ok[OF assms])

theorem mappages_maps_witness:
  "\<exists>r s' j. mappages root_page 4096 4096 0x87ff0000 PTE_R user_state = Inr (r, s') \<and> vm_ok s' root_page [] \<and>
     mapped user_state root_page [] (mapped_range 4096 0x87ff0000 PTE_R j (vmap user_mem root_page)) s' \<and>
     (r = 0 \<and> j = 1 \<or> r = -1 \<and> j = 0)"
proof -
  have z: "more_pages 4096 4096 = 0" by (simp add: more_pages_def)
  have "\<forall>vb<MAXVA. unat (4096 :: u64) div 4096 \<le> unat vb div 4096 \<and> unat vb div 4096 \<le> unat (4096 :: u64) div 4096 + more_pages 4096 4096 \<longrightarrow>
      vmap (mem user_state) root_page vb AND PTE_V = 0"
    by (auto simp: user_state_fields user_mem_vmap)
  from mappages_maps[OF user_vm_ok _ _ this, where pa = "0x87ff0000" and perm = PTE_R]
  show ?thesis by (auto simp: z user_state_fields)
qed

text \<open>
  C32. Mapping a page that is already mapped is refused with a panic.
\<close>

theorem mappages_no_remap:
  assumes "vm_ok s pt F" "va < MAXVA" "vmap (mem s) pt va AND PTE_V \<noteq> 0"
  shows "mappages pt va sz pa perm s = Inl (Panic ''remap'')"
  by (rule mappages_remap[OF assms])

theorem mappages_no_remap_witness: "mappages root_page 16 1 0x87ff0000 PTE_R user_state = Inl (Panic ''remap'')"
proof (rule mappages_no_remap[OF user_vm_ok])
  show "(16 :: u64) < MAXVA" by (simp add: word_less_nat_alt layout_vals)
  then show "vmap (mem user_state) root_page 16 AND PTE_V \<noteq> 0" by (simp add: user_state_fields user_mem_vmap user_pte_bits)
qed

text \<open>
  C9. Round trip through user memory: what \<open>copyout\<close> writes to a mapped range of a process, page by page,
  \<open>copyin\<close> reads back from the same addresses; \<open>copyout\<close> leaves every other byte of the process and
  the page table as they were.
\<close>

theorem copyout_copyin:
  assumes "frames_ok (mem s) pt" "unat va + unat len \<le> 2 ^ 38" "\<forall>i<unat len. umapped (mem s) pt (va + of_nat i)"
  shows "\<exists>s'. copyout pt va src len s = Inr (0, s') \<and> uwritten s pt va src (unat len) s' \<and>
    copyin pt dst va len s' = Inr ((0, \<lambda>x. if x < unat len then src x else dst x), s')"
proof -
  obtain s' where s': "copyout pt va src len s = Inr (0, s')" "uwritten s pt va src (unat len) s'"
    using copyout_mapped[OF assms] by blast
  have pt: "pt_ok (mem s') pt" using s'(2) by (simp add: uwritten_def frames_ok_def)
  have m: "\<forall>i<unat len. umapped (mem s') pt (va + of_nat i)" using assms(3) umapped_written[OF s'(2)] by simp
  have "uread (mem s') pt (va + of_nat x) = src x" if x: "x < unat len" for x
  proof -
    have v: "va + of_nat x < MAXVA" "vmap (mem s) pt (va + of_nat x) AND PTE_V \<noteq> 0" using assms(3) x by (auto simp: umapped_def)
    have "unat va + x < 18446744073709551616" using assms(2) x by simp
    then have "unat (va + of_nat x) = unat va + x" by (simp add: unat_word_ariths unat_of_nat)
    then show ?thesis using s'(2) v x unfolding uwritten_def by simp
  qed
  then have "(\<lambda>x. if x < unat len then uread (mem s') pt (va + of_nat x) else dst x) = (\<lambda>x. if x < unat len then src x else dst x)"
    by auto
  then show ?thesis using s' copyin_mapped[OF pt assms(2) m, of dst] by (intro exI[of _ s']) simp
qed

theorem copyout_copyin_witness:
  "\<exists>s'. copyout root_page 100 (\<lambda>i. of_nat i) 5 user_state = Inr (0, s') \<and>
     copyin root_page (\<lambda>_. 9) 100 5 s' = Inr ((0, \<lambda>x. if x < 5 then of_nat x else 9), s')"
proof -
  have m: "\<forall>i<unat (5 :: u64). umapped (mem user_state) root_page (100 + of_nat i)"
    by (simp add: user_state_fields user_umapped unat_word_ariths unat_of_nat)
  have f: "frames_ok (mem user_state) root_page" by (simp add: user_state_fields user_frames)
  have b: "unat (100 :: u64) + unat (5 :: u64) \<le> 2 ^ 38" by simp
  obtain s' where "copyout root_page 100 (\<lambda>i. of_nat i) 5 user_state = Inr (0, s')"
    "copyin root_page (\<lambda>_. 9) 100 5 s' = Inr ((0, \<lambda>x. if x < unat (5 :: u64) then of_nat x else 9), s')"
    using copyout_copyin[OF f b m, of "\<lambda>i. of_nat i" "\<lambda>_. 9"] by blast
  then show ?thesis by (intro exI[of _ s']) simp
qed





section \<open>Pipes\<close>

text \<open>
  C12. A pipe is a bounded FIFO queue of bytes (\<^verbatim>\<open>kernel/pipe.c\<close>): for any interleaving of writes and reads of
  single bytes, what comes out is what went in, in order, up to what is still in the pipe, and there
  are never more than \<open>PIPESIZE\<close> bytes in it. The counters \<open>nread\<close> and \<open>nwrite\<close> wrap at \<open>2 ^ 32\<close>.
\<close>

theorem pipe_fifo:
  assumes "pipe_inv p" "ring_run pipe_put pipe_get pipe_full pipe_empty ops p = Some (out, p')"
  shows "pipe_inv p' \<and> pipe_bytes p @ puts ops = out @ pipe_bytes p' \<and> length (pipe_bytes p') \<le> PIPESIZE"
  using prb.run_fifo[OF assms] prb.bounded by blast

text \<open>A pipe whose counters are about to wrap.\<close>

theorem pipe_fifo_witness:
  "\<exists>p'. ring_run pipe_put pipe_get pipe_full pipe_empty [Put 7, Put 8, Get, Put 9, Get]
     (pipe0\<lparr>pi_nread := 0xffffffff, pi_nwrite := 0xffffffff\<rparr>) = Some ([7, 8], p') \<and> pipe_bytes p' = [9]"
proof -
  let ?p = "pipe0\<lparr>pi_nread := 0xffffffff, pi_nwrite := 0xffffffff\<rparr>"
  have i: "pipe_inv ?p" and b: "pipe_bytes ?p = []" by (simp_all add: pipe_inv_def pipe_bytes_def ring_bytes_def)
  obtain p' where r: "ring_run pipe_put pipe_get pipe_full pipe_empty [Put 7, Put 8, Get, Put 9, Get] ?p = Some ([7, 8], p')"
    by (simp add: pipe_full_def pipe_put_def pipe_get_def pipe_empty_def param_defs pipe0_def)
  from pipe_fifo[OF i r] show ?thesis using b r by simp
qed

text \<open>
  C20. \<open>pipewrite\<close> with room in the pipe: it returns \<open>n\<close> and appends the \<open>n\<close> bytes of the caller's memory
  at \<open>addr\<close> to the pipe.
\<close>

theorem pipe_write_appends:
  assumes "curproc s = Some p" "no_proc_lock s" "procs_ok s" "PipeLk pi \<notin> held s"
    and "pt_ok (mem s) (p_pagetable (procs s ! p))" "pipe_inv (pipes s pi)"
    and "\<forall>j<n. umapped (mem s) (p_pagetable (procs s ! p)) (addr + of_nat j)"
    and "length (pipe_bytes (pipes s pi)) + n \<le> PIPESIZE"
  shows "\<exists>s'. pipewrite pi addr (int n) s = Inr (int n, s') \<and> mem s' = mem s \<and> pipe_inv (pipes s' pi) \<and>
    pipe_bytes (pipes s' pi) =
      pipe_bytes (pipes s pi) @ map (\<lambda>t. uread (mem s) (p_pagetable (procs s ! p)) (addr + of_nat t)) [0..<n]"
  by (rule pipewrite_ok[OF assms])

theorem pipe_write_appends_witness:
  "\<exists>s'. pipewrite 0x87ff0000 100 2 user_state = Inr (2, s') \<and>
     pipe_bytes (pipes s' 0x87ff0000) = [uread user_mem root_page 100, uread user_mem root_page 101]"
proof -
  have i: "pipe_inv (pipes user_state 0x87ff0000)" "pipe_bytes (pipes user_state 0x87ff0000) = []"
    by (simp_all add: user_state_rest pipe_inv_def pipe_bytes_def ring_bytes_def pipe0_def)
  have c: "no_proc_lock user_state" "procs_ok user_state" "PipeLk 0x87ff0000 \<notin> held user_state"
    by (simp_all add: user_state_rest user_state_fields)
  have m: "\<forall>j<2. umapped (mem user_state) (p_pagetable (procs user_state ! 0)) (100 + of_nat j)"
    by (simp add: user_state_fields user_umapped user_proc_def unat_word_ariths unat_of_nat)
  have p: "pt_ok (mem user_state) (p_pagetable (procs user_state ! 0))" by (simp add: user_state_fields user_proc_def user_mem_pt)
  have r: "length (pipe_bytes (pipes user_state 0x87ff0000)) + 2 \<le> PIPESIZE" by (simp add: i param_defs)
  obtain s' where "pipewrite 0x87ff0000 100 (int 2) user_state = Inr (int 2, s')" "pipe_bytes (pipes s' 0x87ff0000) =
      [] @ map (\<lambda>t. uread (mem user_state) (p_pagetable (procs user_state ! 0)) (100 + of_nat t)) [0..<2]"
    using pipe_write_appends[OF user_state_fields(2) c p i(1) m r] unfolding i(2) by blast
  then show ?thesis by (intro exI[of _ s']) (simp add: user_state_fields user_proc_def upt_rec)
qed

text \<open>
  C21. \<open>piperead\<close> from a pipe that is not empty: it takes the oldest bytes, at most \<open>n\<close>, puts them into the
  reader's memory at \<open>addr\<close> in order and returns their number; the rest stays in the pipe.
\<close>

theorem pipe_read_delivers:
  assumes "curproc s = Some p" "no_proc_lock s" "procs_ok s" "PipeLk pi \<notin> held s"
    and "frames_ok (mem s) (p_pagetable (procs s ! p))" "pipe_inv (pipes s pi)" "pipe_bytes (pipes s pi) \<noteq> []"
    and "\<forall>j<n. umapped (mem s) (p_pagetable (procs s ! p)) (addr + of_nat j)" "unat addr + n \<le> 2 ^ 38"
  shows "\<exists>s'. piperead pi addr (int n) s = Inr (int (min n (length (pipe_bytes (pipes s pi)))), s') \<and> pipe_inv (pipes s' pi) \<and>
    pipe_bytes (pipes s' pi) = drop n (pipe_bytes (pipes s pi)) \<and>
    (\<forall>j<min n (length (pipe_bytes (pipes s pi))).
       uread (mem s') (p_pagetable (procs s ! p)) (addr + of_nat j) = pipe_bytes (pipes s pi) ! j)"
proof -
  have "drop (min n (length (pipe_bytes (pipes s pi)))) (pipe_bytes (pipes s pi)) = drop n (pipe_bytes (pipes s pi))"
    by (simp add: min_def)
  then show ?thesis using piperead_ok[OF assms] by simp
qed

theorem pipe_read_delivers_witness:
  "\<exists>s'. piperead 0x87ff0000 200 5 (user_state\<lparr>pipes := \<lambda>_. pipe0\<lparr>pi_data := \<lambda>_. 42, pi_nwrite := 1\<rparr>\<rparr>) = Inr (1, s') \<and>
     uread (mem s') root_page 200 = 42"
proof -
  let ?s = "user_state\<lparr>pipes := \<lambda>_. pipe0\<lparr>pi_data := \<lambda>_. 42, pi_nwrite := 1\<rparr>\<rparr>"
  have i: "pipe_inv (pipes ?s 0x87ff0000)" "pipe_bytes (pipes ?s 0x87ff0000) = [42]"
    by (simp_all add: pipe_inv_def pipe_bytes_def ring_bytes_def pipe0_def param_defs)
  have c: "curproc ?s = Some 0" "no_proc_lock ?s" "procs_ok ?s" "PipeLk 0x87ff0000 \<notin> held ?s"
    by (simp_all add: no_proc_lock_def procs_ok_def user_state_fields NPROC_def)
  have m: "\<forall>j<5. umapped (mem ?s) (p_pagetable (procs ?s ! 0)) (200 + of_nat j)"
    by (simp add: user_state_fields user_umapped user_proc_def unat_word_ariths unat_of_nat)
  have p: "frames_ok (mem ?s) (p_pagetable (procs ?s ! 0))" by (simp add: user_state_fields user_proc_def user_frames)
  have r: "pipe_bytes (pipes ?s 0x87ff0000) \<noteq> []" "unat (200 :: u64) + 5 \<le> 2 ^ 38" by (simp_all only: i) simp_all
  obtain s' where s': "piperead 0x87ff0000 200 (int 5) ?s = Inr (int (min 5 (length [42 :: u8])), s')"
    "\<forall>j<min 5 (length [42 :: u8]). uread (mem s') (p_pagetable (procs ?s ! 0)) (200 + of_nat j) = [42] ! j"
    using pipe_read_delivers[OF c p i(1) r(1) m r(2)] unfolding i(2) by blast
  show ?thesis using s' by (intro exI[of _ s']) (simp add: user_state_fields user_proc_def)
qed

section \<open>The terminal\<close>





text \<open>
  C22. \<open>consoleread\<close> with room for it returns the first complete line: its bytes, newline included, are in the
  reader's memory, the result is its length, and the lines after it and the line being typed are
  still there.
\<close>

theorem console_reads_line:
  assumes "curproc s = Some p" "frames_ok (mem s) (p_pagetable (procs s ! p))" "cons_inv (kcons s)" "ConsLk \<notin> held s"
    and "cons_ready (kcons s) = line @ 10 # rest" "4 \<notin> set line" "10 \<notin> set line" "length line < n"
    and "\<forall>j\<le>length line. umapped (mem s) (p_pagetable (procs s ! p)) (addr + of_nat j)" "unat addr + length line < 2 ^ 38"
  shows "\<exists>s'. consoleread True addr (int n) s = Inr (int (length line + 1), s') \<and> held s' = held s \<and> cons_inv (kcons s') \<and>
    (cons_ready (kcons s'), cons_line (kcons s')) = (rest, cons_line (kcons s)) \<and>
    (\<forall>j\<le>length line. uread (mem s') (p_pagetable (procs s ! p)) (addr + of_nat j) = (line @ [10]) ! j)"
  by (rule consoleread_line[OF assms])

theorem console_reads_line_witness:
  "\<exists>s'. consoleread True 0 100 (user_state\<lparr>kcons := cons0\<lparr>c_buf := (\<lambda>_. 10)(0 := 97), c_w := 2, c_e := 2\<rparr>\<rparr>) = Inr (2, s') \<and>
     uread (mem s') root_page 0 = 97"
proof -
  let ?s = "user_state\<lparr>kcons := cons0\<lparr>c_buf := (\<lambda>_. 10)(0 := 97), c_w := 2, c_e := 2\<rparr>\<rparr>"
  have r: "cons_ready (kcons ?s) = [97] @ 10 # []" "cons_line (kcons ?s) = []"
    by (simp_all add: cons_ready_def cons_line_def cons_typed_def ring_bytes_def cons0_def param_defs upt_rec)
  then have i: "cons_inv (kcons ?s)" by (simp add: cons_inv_def cons0_def param_defs)
  have c: "curproc ?s = Some 0" "frames_ok (mem ?s) (p_pagetable (procs ?s ! 0))" "ConsLk \<notin> held ?s"
    by (simp_all add: user_state_fields user_proc_def user_frames)
  have m: "\<forall>j\<le>length [97 :: u8]. umapped (mem ?s) (p_pagetable (procs ?s ! 0)) (0 + of_nat j)"
    by (simp add: user_state_fields user_umapped user_proc_def unat_of_nat)
  obtain s' where s': "consoleread True 0 (int 100) ?s = Inr (int (length [97 :: u8] + 1), s')"
    "\<forall>j\<le>length [97 :: u8]. uread (mem s') (p_pagetable (procs ?s ! 0)) (0 + of_nat j) = ([97] @ [10]) ! j"
    using console_reads_line[OF c(1,2) i c(3) r(1) _ _ _ m, of 100] by auto
  show ?thesis using s' by (intro exI[of _ s']) (auto simp: user_state_fields user_proc_def)
qed

section \<open>C strings and memory\<close>

text \<open>
  C34. \<open>memmove\<close> (\<^verbatim>\<open>kernel/string.c\<close>) copies the bytes the source had before the call, whether or
  not the two regions overlap, and changes nothing outside the destination.
\<close>

theorem memmove_correct:
  "memmove m dst src n a = (if dst \<le> a \<and> a < dst + n then m (src + (a - dst)) else m a)"
  by (simp add: memmove_eq)

end
